(* ===== verification/Prelude.thy ===== *)
theory Prelude
  imports Main "HOL-Library.Char_ord" "HOL-Library.List_Lexorder" "HOL-Library.Sublist"
begin

text \<open>
  What the components share.

  \<^item> Go's instants and durations. An instant is the number of nanoseconds since Go's zero
    time (0001-01-01T00:00:00Z), so the zero time is 0; a duration is a signed number of
    nanoseconds. \<open>time.Time.Add\<close> is exact, \<open>time.Time.Sub\<close> saturates at the
    bounds of int64, arithmetic on durations themselves wraps (\<open>i64\<close>).
  \<^item> Go strings are byte strings: HOL's \<open>string\<close>, one \<open>char\<close> per byte. The functions of
    the packages strings and strconv that the repository uses, with Unicode white space in
    its UTF-8 encoding.
  \<^item> The collections of facts the component theories fill.
\<close>

named_theorems go_time "facts on instants and durations"
named_theorems go_str "facts on Go's string functions"

section \<open>Time\<close>

type_synonym instant = int
type_synonym duration = int

definition second :: duration where
  "second = 1000000000"

definition minute :: duration where
  "minute = 60 * second"

definition hour :: duration where
  "hour = 60 * minute"

lemmas duration_units = second_def minute_def hour_def

definition i64 :: "int \<Rightarrow> int" where
  "i64 x = (x + 2 ^ 63) mod 2 ^ 64 - 2 ^ 63"

definition max_i64 :: int where
  "max_i64 = 2 ^ 63 - 1"

definition min_i64 :: int where
  "min_i64 = - (2 ^ 63)"

definition time_sub :: "instant \<Rightarrow> instant \<Rightarrow> duration" where
  "time_sub t u = max min_i64 (min max_i64 (t - u))"

definition time_is_zero :: "instant \<Rightarrow> bool" where
  "time_is_zero t \<longleftrightarrow> t = 0"

lemma i64_id [go_time]: "min_i64 \<le> x \<Longrightarrow> x \<le> max_i64 \<Longrightarrow> i64 x = x"
  by (simp add: i64_def min_i64_def max_i64_def)

lemma i64_range: "min_i64 \<le> i64 x \<and> i64 x \<le> max_i64"
proof -
  have "0 \<le> (x + 2 ^ 63) mod 2 ^ 64" and "(x + 2 ^ 63) mod 2 ^ 64 < 2 ^ 64"
    by simp_all
  then show ?thesis by (simp add: i64_def min_i64_def max_i64_def)
qed

lemma time_sub_ge_iff [go_time]:
  "min_i64 < d \<Longrightarrow> d \<le> max_i64 \<Longrightarrow> d \<le> time_sub t u \<longleftrightarrow> u + d \<le> t"
  by (auto simp: time_sub_def min_i64_def max_i64_def)

lemma time_sub_exact [go_time]:
  "min_i64 \<le> t - u \<Longrightarrow> t - u \<le> max_i64 \<Longrightarrow> time_sub t u = t - u"
  by (simp add: time_sub_def)

section \<open>Division\<close>

lemma int_div_less_iff [go_time]: "0 < c \<Longrightarrow> n div c < m \<longleftrightarrow> n < m * c" for c n m :: int
proof
  assume c: "0 < c"
  have n: "n = n div c * c + n mod c" "0 \<le> n mod c" "n mod c < c"
    using c by (simp_all only: div_mult_mod_eq pos_mod_sign pos_mod_bound)
  {
    assume "n div c < m"
    then have "(n div c + 1) * c \<le> m * c" using c by (intro mult_right_mono) simp_all
    with n show "n < m * c" by (simp only: distrib_right mult_1)
  next
    assume "n < m * c"
    show "n div c < m"
    proof (rule ccontr)
      assume "\<not> n div c < m"
      then have "m * c \<le> n div c * c" using c by (intro mult_right_mono) simp_all
      with n \<open>n < m * c\<close> show False by linarith
    qed
  }
qed

lemma int_le_div_iff [go_time]: "0 < c \<Longrightarrow> m \<le> n div c \<longleftrightarrow> m * c \<le> n" for c n m :: int
  using int_div_less_iff [of c n m] by linarith

lemma div_mod_less:
  fixes m n c :: int
  assumes "0 < c"
  shows "m < n \<longleftrightarrow> m div c < n div c \<or> m div c = n div c \<and> m mod c < n mod c"
proof -
  have less: "x < y" if "x div c < y div c" for x y
    using that int_div_less_iff [OF assms, of x "y div c"] int_le_div_iff [OF assms, of "y div c" y]
    by linarith
  show ?thesis
  proof (cases "m div c = n div c")
    case True
    then have "n - m = n mod c - m mod c"
      by (simp add: minus_div_mult_eq_mod [symmetric])
    with True show ?thesis by linarith
  next
    case False
    with less [of m n] less [of n m] show ?thesis by linarith
  qed
qed

lemma div_mod_le:
  fixes m n c :: int
  assumes "0 < c"
  shows "m \<le> n \<longleftrightarrow> m div c < n div c \<or> m div c = n div c \<and> m mod c \<le> n mod c"
  using div_mod_less [OF assms, of n m] by linarith

lemma div_mod_less_nat:
  fixes m n c :: nat
  assumes "0 < c"
  shows "m < n \<longleftrightarrow> m div c < n div c \<or> m div c = n div c \<and> m mod c < n mod c"
proof -
  have "int m < int n \<longleftrightarrow> int (m div c) < int (n div c) \<or>
      int (m div c) = int (n div c) \<and> int (m mod c) < int (n mod c)"
    unfolding of_nat_div of_nat_mod by (rule div_mod_less) (use assms in simp)
  then show ?thesis by (simp only: of_nat_less_iff of_nat_eq_iff)
qed

lemma sum_of_three: "k = x + y + z \<Longrightarrow> q + k = u \<Longrightarrow> q + x + y + z = u" for k :: int
  by simp

lemma two_digits: "k = A * 60 + m \<Longrightarrow> A = q * 60 + r \<Longrightarrow> k = q * 3600 + r * 60 + m" for k :: int
  by simp

section \<open>Lists and options\<close>

lemma take_Suc_snoc: "n < length xs \<Longrightarrow> take (Suc n) xs = take n xs @ [xs ! n]"
  by (rule take_Suc_conv_app_nth)

lemma find_append: "find P (xs @ ys) = (case find P xs of Some x \<Rightarrow> Some x | None \<Rightarrow> find P ys)"
  by (induction xs) auto

section \<open>Strings\<close>

subsection \<open>White space: unicode.IsSpace, as UTF-8 bytes\<close>

definition space_runes :: "string list" where
  "space_runes =
     [[CHR 0x09], [CHR 0x0A], [CHR 0x0B], [CHR 0x0C], [CHR 0x0D], [CHR 0x20],
      [CHR 0xC2, CHR 0x85], [CHR 0xC2, CHR 0xA0],
      [CHR 0xE1, CHR 0x9A, CHR 0x80],
      [CHR 0xE2, CHR 0x80, CHR 0x80], [CHR 0xE2, CHR 0x80, CHR 0x81],
      [CHR 0xE2, CHR 0x80, CHR 0x82], [CHR 0xE2, CHR 0x80, CHR 0x83],
      [CHR 0xE2, CHR 0x80, CHR 0x84], [CHR 0xE2, CHR 0x80, CHR 0x85],
      [CHR 0xE2, CHR 0x80, CHR 0x86], [CHR 0xE2, CHR 0x80, CHR 0x87],
      [CHR 0xE2, CHR 0x80, CHR 0x88], [CHR 0xE2, CHR 0x80, CHR 0x89],
      [CHR 0xE2, CHR 0x80, CHR 0x8A],
      [CHR 0xE2, CHR 0x80, CHR 0xA8], [CHR 0xE2, CHR 0x80, CHR 0xA9],
      [CHR 0xE2, CHR 0x80, CHR 0xAF],
      [CHR 0xE2, CHR 0x81, CHR 0x9F],
      [CHR 0xE3, CHR 0x80, CHR 0x80]]"

lemma space_runes_nonempty: "w \<in> set space_runes \<Longrightarrow> w \<noteq> []"
  by (auto simp: space_runes_def)

fun has_prefix :: "string \<Rightarrow> string \<Rightarrow> bool" where
  "has_prefix s [] = True"
| "has_prefix [] (p # ps) = False"
| "has_prefix (c # s) (p # ps) = (c = p \<and> has_prefix s ps)"

definition has_suffix :: "string \<Rightarrow> string \<Rightarrow> bool" where
  "has_suffix s p = has_prefix (rev s) (rev p)"

lemma has_prefix_iff [go_str]: "has_prefix s p \<longleftrightarrow> (\<exists>r. s = p @ r)"
  by (induction s p rule: has_prefix.induct) auto

lemma has_suffix_iff [go_str]: "has_suffix s p \<longleftrightarrow> (\<exists>r. s = r @ p)"
proof -
  have "(\<exists>r. rev s = rev p @ r) \<longleftrightarrow> (\<exists>r. s = r @ p)"
    by (metis rev_append rev_rev_ident)
  then show ?thesis by (simp add: has_suffix_def has_prefix_iff)
qed

definition leading_space :: "string \<Rightarrow> nat" where
  "leading_space s = (case find (has_prefix s) space_runes of None \<Rightarrow> 0 | Some w \<Rightarrow> length w)"

definition trailing_space :: "string \<Rightarrow> nat" where
  "trailing_space s = (case find (has_suffix s) space_runes of None \<Rightarrow> 0 | Some w \<Rightarrow> length w)"

lemma leading_space_le: "leading_space s \<le> length s"
  by (auto simp: leading_space_def find_Some_iff has_prefix_iff split: option.split)

lemma trailing_space_le: "trailing_space s \<le> length s"
  by (auto simp: trailing_space_def find_Some_iff has_suffix_iff split: option.split)

function trim_left :: "string \<Rightarrow> string" where
  "trim_left s = (if leading_space s = 0 then s else trim_left (drop (leading_space s) s))"
  by pat_completeness auto
termination
proof (relation "measure length", simp)
  fix s
  assume "leading_space s \<noteq> 0"
  with leading_space_le [of s] show "(drop (leading_space s) s, s) \<in> measure length" by simp
qed

function trim_right :: "string \<Rightarrow> string" where
  "trim_right s =
     (if trailing_space s = 0 then s else trim_right (take (length s - trailing_space s) s))"
  by pat_completeness auto
termination
proof (relation "measure length", simp)
  fix s
  assume "trailing_space s \<noteq> 0"
  with trailing_space_le [of s]
  show "(take (length s - trailing_space s) s, s) \<in> measure length" by simp
qed

declare trim_left.simps [simp del] trim_right.simps [simp del]

definition trim_space :: "string \<Rightarrow> string" where
  "trim_space s = trim_right (trim_left s)"

lemma trim_left_suffix: "suffix (trim_left s) s"
proof (induction s rule: trim_left.induct)
  case (1 s)
  show ?case
  proof (cases "leading_space s = 0")
    case True
    then show ?thesis by (simp add: trim_left.simps [of s])
  next
    case False
    with 1 have "suffix (trim_left (drop (leading_space s) s)) (drop (leading_space s) s)"
      by simp
    with False show ?thesis
      by (simp add: trim_left.simps [of s]) (meson suffix_drop suffix_order.trans)
  qed
qed

lemma trim_right_prefix: "prefix (trim_right s) s"
proof (induction s rule: trim_right.induct)
  case (1 s)
  show ?case
  proof (cases "trailing_space s = 0")
    case True
    then show ?thesis by (simp add: trim_right.simps [of s])
  next
    case False
    with 1 have "prefix (trim_right (take (length s - trailing_space s) s))
        (take (length s - trailing_space s) s)"
      by simp
    with False show ?thesis
      by (simp add: trim_right.simps [of s]) (meson take_is_prefix prefix_order.trans)
  qed
qed

lemma trim_space_set: "set (trim_space s) \<subseteq> set s"
  unfolding trim_space_def
  using set_mono_prefix [OF trim_right_prefix] set_mono_suffix [OF trim_left_suffix] by blast

lemma trim_space_length: "length (trim_space s) \<le> length s"
  unfolding trim_space_def
  using prefix_length_le [OF trim_right_prefix] suffix_length_le [OF trim_left_suffix]
  by (meson le_trans)

lemma trim_right_no_trailing [go_str]: "trailing_space (trim_right s) = 0"
proof (induction s rule: trim_right.induct)
  case (1 s)
  then show ?case by (cases "trailing_space s = 0") (simp_all add: trim_right.simps [of s])
qed

lemma trim_left_no_leading [go_str]: "leading_space (trim_left s) = 0"
proof (induction s rule: trim_left.induct)
  case (1 s)
  then show ?case by (cases "leading_space s = 0") (simp_all add: trim_left.simps [of s])
qed

lemma leading_space_Nil [simp]: "leading_space [] = 0"
  using leading_space_le [of "[]"] by simp

lemma trailing_space_Nil [simp]: "trailing_space [] = 0"
  using trailing_space_le [of "[]"] by simp

lemma trim_left_Nil [simp]: "trim_left [] = []"
  by (simp add: trim_left.simps)

lemma trim_right_Nil [simp]: "trim_right [] = []"
  by (simp add: trim_right.simps)

lemma trim_space_Nil [simp]: "trim_space [] = []"
  by (simp add: trim_space_def)

lemma leading_space_0_iff:
  "leading_space s = 0 \<longleftrightarrow> (\<forall>w\<in>set space_runes. \<not> has_prefix s w)"
proof -
  have "find (has_prefix s) space_runes = Some w \<Longrightarrow> w \<noteq> []" for w
    by (auto simp: find_Some_iff dest: nth_mem space_runes_nonempty)
  then show ?thesis
    by (auto simp: leading_space_def find_None_iff split: option.split) (auto simp: find_Some_iff)
qed

lemma trailing_space_0_iff:
  "trailing_space s = 0 \<longleftrightarrow> (\<forall>w\<in>set space_runes. \<not> has_suffix s w)"
proof -
  have "find (has_suffix s) space_runes = Some w \<Longrightarrow> w \<noteq> []" for w
    by (auto simp: find_Some_iff dest: nth_mem space_runes_nonempty)
  then show ?thesis
    by (auto simp: trailing_space_def find_None_iff split: option.split) (auto simp: find_Some_iff)
qed

lemma leading_space_prefix: "prefix t s \<Longrightarrow> leading_space s = 0 \<Longrightarrow> leading_space t = 0"
  by (auto simp: leading_space_0_iff has_prefix_iff prefix_def)

lemma trim_space_no_leading [go_str]: "leading_space (trim_space s) = 0"
  unfolding trim_space_def
  by (rule leading_space_prefix [OF trim_right_prefix]) (rule trim_left_no_leading)

lemma trim_space_no_trailing [go_str]: "trailing_space (trim_space s) = 0"
  by (simp add: trim_space_def trim_right_no_trailing)

lemma trim_space_id: "leading_space s = 0 \<Longrightarrow> trailing_space s = 0 \<Longrightarrow> trim_space s = s"
  by (simp add: trim_space_def trim_left.simps [of s] trim_right.simps [of s])

lemma trim_space_idem [simp]: "trim_space (trim_space s) = trim_space s"
  by (rule trim_space_id) (simp_all add: go_str)

end
