(* ===== verification/GoErr.thy ===== *)
theory GoErr
  imports Prelude
begin

text \<open>
  Go errors as a tree. A leaf is a sentinel (\<open>errors.New\<close> kept in a package variable and
  compared by identity), an anonymous text, or one of the concrete error types the repository
  looks for with \<open>errors.As\<close>; \<open>Wrap\<close> is \<open>fmt.Errorf\<close> with one \<open>%w\<close> (the text before
  and after it), \<open>Multi\<close> is \<open>fmt.Errorf\<close> with several and \<open>errors.Join\<close>.
  \<open>errors.Is\<close> and \<open>errors.As\<close> walk the tree in pre-order, depth first, which \<open>chain\<close>
  lists.
\<close>

datatype gerr =
    Sentinel string
  | Text string
  | ApiErr string int string  \<comment> \<open>httpc.APIError: service, status, body\<close>
  | FiberErr int string       \<comment> \<open>fiber.Error: code, message\<close>
  | EnvErr int string string "(string \<times> string \<times> string) list" gerr
      \<comment> \<open>fiberx.APIError: status, message, code, fields; last what its Unwrap returns\<close>
  | UrlErr string string gerr \<comment> \<open>url.Error: operation, URL, cause; it is a net.Error\<close>
  | NetErr string             \<comment> \<open>any other net.Error\<close>
  | DnsErr string             \<comment> \<open>net.DNSError, a net.Error too\<close>
  | CertErr string            \<comment> \<open>tls.CertificateVerificationError\<close>
  | RetrieveErr string "int option"
      \<comment> \<open>oauth2.RetrieveError: error code, status of the response if there is one\<close>
  | ExpiredErr string         \<comment> \<open>oidc.TokenExpiredError\<close>
  | Wrap string gerr string
  | Multi string "gerr list"

fun chain :: "gerr \<Rightarrow> gerr list" where
  "chain (Wrap pre e post) = Wrap pre e post # chain e"
| "chain (Multi sep es) = Multi sep es # concat (map chain es)"
| "chain (UrlErr op u e) = UrlErr op u e # chain e"
| "chain (EnvErr st m c fs e) = EnvErr st m c fs e # chain e"
| "chain e = [e]"

definition errors_is :: "gerr \<Rightarrow> string \<Rightarrow> bool" where
  "errors_is e s \<longleftrightarrow> Sentinel s \<in> set (chain e)"

fun first_some :: "('a \<Rightarrow> 'b option) \<Rightarrow> 'a list \<Rightarrow> 'b option" where
  "first_some f [] = None"
| "first_some f (x # xs) = (case f x of Some y \<Rightarrow> Some y | None \<Rightarrow> first_some f xs)"

definition errors_as :: "(gerr \<Rightarrow> 'b option) \<Rightarrow> gerr \<Rightarrow> 'b option" where
  "errors_as f e = first_some f (chain e)"

text \<open>The target types of \<open>errors.As\<close> in the repository.\<close>

fun as_api :: "gerr \<Rightarrow> (string \<times> int \<times> string) option" where
  "as_api (ApiErr svc st b) = Some (svc, st, b)"
| "as_api _ = None"

fun as_fiber :: "gerr \<Rightarrow> (int \<times> string) option" where
  "as_fiber (FiberErr c m) = Some (c, m)"
| "as_fiber _ = None"

fun as_env :: "gerr \<Rightarrow> (int \<times> string \<times> string \<times> (string \<times> string \<times> string) list) option" where
  "as_env (EnvErr st m c fs _) = Some (st, m, c, fs)"
| "as_env _ = None"

fun as_net :: "gerr \<Rightarrow> unit option" where
  "as_net (UrlErr _ _ _) = Some ()"
| "as_net (NetErr _) = Some ()"
| "as_net (DnsErr _) = Some ()"
| "as_net _ = None"

fun as_url :: "gerr \<Rightarrow> (string \<times> string \<times> gerr) option" where
  "as_url (UrlErr op u e) = Some (op, u, e)"
| "as_url _ = None"

fun as_dns :: "gerr \<Rightarrow> string option" where
  "as_dns (DnsErr h) = Some h"
| "as_dns _ = None"

fun as_cert :: "gerr \<Rightarrow> string option" where
  "as_cert (CertErr m) = Some m"
| "as_cert _ = None"

fun as_retrieve :: "gerr \<Rightarrow> (string \<times> int option) option" where
  "as_retrieve (RetrieveErr c st) = Some (c, st)"
| "as_retrieve _ = None"

fun as_expired :: "gerr \<Rightarrow> string option" where
  "as_expired (ExpiredErr m) = Some m"
| "as_expired _ = None"

abbreviation ctx_canceled :: string where
  "ctx_canceled \<equiv> ''context canceled''"

abbreviation ctx_deadline :: string where
  "ctx_deadline \<equiv> ''context deadline exceeded''"

section \<open>Lemmas\<close>

lemma chain_self: "e \<in> set (chain e)"
  by (cases e) auto

lemma errors_is_Sentinel [simp]: "errors_is (Sentinel t) s \<longleftrightarrow> s = t"
  by (auto simp: errors_is_def)

lemma errors_is_Text [simp]: "\<not> errors_is (Text t) s"
  by (simp add: errors_is_def)

lemma errors_is_leaf [simp]:
  "\<not> errors_is (ApiErr a b c) s" "\<not> errors_is (FiberErr d m) s" "\<not> errors_is (NetErr m) s"
  "\<not> errors_is (DnsErr m) s" "\<not> errors_is (CertErr m) s" "\<not> errors_is (RetrieveErr m st) s"
  "\<not> errors_is (ExpiredErr m) s"
  by (simp_all add: errors_is_def)

lemma errors_is_Wrap [simp]: "errors_is (Wrap pre e post) s \<longleftrightarrow> errors_is e s"
  by (simp add: errors_is_def)

lemma errors_is_UrlErr [simp]: "errors_is (UrlErr op u e) s \<longleftrightarrow> errors_is e s"
  by (simp add: errors_is_def)

lemma errors_is_EnvErr [simp]: "errors_is (EnvErr st m c fs e) s \<longleftrightarrow> errors_is e s"
  by (simp add: errors_is_def)

lemma errors_is_Multi [simp]: "errors_is (Multi sep es) s \<longleftrightarrow> (\<exists>e\<in>set es. errors_is e s)"
  by (auto simp: errors_is_def)

lemma errors_as_Wrap [simp]:
  "f (Wrap pre e post) = None \<Longrightarrow> errors_as f (Wrap pre e post) = errors_as f e"
  by (simp add: errors_as_def)

lemma first_some_append:
  "first_some f (xs @ ys) = (case first_some f xs of Some y \<Rightarrow> Some y | None \<Rightarrow> first_some f ys)"
  by (induction xs) (auto split: option.splits)

lemma first_some_None: "first_some f xs = None \<longleftrightarrow> (\<forall>x\<in>set xs. f x = None)"
  by (induction xs) (auto split: option.splits)

lemma first_some_Some_D: "first_some f xs = Some y \<Longrightarrow> \<exists>x\<in>set xs. f x = Some y"
  by (induction xs) (auto split: option.splits)

lemma errors_as_leaf [simp]:
  "errors_as f (Sentinel s) = f (Sentinel s)" "errors_as f (Text s) = f (Text s)"
  "errors_as f (ApiErr a b c) = f (ApiErr a b c)" "errors_as f (FiberErr d m) = f (FiberErr d m)"
  "errors_as f (NetErr m) = f (NetErr m)" "errors_as f (DnsErr m) = f (DnsErr m)"
  "errors_as f (CertErr m) = f (CertErr m)" "errors_as f (ExpiredErr m) = f (ExpiredErr m)"
  "errors_as f (RetrieveErr m st) = f (RetrieveErr m st)"
  by (simp_all add: errors_as_def split: option.split)

section \<open>Error()\<close>

fun join_with :: "string \<Rightarrow> string list \<Rightarrow> string" where
  "join_with sep [] = []"
| "join_with sep [x] = x"
| "join_with sep (x # y # xs) = x @ sep @ join_with sep (y # xs)"

text \<open>\<open>errors.Join\<close>: nil when nothing is left; its sentence is one line per error.\<close>

definition errors_join :: "gerr list \<Rightarrow> gerr option" where
  "errors_join es = (if es = [] then None else Some (Multi [CHR 0x0A] es))"

lemma errors_join_None [simp]: "errors_join es = None \<longleftrightarrow> es = []"
  by (simp add: errors_join_def)

end
