(* ===== verification/Cache.thy ===== *)
theory Cache
  imports GoErr
begin

text \<open>
  cache/cache.go: the in-memory cache with per-key single flight and stale-while-revalidate.

  \<^item> Values. An entry's \<open>val\<close> is Go's \<open>any\<close>: nil, or a dynamic type with a value. The type
    parameter \<open>T\<close> of \<open>Fetch\<close> is a concrete type, or an interface given by the types that
    implement it; \<open>type_assert\<close> is the assertion \<open>e.val.(T)\<close>.
  \<^item> The entry: \<open>load\<close>, the publishing section of \<open>Fetch\<close>, the two ends of \<open>revalidate\<close> and
    the part of \<open>Invalidate\<close> under the entry's lock, one definition per critical section.
  \<^item> The table: \<open>entryFor\<close> with its FIFO eviction over a heap of entries, since a goroutine
    keeps its entry after the key is evicted.
  \<^item> \<open>fetch_alone\<close>: one whole \<open>Fetch\<close> with nobody else running.
  \<^item> \<open>estep\<close>: any number of goroutines on one entry, a step per critical section or call of
    \<open>fn\<close>; here live the single-flight and no-stale-publish invariants.

  \<open>gen\<close> is a counter in nat: the uint64 of the code wraps after \<open>2 ^ 64\<close> calls of \<open>Invalidate\<close>.
\<close>

section \<open>Dynamic values\<close>

datatype 'v goany = NilAny | Dyn string 'v

datatype gotype = Concrete string | Iface string "string list"

fun type_assert :: "gotype \<Rightarrow> 'v goany \<Rightarrow> 'v goany option" where
  "type_assert T NilAny = None"
| "type_assert (Concrete n) (Dyn ty v) = (if ty = n then Some (Dyn ty v) else None)"
| "type_assert (Iface n impl) (Dyn ty v) = (if ty \<in> set impl then Some (Dyn ty v) else None)"

text \<open>What a Go variable of static type \<open>T\<close> can hold.\<close>

fun has_type :: "gotype \<Rightarrow> 'v goany \<Rightarrow> bool" where
  "has_type (Concrete n) NilAny = False"
| "has_type (Iface n impl) NilAny = True"
| "has_type (Concrete n) (Dyn ty v) = (ty = n)"
| "has_type (Iface n impl) (Dyn ty v) = (ty \<in> set impl)"

lemma type_assert_Some: "type_assert T x = Some y \<Longrightarrow> y = x \<and> x \<noteq> NilAny \<and> has_type T x"
  by (cases "(T, x)" rule: type_assert.cases) (auto split: if_splits)

lemma type_assert_ok: "has_type T x \<Longrightarrow> x \<noteq> NilAny \<Longrightarrow> type_assert T x = Some x"
  by (cases "(T, x)" rule: type_assert.cases) auto

section \<open>The entry\<close>

record 'v entry =
  e_val :: "'v goany"
  e_expires :: instant
  e_loaded :: bool
  e_refreshing :: bool
  e_failed :: bool
  e_fetchedAt :: instant
  e_gen :: nat

definition new_entry :: "'v entry" where
  "new_entry = \<lparr>e_val = NilAny, e_expires = 0, e_loaded = False, e_refreshing = False,
     e_failed = False, e_fetchedAt = 0, e_gen = 0\<rparr>"

record status =
  st_Failed :: bool
  st_FetchedAt :: instant

definition zero_status :: status where
  "zero_status = \<lparr>st_Failed = False, st_FetchedAt = 0\<rparr>"

definition ErrTypeMismatch :: string where
  "ErrTypeMismatch = ''cache: key holds a value of a different type''"

definition mismatch_error :: "string \<Rightarrow> gerr" where
  "mismatch_error key = Wrap [] (Sentinel ErrTypeMismatch) ('': '' @ key)"

definition defaultMaxEntries :: nat where
  "defaultMaxEntries = 4096"

definition retryBackoff :: duration where
  "retryBackoff = 5 * second"

text \<open>The outcome of \<open>load\<close>: cold, a mismatch, or a value with its status and the claim of the
  refresh (\<open>spawn\<close>).\<close>

datatype 'v load_result = LoadCold | LoadMismatch gerr | LoadHit "'v goany" status bool

definition load :: "gotype \<Rightarrow> instant \<Rightarrow> string \<Rightarrow> 'v entry \<Rightarrow> 'v entry \<times> 'v load_result" where
  "load T now key e =
     (if \<not> e_loaded e then (e, LoadCold)
      else case type_assert T (e_val e) of
        None \<Rightarrow> (e, LoadMismatch (mismatch_error key))
      | Some got \<Rightarrow>
          (let st = \<lparr>st_Failed = e_failed e, st_FetchedAt = e_fetchedAt e\<rparr> in
           if now < e_expires e then (e, LoadHit got st False)
           else if \<not> e_refreshing e then (e\<lparr>e_refreshing := True\<rparr>, LoadHit got st True)
           else (e, LoadHit got st False)))"

definition invalidate_entry :: "'v entry \<Rightarrow> 'v entry" where
  "invalidate_entry e = e\<lparr>e_loaded := False, e_gen := Suc (e_gen e)\<rparr>"

definition publish :: "nat \<Rightarrow> 'v goany \<Rightarrow> duration \<Rightarrow> instant \<Rightarrow> 'v entry \<Rightarrow> 'v entry" where
  "publish gen v ttl now e =
     (if e_gen e = gen
      then e\<lparr>e_val := v, e_expires := now + ttl, e_loaded := True, e_failed := False,
             e_fetchedAt := now\<rparr>
      else e)"

definition revalidate_finish ::
    "nat \<Rightarrow> 'v goany option \<Rightarrow> duration \<Rightarrow> instant \<Rightarrow> 'v entry \<Rightarrow> 'v entry" where
  "revalidate_finish gen r ttl now e =
     (let e1 = e\<lparr>e_refreshing := False\<rparr> in
      if e_gen e1 \<noteq> gen then e1
      else case r of
        Some v \<Rightarrow> e1\<lparr>e_val := v, e_expires := now + ttl, e_loaded := True, e_failed := False,
                     e_fetchedAt := now\<rparr>
      | None \<Rightarrow> e1\<lparr>e_failed := True, e_expires := now + retryBackoff\<rparr>)"

subsection \<open>What each critical section does\<close>

lemma load_cold [simp]: "\<not> e_loaded e \<Longrightarrow> load T now key e = (e, LoadCold)"
  by (simp add: load_def)

lemma load_cases [consumes 1, case_names cold mismatch fresh claim stale]:
  assumes "load T now key e = (e', r)"
  obtains "\<not> e_loaded e" "e' = e" "r = LoadCold"
  | "e_loaded e" "type_assert T (e_val e) = None" "e' = e" "r = LoadMismatch (mismatch_error key)"
  | "e_loaded e" "type_assert T (e_val e) = Some (e_val e)" "now < e_expires e" "e' = e"
      "r = LoadHit (e_val e) \<lparr>st_Failed = e_failed e, st_FetchedAt = e_fetchedAt e\<rparr> False"
  | "e_loaded e" "type_assert T (e_val e) = Some (e_val e)" "\<not> now < e_expires e"
      "\<not> e_refreshing e" "e' = e\<lparr>e_refreshing := True\<rparr>"
      "r = LoadHit (e_val e) \<lparr>st_Failed = e_failed e, st_FetchedAt = e_fetchedAt e\<rparr> True"
  | "e_loaded e" "type_assert T (e_val e) = Some (e_val e)" "\<not> now < e_expires e"
      "e_refreshing e" "e' = e"
      "r = LoadHit (e_val e) \<lparr>st_Failed = e_failed e, st_FetchedAt = e_fetchedAt e\<rparr> False"
proof (cases "e_loaded e")
  case False
  with assms show ?thesis by (intro that(1)) (simp_all add: load_def)
next
  case True
  show ?thesis
  proof (cases "type_assert T (e_val e)")
    case None
    with True assms show ?thesis by (intro that(2)) (simp_all add: load_def)
  next
    case (Some got)
    then have got: "type_assert T (e_val e) = Some (e_val e)" using type_assert_Some by metis
    consider "now < e_expires e" | "\<not> now < e_expires e" "\<not> e_refreshing e"
      | "\<not> now < e_expires e" "e_refreshing e" by blast
    then show ?thesis
    proof cases
      case 1
      with True got have *: "load T now key e = (e, LoadHit (e_val e) \<lparr>st_Failed = e_failed e, st_FetchedAt = e_fetchedAt e\<rparr> False)"
        by (simp add: load_def)
      from assms * have "e' = e" "r = LoadHit (e_val e) \<lparr>st_Failed = e_failed e, st_FetchedAt = e_fetchedAt e\<rparr> False" by (metis prod.inject)+
      with 1 True got show ?thesis by (intro that(3)) simp_all
    next
      case 2
      with True got have *: "load T now key e = (e\<lparr>e_refreshing := True\<rparr>, LoadHit (e_val e) \<lparr>st_Failed = e_failed e, st_FetchedAt = e_fetchedAt e\<rparr> True)"
        by (simp add: load_def)
      from assms * have "e' = e\<lparr>e_refreshing := True\<rparr>" "r = LoadHit (e_val e) \<lparr>st_Failed = e_failed e, st_FetchedAt = e_fetchedAt e\<rparr> True" by (metis prod.inject)+
      with 2 True got show ?thesis by (intro that(4)) simp_all
    next
      case 3
      with True got have *: "load T now key e = (e, LoadHit (e_val e) \<lparr>st_Failed = e_failed e, st_FetchedAt = e_fetchedAt e\<rparr> False)"
        by (simp add: load_def)
      from assms * have "e' = e" "r = LoadHit (e_val e) \<lparr>st_Failed = e_failed e, st_FetchedAt = e_fetchedAt e\<rparr> False" by (metis prod.inject)+
      with 3 True got show ?thesis by (intro that(5)) simp_all
    qed
  qed
qed

lemma load_frame:
  "load T now key e = (e', r) \<Longrightarrow>
   e_loaded e' = e_loaded e \<and> e_gen e' = e_gen e \<and> e_val e' = e_val e"
  by (elim load_cases) simp_all

lemma load_refreshing_mono: "load T now key e = (e', r) \<Longrightarrow> e_refreshing e \<Longrightarrow> e_refreshing e'"
  by (elim load_cases) simp_all

lemma load_spawn:
  "load T now key e = (e', LoadHit v st True) \<Longrightarrow> \<not> e_refreshing e \<and> e_refreshing e'"
  by (elim load_cases) simp_all

lemma publish_simps [simp]:
  "e_gen (publish g v ttl now e) = e_gen e"
  "e_refreshing (publish g v ttl now e) = e_refreshing e"
  by (simp_all add: publish_def)

lemma revalidate_finish_simps [simp]:
  "e_gen (revalidate_finish g r ttl now e) = e_gen e"
  "\<not> e_refreshing (revalidate_finish g r ttl now e)"
  by (simp_all add: revalidate_finish_def Let_def split: option.split)

lemma invalidate_entry_simps [simp]:
  "\<not> e_loaded (invalidate_entry e)" "e_gen (invalidate_entry e) = Suc (e_gen e)"
  "e_refreshing (invalidate_entry e) = e_refreshing e"
  by (simp_all add: invalidate_entry_def)

section \<open>The table and its FIFO eviction\<close>

record 'v cache =
  c_entries :: "string \<rightharpoonup> nat"
  c_order :: "string list"
  c_maxEntries :: nat
  c_heap :: "nat \<Rightarrow> 'v entry"
  c_next :: nat  \<comment> \<open>the next address the allocator gives out\<close>

definition new_cache :: "nat \<Rightarrow> 'v cache" where
  "new_cache cap = \<lparr>c_entries = Map.empty, c_order = [], c_maxEntries = cap,
     c_heap = (\<lambda>_. new_entry), c_next = 0\<rparr>"

definition New :: "'v cache" where
  "New = new_cache defaultMaxEntries"

fun evict :: "nat \<Rightarrow> string list \<Rightarrow> (string \<rightharpoonup> nat) \<Rightarrow> string list \<times> (string \<rightharpoonup> nat)" where
  "evict cap [] m = ([], m)"
| "evict cap (k # ks) m =
     (if length (k # ks) > cap then evict cap ks (m(k := None)) else (k # ks, m))"

definition entryFor :: "string \<Rightarrow> 'v cache \<Rightarrow> 'v cache \<times> nat" where
  "entryFor key c =
     (case c_entries c key of
        Some a \<Rightarrow> (c, a)
      | None \<Rightarrow>
          (let a = c_next c;
               (ks, m) = evict (c_maxEntries c) (c_order c @ [key]) ((c_entries c)(key \<mapsto> a))
           in (c\<lparr>c_entries := m, c_order := ks, c_heap := (c_heap c)(a := new_entry),
                 c_next := Suc a\<rparr>, a)))"

definition Len :: "'v cache \<Rightarrow> nat" where
  "Len c = card (dom (c_entries c))"

definition put_entry :: "nat \<Rightarrow> 'v entry \<Rightarrow> 'v cache \<Rightarrow> 'v cache" where
  "put_entry a e c = c\<lparr>c_heap := (c_heap c)(a := e)\<rparr>"

definition Invalidate :: "string \<Rightarrow> 'v cache \<Rightarrow> 'v cache" where
  "Invalidate key c =
     (let (c1, a) = entryFor key c in put_entry a (invalidate_entry (c_heap c1 a)) c1)"

text \<open>The invariant: \<open>order\<close> lists the keys once each, within the cap; live keys have their own
  entries.\<close>

definition cache_ok :: "'v cache \<Rightarrow> bool" where
  "cache_ok c \<longleftrightarrow> distinct (c_order c) \<and> set (c_order c) = dom (c_entries c) \<and>
     length (c_order c) \<le> c_maxEntries c \<and> inj_on (c_entries c) (dom (c_entries c)) \<and>
     (\<forall>a\<in>ran (c_entries c). a < c_next c)"

lemma evict_fst: "fst (evict cap ks m) = drop (length ks - cap) ks"
  by (induction ks arbitrary: m) (auto simp: Suc_diff_le not_less)

lemma evict_snd:
  "distinct ks \<Longrightarrow>
   snd (evict cap ks m) x = (if x \<in> set (take (length ks - cap) ks) then None else m x)"
proof (induction ks arbitrary: m)
  case Nil
  then show ?case by simp
next
  case (Cons k ks)
  show ?case
  proof (cases "cap < length (k # ks)")
    case True
    then have len: "length (k # ks) - cap = Suc (length ks - cap)" by simp
    from True Cons show ?thesis by (simp only: len take_Suc_Cons) simp
  next
    case False
    then show ?thesis by simp
  qed
qed

lemma evict_spec:
  assumes "distinct ks" and "set ks = dom m"
  shows "evict cap ks m =
    (drop (length ks - cap) ks, m |` set (drop (length ks - cap) ks))"
proof (rule prod_eqI)
  show "fst (evict cap ks m) = fst (drop (length ks - cap) ks, m |` set (drop (length ks - cap) ks))"
    by (simp add: evict_fst)
  have "x \<in> set (take n ks) \<longleftrightarrow> x \<in> set ks \<and> x \<notin> set (drop n ks)" for x n
    using assms(1) set_take_disj_set_drop_if_distinct [of ks n n]
    by (metis Un_iff append_take_drop_id disjoint_iff order_refl set_append)
  then show "snd (evict cap ks m) = snd (drop (length ks - cap) ks, m |` set (drop (length ks - cap) ks))"
    using assms by (auto simp: fun_eq_iff evict_snd restrict_map_def)
qed

lemma entryFor_hit [simp]: "c_entries c key = Some a \<Longrightarrow> entryFor key c = (c, a)"
  by (simp add: entryFor_def)

lemma entryFor_miss:
  assumes ok: "cache_ok c" and miss: "c_entries c key = None"
  defines "ks \<equiv> drop (Suc (length (c_order c)) - c_maxEntries c) (c_order c @ [key])"
  shows "entryFor key c =
    (c\<lparr>c_entries := ((c_entries c)(key \<mapsto> c_next c)) |` set ks, c_order := ks,
       c_heap := (c_heap c)(c_next c := new_entry), c_next := Suc (c_next c)\<rparr>, c_next c)"
proof -
  have "distinct (c_order c @ [key])" "set (c_order c @ [key]) = dom ((c_entries c)(key \<mapsto> c_next c))"
    using ok miss by (auto simp: cache_ok_def)
  from evict_spec [OF this] show ?thesis
    using miss by (simp add: entryFor_def Let_def ks_def del: fun_upd_apply restrict_upd_same)
qed

lemma inj_on_upd_restrict:
  fixes m :: "'k \<rightharpoonup> nat"
  assumes "inj_on m (dom m)" and "\<forall>a\<in>ran m. a < n"
  shows "inj_on ((m(k \<mapsto> n)) |` S) (dom ((m(k \<mapsto> n)) |` S))"
proof (rule inj_onI)
  fix x y
  assume "x \<in> dom ((m(k \<mapsto> n)) |` S)" "y \<in> dom ((m(k \<mapsto> n)) |` S)"
    and eq: "((m(k \<mapsto> n)) |` S) x = ((m(k \<mapsto> n)) |` S) y"
  then have xy: "x \<in> S" "y \<in> S" "x \<in> insert k (dom m)" "y \<in> insert k (dom m)"
    by (auto simp: restrict_map_def split: if_splits)
  from xy(1,2) eq have same: "(m(k \<mapsto> n)) x = (m(k \<mapsto> n)) y"
    by (simp only: restrict_in)
  have fresh: "m z \<noteq> Some n" for z
  proof
    assume "m z = Some n"
    then have "n \<in> ran m" by (rule ranI)
    with assms(2) show False by auto
  qed
  show "x = y"
  proof (cases "x = k \<or> y = k")
    case True
    with same fresh [of x] fresh [of y] show ?thesis by (auto split: if_splits)
  next
    case False
    with same xy(3,4) show ?thesis using inj_onD [OF assms(1), of x y] by simp
  qed
qed

lemma entryFor_ok:
  assumes ok: "cache_ok c" and run: "entryFor key c = (c', a)"
  shows "cache_ok c'" and "c_maxEntries c' = c_maxEntries c" and "a < c_next c'"
proof -
  have "cache_ok c' \<and> c_maxEntries c' = c_maxEntries c \<and> a < c_next c'"
  proof (cases "c_entries c key")
    case (Some b)
    with ok run show ?thesis by (auto simp: cache_ok_def ran_def)
  next
    case None
    define ks where "ks = drop (Suc (length (c_order c)) - c_maxEntries c) (c_order c @ [key])"
    have c': "c' = c\<lparr>c_entries := ((c_entries c)(key \<mapsto> c_next c)) |` set ks, c_order := ks,
       c_heap := (c_heap c)(c_next c := new_entry), c_next := Suc (c_next c)\<rparr>" "a = c_next c"
      using entryFor_miss [OF ok None] run by (simp_all add: ks_def)
    have d: "distinct (c_order c @ [key])" "set (c_order c @ [key]) = insert key (dom (c_entries c))"
      using ok None by (auto simp: cache_ok_def)
    have "distinct ks" unfolding ks_def using d(1) by (rule distinct_drop)
    moreover have sub: "set ks \<subseteq> insert key (dom (c_entries c))"
      using set_drop_subset d(2) unfolding ks_def by metis
    moreover have "set ks = dom (((c_entries c)(key \<mapsto> c_next c)) |` set ks)"
      using sub by auto
    moreover have "length ks \<le> c_maxEntries c" by (simp add: ks_def)
    moreover have "inj_on (((c_entries c)(key \<mapsto> c_next c)) |` set ks)
        (dom (((c_entries c)(key \<mapsto> c_next c)) |` set ks))"
      using ok by (intro inj_on_upd_restrict) (auto simp: cache_ok_def)
    moreover have "\<forall>b\<in>ran (((c_entries c)(key \<mapsto> c_next c)) |` set ks). b < Suc (c_next c)"
      using ok by (fastforce simp: cache_ok_def ran_def restrict_map_def split: if_splits)
    ultimately show ?thesis by (simp add: c' cache_ok_def)
  qed
  then show "cache_ok c'" "c_maxEntries c' = c_maxEntries c" "a < c_next c'" by simp_all
qed

lemma new_cache_ok: "cache_ok (new_cache cap)"
  by (simp add: cache_ok_def new_cache_def)

lemma heap_update_ok [simp]: "cache_ok (c\<lparr>c_heap := h\<rparr>) = cache_ok c"
  by (simp add: cache_ok_def)

lemma Len_order: "cache_ok c \<Longrightarrow> Len c = length (c_order c)"
  by (metis Len_def cache_ok_def distinct_card)

lemma put_entry_simps [simp]:
  "c_entries (put_entry a e c) = c_entries c" "c_order (put_entry a e c) = c_order c"
  "c_maxEntries (put_entry a e c) = c_maxEntries c" "c_next (put_entry a e c) = c_next c"
  "c_heap (put_entry a e c) = (c_heap c)(a := e)"
  "cache_ok (put_entry a e c) = cache_ok c" "Len (put_entry a e c) = Len c"
  by (simp_all add: put_entry_def cache_ok_def Len_def)

lemma entryFor_stays:
  assumes ok: "cache_ok c" and cap: "0 < c_maxEntries c" and run: "entryFor key c = (c', a)"
  shows "c_entries c' key = Some a"
proof (cases "c_entries c key")
  case None
  define ks where "ks = drop (Suc (length (c_order c)) - c_maxEntries c) (c_order c @ [key])"
  have "length (c_order c) \<le> c_maxEntries c" using ok by (simp add: cache_ok_def)
  with cap have "key \<in> set ks" by (simp add: ks_def)
  moreover have "c_entries c' = ((c_entries c)(key \<mapsto> c_next c)) |` set ks" and "a = c_next c"
    using entryFor_miss [OF ok None, folded ks_def] run by simp_all
  ultimately show ?thesis by (simp only: restrict_in fun_upd_same)
qed (use run in simp)

section \<open>One Fetch, one revalidation, uninterrupted\<close>

text \<open>What the caller's \<open>fn\<close> does, and what \<open>Fetch\<close> hands back; \<open>None\<close> is the zero value of the
  caller's type.\<close>

datatype 'v fn_result = FnValue "'v goany" | FnError "'v goany" gerr | FnPanic

datatype 'v fetch_out = FetchReturn "'v goany option" status "gerr option" | FetchPanic

text \<open>\<open>t1\<close>, \<open>t2\<close> and \<open>t3\<close> are what the clock reads in the first \<open>load\<close>, in the second one and after
  \<open>fn\<close>; the last component is the entry for which a revalidation was started.\<close>

definition fetch_cold ::
    "duration \<Rightarrow> instant \<Rightarrow> 'v fn_result \<Rightarrow> nat \<Rightarrow> 'v cache \<Rightarrow> 'v cache \<times> 'v fetch_out" where
  "fetch_cold ttl t3 r a c =
     (let gen = e_gen (c_heap c a) in
      case r of
        FnError v err \<Rightarrow> (c, FetchReturn (Some v) zero_status (Some err))
      | FnPanic \<Rightarrow> (c, FetchPanic)
      | FnValue v \<Rightarrow>
          (put_entry a (publish gen v ttl t3 (c_heap c a)) c,
           FetchReturn (Some v) \<lparr>st_Failed = False, st_FetchedAt = t3\<rparr> None))"

definition Fetch ::
    "gotype \<Rightarrow> string \<Rightarrow> duration \<Rightarrow> instant \<Rightarrow> instant \<Rightarrow> instant \<Rightarrow> 'v fn_result \<Rightarrow> 'v cache \<Rightarrow>
     'v cache \<times> 'v fetch_out \<times> nat option" where
  "Fetch T key ttl t1 t2 t3 r c =
     (let (c1, a) = entryFor key c; (e1, l1) = load T t1 key (c_heap c1 a); c2 = put_entry a e1 c1 in
      case l1 of
        LoadMismatch err \<Rightarrow> (c2, FetchReturn None zero_status (Some err), None)
      | LoadHit v st spawn \<Rightarrow> (c2, FetchReturn (Some v) st None, if spawn then Some a else None)
      | LoadCold \<Rightarrow>
          (let (e2, l2) = load T t2 key (c_heap c2 a); c3 = put_entry a e2 c2 in
           case l2 of
             LoadMismatch err \<Rightarrow> (c3, FetchReturn None zero_status (Some err), None)
           | LoadHit v st _ \<Rightarrow> (c3, FetchReturn (Some v) st None, None)
           | LoadCold \<Rightarrow> (let (c4, out) = fetch_cold ttl t3 r a c3 in (c4, out, None))))"

definition GetOrFetch ::
    "gotype \<Rightarrow> string \<Rightarrow> duration \<Rightarrow> instant \<Rightarrow> instant \<Rightarrow> instant \<Rightarrow> 'v fn_result \<Rightarrow> 'v cache \<Rightarrow>
     'v cache \<times> ('v goany option \<times> gerr option) option" where
  "GetOrFetch T key ttl t1 t2 t3 r c =
     (case Fetch T key ttl t1 t2 t3 r c of
        (c', FetchReturn v st err, _) \<Rightarrow> (c', Some (v, err))
      | (c', FetchPanic, _) \<Rightarrow> (c', None))"

definition revalidate :: "duration \<Rightarrow> instant \<Rightarrow> 'v fn_result \<Rightarrow> nat \<Rightarrow> 'v cache \<Rightarrow> 'v cache" where
  "revalidate ttl now r a c =
     (let gen = e_gen (c_heap c a);
          got = (case r of FnValue v \<Rightarrow> Some v | FnError v err \<Rightarrow> None | FnPanic \<Rightarrow> None)
      in put_entry a (revalidate_finish gen got ttl now (c_heap c a)) c)"

section \<open>The table as an interface\<close>

text \<open>
  \<open>Fetch\<close> and \<open>Invalidate\<close> reach an entry only through \<open>entryFor\<close>. What they rely on: the table
  keeps its invariant and its cap, and a key just looked up is found again at the same entry.
\<close>

locale entry_table =
  fixes find_entry :: "string \<Rightarrow> 's \<Rightarrow> 's \<times> nat"
    and wr :: "nat \<Rightarrow> 'e \<Rightarrow> 's \<Rightarrow> 's"
    and rd :: "'s \<Rightarrow> nat \<Rightarrow> 'e"
    and ok :: "'s \<Rightarrow> bool"
    and held :: "'s \<Rightarrow> nat"
    and cap :: "'s \<Rightarrow> nat"
  assumes find_ok: "ok s \<Longrightarrow> find_entry k s = (s', a) \<Longrightarrow> ok s' \<and> cap s' = cap s"
    and write_ok: "ok s \<Longrightarrow> ok (wr a e s)"
    and write_cap: "cap (wr a e s) = cap s"
    and within: "ok s \<Longrightarrow> held s \<le> cap s"
    and read_write: "rd (wr a e s) a = e"
    and find_again: "ok s \<Longrightarrow> 0 < cap s \<Longrightarrow> find_entry k s = (s', a) \<Longrightarrow>
      find_entry k (wr a e s') = (wr a e s', a)"
begin

definition update :: "string \<Rightarrow> ('e \<Rightarrow> 'e) \<Rightarrow> 's \<Rightarrow> 's" where
  "update k f s = (let (s1, a) = find_entry k s in wr a (f (rd s1 a)) s1)"

lemma update_ok: "ok s \<Longrightarrow> ok (update k f s)" and update_cap: "ok s \<Longrightarrow> cap (update k f s) = cap s"
  by (cases "find_entry k s"; simp add: update_def write_ok write_cap find_ok)+

lemma updates_ok: "ok s \<Longrightarrow> ok (fold (\<lambda>(k, f). update k f) ops s) \<and>
   cap (fold (\<lambda>(k, f). update k f) ops s) = cap s"
  by (induction ops arbitrary: s) (auto simp: update_ok update_cap)

lemma updates_bounded: "ok s \<Longrightarrow> held (fold (\<lambda>(k, f). update k f) ops s) \<le> cap s"
  using updates_ok within by metis

lemma read_after_update:
  assumes "ok s" and "0 < cap s" and "find_entry k s = (s1, a)"
  shows "find_entry k (update k f s) = (update k f s, a)" and "rd (update k f s) a = f (rd s1 a)"
  using find_again [OF assms] assms(3) by (simp_all add: update_def read_write)

end

interpretation table: entry_table entryFor put_entry c_heap cache_ok Len c_maxEntries
proof unfold_locales
  fix c :: "'v cache" and k c' a
  assume "cache_ok c" "entryFor k c = (c', a)"
  from entryFor_ok [OF this] show "cache_ok c' \<and> c_maxEntries c' = c_maxEntries c" by simp
next
  fix c :: "'v cache"
  assume ok: "cache_ok c"
  then show "Len c \<le> c_maxEntries c" by (simp add: Len_order) (simp add: cache_ok_def)
next
  fix c :: "'v cache" and k c' a e
  assume "cache_ok c" "0 < c_maxEntries c" "entryFor k c = (c', a)"
  from entryFor_stays [OF this] show "entryFor k (put_entry a e c') = (put_entry a e c', a)"
    by (simp add: entryFor_hit)
qed simp_all

lemma Invalidate_update: "Invalidate key = table.update key invalidate_entry"
  by (simp add: Invalidate_def table.update_def fun_eq_iff)

lemma Fetch_ok:
  assumes "cache_ok c"
  shows "cache_ok (fst (Fetch T key ttl t1 t2 t3 r c)) \<and>
    c_maxEntries (fst (Fetch T key ttl t1 t2 t3 r c)) = c_maxEntries c"
proof -
  obtain c1 a where run: "entryFor key c = (c1, a)" by fastforce
  from entryFor_ok [OF assms run] have "cache_ok c1" "c_maxEntries c1 = c_maxEntries c" by simp_all
  then show ?thesis
    by (simp add: Fetch_def run fetch_cold_def Let_def case_prod_unfold
        split: load_result.split fn_result.split)
qed

lemma put_entry_same [simp]: "put_entry a (c_heap c a) c = c"
  by (simp add: put_entry_def)

lemma put_entry_twice [simp]: "put_entry a e (put_entry a e' c) = put_entry a e c"
  by (simp add: put_entry_def)

section \<open>Properties\<close>

subsection \<open>Occupancy\<close>

datatype 'v cache_op =
    OpInvalidate string
  | OpFetch gotype string duration instant instant instant "'v fn_result"
  | OpRevalidate duration instant "'v fn_result" nat

fun cache_step :: "'v cache_op \<Rightarrow> 'v cache \<Rightarrow> 'v cache" where
  "cache_step (OpInvalidate key) c = Invalidate key c"
| "cache_step (OpFetch T key ttl t1 t2 t3 r) c = fst (Fetch T key ttl t1 t2 t3 r c)"
| "cache_step (OpRevalidate ttl now r a) c = revalidate ttl now r a c"

lemma cache_step_ok:
  "cache_ok c \<Longrightarrow> cache_ok (cache_step op c) \<and> c_maxEntries (cache_step op c) = c_maxEntries c"
  by (cases op)
     (simp_all add: Invalidate_update table.update_ok table.update_cap Fetch_ok revalidate_def Let_def)

lemma cache_run_ok:
  "cache_ok c \<Longrightarrow> cache_ok (fold cache_step ops c) \<and> c_maxEntries (fold cache_step ops c) = c_maxEntries c"
  by (induction ops arbitrary: c) (simp_all add: cache_step_ok)

text \<open>
  Whatever sequence of operations runs on a new cache, it never holds more keys than its cap,
  and its insertion-order list names exactly the keys it holds, each once.
\<close>

theorem cache_bounded:
  "Len (fold cache_step ops (new_cache cap)) \<le> cap \<and>
   set (c_order (fold cache_step ops (new_cache cap))) =
     dom (c_entries (fold cache_step ops (new_cache cap))) \<and>
   distinct (c_order (fold cache_step ops (new_cache cap)))"
proof -
  have ok: "cache_ok (fold cache_step ops (new_cache cap))"
    and cap: "c_maxEntries (fold cache_step ops (new_cache cap)) = cap"
    using cache_run_ok [OF new_cache_ok, where ops = ops and cap1 = cap] by (simp_all add: new_cache_def)
  from table.within [OF ok] cap ok show ?thesis by (simp add: cache_ok_def)
qed

lemma entryFor_order:
  "cache_ok c \<Longrightarrow> k \<notin> set (c_order c) \<Longrightarrow>
   c_order (fst (entryFor k c)) = drop (Suc (length (c_order c)) - c_maxEntries c) (c_order c @ [k])"
  by (subst entryFor_miss) (auto simp: cache_ok_def)

lemma drop_window:
  defines "d ys n \<equiv> drop (length ys - n) ys"
  shows "drop (length (d ys n) + m - n) (d ys n @ zs) = drop (length ys + m - n) (ys @ zs)"
proof (cases "length ys \<le> n")
  case True
  then show ?thesis by (simp add: d_def)
next
  case False
  then have "length ys - n \<le> length ys" "length (d ys n) + m - n = m" by (simp_all add: d_def)
  moreover have "d ys n @ zs = drop (length ys - n) (ys @ zs)" by (simp add: d_def)
  moreover have "m + (length ys - n) = length ys + m - n" using False by simp
  ultimately show ?thesis by (simp only: drop_drop)
qed

lemma lookups_order:
  "cache_ok c \<Longrightarrow> distinct (c_order c @ ks) \<Longrightarrow>
   c_order (fold (\<lambda>k c. fst (entryFor k c)) ks c) =
     drop (length (c_order c) + length ks - c_maxEntries c) (c_order c @ ks)"
proof (induction ks arbitrary: c)
  case Nil
  then show ?case by (simp add: cache_ok_def)
next
  case (Cons k ks)
  define c1 where "c1 = fst (entryFor k c)"
  obtain a where run: "entryFor k c = (c1, a)" by (cases "entryFor k c") (simp add: c1_def)
  note c1 = entryFor_ok [OF Cons.prems(1) run]
  have o: "c_order c1 = drop (Suc (length (c_order c)) - c_maxEntries c) (c_order c @ [k])"
    using Cons.prems by (simp add: c1_def entryFor_order)
  define d where "d = drop (Suc (length (c_order c)) - c_maxEntries c) (c_order c @ [k])"
  have "distinct d" unfolding d_def by (rule distinct_drop) (use Cons.prems in simp)
  moreover have "set d \<subseteq> set (c_order c @ [k])" unfolding d_def by (rule set_drop_subset)
  ultimately have "distinct (c_order c1 @ ks)"
    using Cons.prems(2) unfolding o d_def [symmetric] by auto
  from Cons.IH [OF c1(1) this]
  have "c_order (fold (\<lambda>k c. fst (entryFor k c)) ks c1) =
      drop (length d + length ks - c_maxEntries c) (d @ ks)"
    by (simp only: o d_def c1(2))
  also have "\<dots> = drop (length (c_order c @ [k]) + length ks - c_maxEntries c) ((c_order c @ [k]) @ ks)"
    using drop_window [of "c_order c @ [k]" "c_maxEntries c"] by (simp only: d_def length_append_singleton)
  finally show ?case by (simp add: c1_def)
qed

text \<open>
  Eviction is first in, first out: after looking up any sequence of distinct new keys, a cache
  of cap n holds the last n of them, oldest first.
\<close>

theorem cache_fifo:
  assumes "distinct ks"
  shows "c_order (fold (\<lambda>k c. fst (entryFor k c)) ks (new_cache cap)) = drop (length ks - cap) ks"
  using lookups_order [OF new_cache_ok [of cap], of ks] assms by (simp add: new_cache_def)

theorem cache_fifo_witness:
  "c_order (fold (\<lambda>k c. fst (entryFor k c)) [''a'', ''b'', ''c''] (new_cache 2)) = [''b'', ''c'']"
  using cache_fifo [of "[''a'', ''b'', ''c'']" 2] by simp

subsection \<open>What a Fetch returns\<close>

lemma Fetch_cold:
  assumes "entryFor key c = (c1, a)" and "\<not> e_loaded (c_heap c1 a)"
  shows "Fetch T key ttl t1 t2 t3 r c =
    (let (c', out) = fetch_cold ttl t3 r a c1 in (c', out, None))"
  using assms by (simp add: Fetch_def)

lemma Fetch_fresh:
  assumes "entryFor key c = (c, a)" and "e_loaded (c_heap c a)" and "t1 < e_expires (c_heap c a)"
    and "type_assert T (e_val (c_heap c a)) = Some v"
  shows "Fetch T key ttl t1 t2 t3 r c =
    (c, FetchReturn (Some v)
       \<lparr>st_Failed = e_failed (c_heap c a), st_FetchedAt = e_fetchedAt (c_heap c a)\<rparr> None, None)"
  using assms by (simp add: Fetch_def load_def)

lemma Fetch_stale:
  assumes "entryFor key c = (c, a)" and "e_loaded (c_heap c a)" and "e_expires (c_heap c a) \<le> t1"
    and "type_assert T (e_val (c_heap c a)) = Some v" and "\<not> e_refreshing (c_heap c a)"
  shows "Fetch T key ttl t1 t2 t3 r c =
    (put_entry a ((c_heap c a)\<lparr>e_refreshing := True\<rparr>) c, FetchReturn (Some v)
       \<lparr>st_Failed = e_failed (c_heap c a), st_FetchedAt = e_fetchedAt (c_heap c a)\<rparr> None, Some a)"
  using assms by (simp add: Fetch_def load_def)

lemma Fetch_mismatch:
  assumes "entryFor key c = (c, a)" and "e_loaded (c_heap c a)"
    and "type_assert T (e_val (c_heap c a)) = None"
  shows "Fetch T key ttl t1 t2 t3 r c =
    (c, FetchReturn None zero_status (Some (mismatch_error key)), None)"
  using assms by (simp add: Fetch_def load_def)

lemma invalidate_then_fetch_facts:
  assumes ok: "cache_ok c" and cap: "0 < c_maxEntries c"
    and v: "has_type T v" "v \<noteq> NilAny"
    and run: "Fetch T key ttl t1 t2 t3 (FnValue v) (Invalidate key c) = (c', out)"
    and fresh: "t < t3 + ttl"
  shows "out = (FetchReturn (Some v) \<lparr>st_Failed = False, st_FetchedAt = t3\<rparr> None, None)"
    and "Fetch T key ttl' t t4 t5 r c' =
      (c', FetchReturn (Some v) \<lparr>st_Failed = False, st_FetchedAt = t3\<rparr> None, None)"
proof -
  obtain c1 a where c1: "entryFor key c = (c1, a)" by fastforce
  define ci where "ci = Invalidate key c"
  have ci: "entryFor key ci = (ci, a)" "c_heap ci a = invalidate_entry (c_heap c1 a)"
    using table.read_after_update [OF ok cap c1, of invalidate_entry]
    by (simp_all add: ci_def Invalidate_update)
  have ci_ok: "cache_ok ci" "0 < c_maxEntries ci"
    using ok cap by (simp_all add: ci_def Invalidate_update table.update_ok table.update_cap)
  define e where "e = publish (e_gen (c_heap ci a)) v ttl t3 (c_heap ci a)"
  have eq: "Fetch T key ttl t1 t2 t3 (FnValue v) ci =
      (put_entry a e ci, FetchReturn (Some v) \<lparr>st_Failed = False, st_FetchedAt = t3\<rparr> None, None)"
    using Fetch_cold [OF ci(1)] ci(2) by (simp add: fetch_cold_def e_def)
  with run show "out = (FetchReturn (Some v) \<lparr>st_Failed = False, st_FetchedAt = t3\<rparr> None, None)"
    by (simp add: ci_def)
  have c': "c' = put_entry a e ci" using run eq by (simp add: ci_def)
  have "entryFor key c' = (c', a)" using table.find_again [OF ci_ok ci(1)] by (simp add: c')
  from Fetch_fresh [OF this] v fresh show "Fetch T key ttl' t t4 t5 r c' =
      (c', FetchReturn (Some v) \<lparr>st_Failed = False, st_FetchedAt = t3\<rparr> None, None)"
    by (simp add: c' e_def publish_def type_assert_ok)
qed

text \<open>
  After \<open>Invalidate\<close>, the next \<open>Fetch\<close> runs \<open>fn\<close> and returns exactly its value, whatever the
  entry held; until the ttl runs out every \<open>Fetch\<close> of the same type returns that value with the
  time it was produced, leaves the cache alone and does not run \<open>fn\<close> (its outcome \<open>r\<close> is free).
\<close>

theorem invalidate_then_fetch:
  assumes "cache_ok c" and "0 < c_maxEntries c" and "has_type T v" and "v \<noteq> NilAny"
    and "Fetch T key ttl t1 t2 t3 (FnValue v) (Invalidate key c) = (c', out)"
    and "t < t3 + ttl"
  shows "out = (FetchReturn (Some v) \<lparr>st_Failed = False, st_FetchedAt = t3\<rparr> None, None) \<and>
    Fetch T key ttl' t t4 t5 r c' =
      (c', FetchReturn (Some v) \<lparr>st_Failed = False, st_FetchedAt = t3\<rparr> None, None)"
  using invalidate_then_fetch_facts [OF assms] by blast

theorem invalidate_then_fetch_witness:
  "snd (Fetch (Concrete ''int'') ''k'' 100 10 10 20 (FnValue (Dyn ''int'' (7::int)))
      (Invalidate ''k'' (new_cache 1))) =
   (FetchReturn (Some (Dyn ''int'' 7)) \<lparr>st_Failed = False, st_FetchedAt = 20\<rparr> None, None)"
  by (rule invalidate_then_fetch [THEN conjunct1, OF new_cache_ok _ _ _ prod.collapse [symmetric], of _ _ _ 21])
     (simp_all add: new_cache_def)

lemma stale_while_revalidate_facts:
  fixes c :: "'v cache"
  assumes found: "c_entries c key = Some a" and e: "e = c_heap c a"
    and loaded: "e_loaded e" "\<not> e_refreshing e" and asserted: "type_assert T (e_val e) = Some v"
    and stale: "e_expires e \<le> t1"
    and run: "Fetch T key ttl t1 t2 t3 r c = (c1, out, spawned)"
  shows "out = FetchReturn (Some v) \<lparr>st_Failed = e_failed e, st_FetchedAt = e_fetchedAt e\<rparr> None"
    and "spawned = Some a"
    and "now \<le> t \<Longrightarrow> t < now + retryBackoff \<Longrightarrow>
      Fetch T key ttl t t4 t5 r' (revalidate ttl now FnPanic a c1) =
        (revalidate ttl now FnPanic a c1,
         FetchReturn (Some v) \<lparr>st_Failed = True, st_FetchedAt = e_fetchedAt e\<rparr> None, None)"
    and "has_type T w \<Longrightarrow> w \<noteq> NilAny \<Longrightarrow> t < now + ttl \<Longrightarrow>
      Fetch T key ttl t t4 t5 r' (revalidate ttl now (FnValue w) a c1) =
        (revalidate ttl now (FnValue w) a c1,
         FetchReturn (Some w) \<lparr>st_Failed = False, st_FetchedAt = now\<rparr> None, None)"
    and "\<not> e_refreshing (c_heap (revalidate ttl now r'' a c1) a)"
proof -
  have eq: "Fetch T key ttl t1 t2 t3 r c = (put_entry a (e\<lparr>e_refreshing := True\<rparr>) c,
      FetchReturn (Some v) \<lparr>st_Failed = e_failed e, st_FetchedAt = e_fetchedAt e\<rparr> None, Some a)"
    using Fetch_stale [OF entryFor_hit [OF found]] assms by simp
  with run have c1: "c1 = put_entry a (e\<lparr>e_refreshing := True\<rparr>) c"
    and out: "out = FetchReturn (Some v) \<lparr>st_Failed = e_failed e, st_FetchedAt = e_fetchedAt e\<rparr> None"
    "spawned = Some a" by simp_all
  from out show "out = FetchReturn (Some v) \<lparr>st_Failed = e_failed e, st_FetchedAt = e_fetchedAt e\<rparr> None"
    "spawned = Some a" .
  have found': "entryFor key (put_entry a e' c) = (put_entry a e' c, a)" for e'
    by (rule entryFor_hit) (simp add: found)
  show "\<not> e_refreshing (c_heap (revalidate ttl now r'' a c1) a)"
    by (simp add: revalidate_def Let_def)
  show "Fetch T key ttl t t4 t5 r' (revalidate ttl now FnPanic a c1) =
        (revalidate ttl now FnPanic a c1,
         FetchReturn (Some v) \<lparr>st_Failed = True, st_FetchedAt = e_fetchedAt e\<rparr> None, None)"
    if "now \<le> t" "t < now + retryBackoff"
    using that loaded asserted
    by (subst Fetch_fresh [where a = a and v = v])
       (simp_all add: revalidate_def Let_def c1 found' revalidate_finish_def)
  show "Fetch T key ttl t t4 t5 r' (revalidate ttl now (FnValue w) a c1) =
        (revalidate ttl now (FnValue w) a c1,
         FetchReturn (Some w) \<lparr>st_Failed = False, st_FetchedAt = now\<rparr> None, None)"
    if "has_type T w" "w \<noteq> NilAny" "t < now + ttl"
    using that
    by (subst Fetch_fresh [where a = a and v = w])
       (simp_all add: revalidate_def Let_def c1 found' revalidate_finish_def type_assert_ok)
qed

text \<open>
  A stale entry is served at once and one revalidation is started for it. If that fails, the
  old value stays, marked as failed, and no further revalidation starts for five seconds; if it
  succeeds, the new value is served, unmarked. Either way the claim on the refresh is released.
\<close>

theorem stale_while_revalidate:
  fixes c :: "'v cache"
  assumes "c_entries c key = Some a" and "e = c_heap c a" and "e_loaded e" and "\<not> e_refreshing e"
    and "type_assert T (e_val e) = Some v" and "e_expires e \<le> t1"
    and "Fetch T key ttl t1 t2 t3 r c = (c1, out, spawned)"
  shows "out = FetchReturn (Some v) \<lparr>st_Failed = e_failed e, st_FetchedAt = e_fetchedAt e\<rparr> None \<and>
    spawned = Some a \<and>
    (now \<le> t \<and> t < now + retryBackoff \<longrightarrow>
      Fetch T key ttl t t4 t5 r' (revalidate ttl now FnPanic a c1) =
        (revalidate ttl now FnPanic a c1,
         FetchReturn (Some v) \<lparr>st_Failed = True, st_FetchedAt = e_fetchedAt e\<rparr> None, None)) \<and>
    (has_type T w \<and> w \<noteq> NilAny \<and> t < now + ttl \<longrightarrow>
      Fetch T key ttl t t4 t5 r' (revalidate ttl now (FnValue w) a c1) =
        (revalidate ttl now (FnValue w) a c1,
         FetchReturn (Some w) \<lparr>st_Failed = False, st_FetchedAt = now\<rparr> None, None)) \<and>
    \<not> e_refreshing (c_heap (revalidate ttl now r'' a c1) a)"
proof -
  note facts = stale_while_revalidate_facts [OF assms]
  show ?thesis by (intro conjI impI facts; elim conjE; assumption)
qed

theorem stale_while_revalidate_witness:
  "snd (snd (Fetch (Concrete ''int'') ''k'' 100 500 501 502 FnPanic
      (fst (Fetch (Concrete ''int'') ''k'' 100 10 10 20 (FnValue (Dyn ''int'' (7::int)))
        (new_cache 1))))) = Some 0"
proof -
  define c :: "int cache" where
    "c = fst (Fetch (Concrete ''int'') ''k'' 100 10 10 20 (FnValue (Dyn ''int'' (7::int))) (new_cache 1))"
  have c: "c_entries c ''k'' = Some 0" "e_loaded (c_heap c 0)" "\<not> e_refreshing (c_heap c 0)"
    "e_val (c_heap c 0) = Dyn ''int'' 7" "e_expires (c_heap c 0) = 120"
    by (simp_all add: c_def Fetch_def entryFor_def new_cache_def new_entry_def fetch_cold_def
        publish_def Let_def)
  obtain c1 out spawned where
    run: "Fetch (Concrete ''int'') ''k'' 100 500 501 502 FnPanic c = (c1, out, spawned)"
    by (rule prod_cases3)
  have "spawned = Some 0"
    by (rule stale_while_revalidate [THEN conjunct2, THEN conjunct1, OF c(1) refl c(2,3) _ _ run]) (simp_all add: c)
  with run have "snd (snd (Fetch (Concrete ''int'') ''k'' 100 500 501 502 FnPanic c)) = Some 0"
    by (simp only: snd_conv)
  then show ?thesis by (simp only: c_def)
qed

lemma nil_interface_rejected_facts:
  assumes run: "Fetch (Iface n impl) key ttl t1 t2 t3 (FnValue NilAny) (new_cache (Suc cap)) = (c', out)"
  shows "out = (FetchReturn (Some NilAny) \<lparr>st_Failed = False, st_FetchedAt = t3\<rparr> None, None)"
    and "Fetch (Iface n impl) key ttl t4 t5 t6 r c' =
      (c', FetchReturn None zero_status (Some (mismatch_error key)), None)"
proof -
  have c: "c_entries c' key = Some 0" "e_loaded (c_heap c' 0)" "e_val (c_heap c' 0) = NilAny"
    and "out = (FetchReturn (Some NilAny) \<lparr>st_Failed = False, st_FetchedAt = t3\<rparr> None, None)"
    using run by (auto simp: Fetch_def entryFor_def new_cache_def new_entry_def fetch_cold_def
        publish_def Let_def)
  then show "out = (FetchReturn (Some NilAny) \<lparr>st_Failed = False, st_FetchedAt = t3\<rparr> None, None)"
    and "Fetch (Iface n impl) key ttl t4 t5 t6 r c' =
      (c', FetchReturn None zero_status (Some (mismatch_error key)), None)"
    by (simp_all add: Fetch_mismatch [where a = 0])
qed

text \<open>
  A value stored by \<open>Fetch\<close> for an interface type is rejected by the very next \<open>Fetch\<close> of
  the same type when it is the nil interface: \<open>e.val.(T)\<close> fails on nil, so the first call
  returns nil without an error and the second one reports \<open>ErrTypeMismatch\<close>.
\<close>

theorem nil_interface_rejected:
  assumes "Fetch (Iface n impl) key ttl t1 t2 t3 (FnValue NilAny) (new_cache (Suc cap)) = (c', out)"
  shows "out = (FetchReturn (Some NilAny) \<lparr>st_Failed = False, st_FetchedAt = t3\<rparr> None, None) \<and>
    Fetch (Iface n impl) key ttl t4 t5 t6 r c' =
      (c', FetchReturn None zero_status (Some (mismatch_error key)), None)"
  using nil_interface_rejected_facts [OF assms] by blast

theorem nil_interface_rejected_witness:
  "fst (snd (Fetch (Iface ''error'' [''*E'']) ''k'' 100 30 30 30 FnPanic
      (fst (Fetch (Iface ''error'' [''*E'']) ''k'' 100 10 10 20 (FnValue (NilAny :: int goany)) (new_cache (Suc 0)))))) =
   FetchReturn None zero_status (Some (mismatch_error ''k''))"
  by (simp add: nil_interface_rejected [THEN conjunct2, OF prod.collapse [symmetric]])

end
