(* ===== verification/CacheFlight.thy ===== *)
theory CacheFlight
  imports Cache
begin

text \<open>
  cache/cache.go: goroutines on one entry. A step of \<open>estep\<close> is one critical section (or one
  return of the caller's \<open>fn\<close>) of one goroutine: a \<open>Fetch\<close> (\<open>F\<close> steps), a background
  \<open>revalidate\<close> (\<open>R\<close> steps) or an \<open>Invalidate\<close>. The clock, \<open>ttl\<close> and what \<open>fn\<close> does
  (a value of its type, an error, a panic) are free in every step. \<open>es_born\<close> is a ghost: the
  generation that was current when the fetch of the published value started.
\<close>

section \<open>Goroutines and their steps\<close>

datatype 'v pc =
    Idle
  | FLoad gotype                      \<comment> \<open>Fetch: has its entry\<close>
  | FGate gotype                      \<comment> \<open>cold: queues for e.fetch\<close>
  | FRecheck gotype                   \<comment> \<open>holds e.fetch\<close>
  | FCapture gotype                   \<comment> \<open>still cold: about to read gen\<close>
  | FCall gotype nat                  \<comment> \<open>fn running, gen captured\<close>
  | FPublish gotype nat "'v goany"    \<comment> \<open>fn returned a value\<close>
  | FReturn "'v goany option" status "gerr option"
  | FPanicked
  | RCapture gotype                   \<comment> \<open>revalidate: spawned\<close>
  | RCall gotype nat
  | RFinish nat "'v goany option"
  | RDone

fun holds_fetch :: "'v pc \<Rightarrow> bool" where
  "holds_fetch (FRecheck T) = True"
| "holds_fetch (FCapture T) = True"
| "holds_fetch (FCall T g) = True"
| "holds_fetch (FPublish T g v) = True"
| "holds_fetch _ = False"

fun revalidating :: "'v pc \<Rightarrow> bool" where
  "revalidating (RCapture T) = True"
| "revalidating (RCall T g) = True"
| "revalidating (RFinish g r) = True"
| "revalidating _ = False"

text \<open>Goroutines that are running \<open>fn\<close> right now.\<close>

fun calling :: "'v pc \<Rightarrow> bool" where
  "calling (FCall T g) = True"
| "calling (RCall T g) = True"
| "calling _ = False"

record 'v esys =
  es_entry :: "'v entry"
  es_fetch :: "nat option"  \<comment> \<open>the holder of e.fetch\<close>
  es_pc :: "nat \<Rightarrow> 'v pc"
  es_born :: nat

definition esys_init :: "'v esys" where
  "esys_init = \<lparr>es_entry = new_entry, es_fetch = None, es_pc = (\<lambda>_. Idle), es_born = 0\<rparr>"

inductive estep :: "string \<Rightarrow> 'v esys \<Rightarrow> 'v esys \<Rightarrow> bool" for key where
  f_call: "es_pc s p = Idle \<Longrightarrow> estep key s (s\<lparr>es_pc := (es_pc s)(p := FLoad T)\<rparr>)"
| f_load_cold: "es_pc s p = FLoad T \<Longrightarrow> load T now key (es_entry s) = (e, LoadCold) \<Longrightarrow>
    estep key s (s\<lparr>es_entry := e, es_pc := (es_pc s)(p := FGate T)\<rparr>)"
| f_load_mismatch: "es_pc s p = FLoad T \<Longrightarrow> load T now key (es_entry s) = (e, LoadMismatch err) \<Longrightarrow>
    estep key s (s\<lparr>es_entry := e, es_pc := (es_pc s)(p := FReturn None zero_status (Some err))\<rparr>)"
| f_load_hit: "es_pc s p = FLoad T \<Longrightarrow> load T now key (es_entry s) = (e, LoadHit v st False) \<Longrightarrow>
    estep key s (s\<lparr>es_entry := e, es_pc := (es_pc s)(p := FReturn (Some v) st None)\<rparr>)"
| f_load_spawn: "es_pc s p = FLoad T \<Longrightarrow> load T now key (es_entry s) = (e, LoadHit v st True) \<Longrightarrow>
    p \<noteq> q \<Longrightarrow> es_pc s q = Idle \<Longrightarrow>
    estep key s (s\<lparr>es_entry := e,
      es_pc := (es_pc s)(p := FReturn (Some v) st None, q := RCapture T)\<rparr>)"
| f_gate: "es_pc s p = FGate T \<Longrightarrow> es_fetch s = None \<Longrightarrow>
    estep key s (s\<lparr>es_fetch := Some p, es_pc := (es_pc s)(p := FRecheck T)\<rparr>)"
| f_recheck_mismatch: "es_pc s p = FRecheck T \<Longrightarrow>
    load T now key (es_entry s) = (e, LoadMismatch err) \<Longrightarrow>
    estep key s (s\<lparr>es_entry := e, es_fetch := None,
      es_pc := (es_pc s)(p := FReturn None zero_status (Some err))\<rparr>)"
| f_recheck_hit: "es_pc s p = FRecheck T \<Longrightarrow>
    load T now key (es_entry s) = (e, LoadHit v st spawn) \<Longrightarrow>
    estep key s (s\<lparr>es_entry := e, es_fetch := None,
      es_pc := (es_pc s)(p := FReturn (Some v) st None)\<rparr>)"
    \<comment> \<open>the code drops \<open>spawn\<close> here\<close>
| f_recheck_cold: "es_pc s p = FRecheck T \<Longrightarrow> load T now key (es_entry s) = (e, LoadCold) \<Longrightarrow>
    estep key s (s\<lparr>es_entry := e, es_pc := (es_pc s)(p := FCapture T)\<rparr>)"
| f_capture: "es_pc s p = FCapture T \<Longrightarrow>
    estep key s (s\<lparr>es_pc := (es_pc s)(p := FCall T (e_gen (es_entry s)))\<rparr>)"
| f_fn_ok: "es_pc s p = FCall T g \<Longrightarrow> has_type T v \<Longrightarrow>
    estep key s (s\<lparr>es_pc := (es_pc s)(p := FPublish T g v)\<rparr>)"
| f_fn_err: "es_pc s p = FCall T g \<Longrightarrow> has_type T v \<Longrightarrow>
    estep key s (s\<lparr>es_fetch := None,
      es_pc := (es_pc s)(p := FReturn (Some v) zero_status (Some err))\<rparr>)"
| f_fn_panic: "es_pc s p = FCall T g \<Longrightarrow>
    estep key s (s\<lparr>es_fetch := None, es_pc := (es_pc s)(p := FPanicked)\<rparr>)"
| f_publish: "es_pc s p = FPublish T g v \<Longrightarrow>
    estep key s (s\<lparr>es_entry := publish g v ttl now (es_entry s), es_fetch := None,
      es_pc := (es_pc s)(p := FReturn (Some v) \<lparr>st_Failed = False, st_FetchedAt = now\<rparr> None),
      es_born := (if e_gen (es_entry s) = g then g else es_born s)\<rparr>)"
| r_capture: "es_pc s p = RCapture T \<Longrightarrow>
    estep key s (s\<lparr>es_pc := (es_pc s)(p := RCall T (e_gen (es_entry s)))\<rparr>)"
| r_fn_ok: "es_pc s p = RCall T g \<Longrightarrow> has_type T v \<Longrightarrow>
    estep key s (s\<lparr>es_pc := (es_pc s)(p := RFinish g (Some v))\<rparr>)"
| r_fn_fail: "es_pc s p = RCall T g \<Longrightarrow>
    estep key s (s\<lparr>es_pc := (es_pc s)(p := RFinish g None)\<rparr>)"
    \<comment> \<open>an error, or a panic that safe.Recover contains\<close>
| r_finish: "es_pc s p = RFinish g r \<Longrightarrow>
    estep key s (s\<lparr>es_entry := revalidate_finish g r ttl now (es_entry s),
      es_pc := (es_pc s)(p := RDone),
      es_born := (if e_gen (es_entry s) = g \<and> r \<noteq> None then g else es_born s)\<rparr>)"
| invalidate: "estep key s (s\<lparr>es_entry := invalidate_entry (es_entry s)\<rparr>)"

inductive ereach :: "string \<Rightarrow> 'v esys \<Rightarrow> bool" for key where
  start: "ereach key esys_init"
| step: "ereach key s \<Longrightarrow> estep key s t \<Longrightarrow> ereach key t"

section \<open>The invariant\<close>

definition owner_ok :: "nat option \<Rightarrow> (nat \<Rightarrow> 'v pc) \<Rightarrow> bool" where
  "owner_ok f pcs \<longleftrightarrow> (\<forall>p. holds_fetch (pcs p) \<longleftrightarrow> f = Some p)"

definition reval_ok :: "bool \<Rightarrow> (nat \<Rightarrow> 'v pc) \<Rightarrow> bool" where
  "reval_ok r pcs \<longleftrightarrow>
     (\<forall>p. revalidating (pcs p) \<longrightarrow> r) \<and>
     (\<forall>p q. revalidating (pcs p) \<and> revalidating (pcs q) \<longrightarrow> p = q)"

definition born_current :: "'v esys \<Rightarrow> bool" where
  "born_current s \<longleftrightarrow> (e_loaded (es_entry s) \<longrightarrow> es_born s = e_gen (es_entry s))"

text \<open>A step changes the program counter of one goroutine; three ways for each condition.\<close>

lemma owner_keep: "owner_ok f pcs \<Longrightarrow> holds_fetch x = holds_fetch (pcs p) \<Longrightarrow> owner_ok f (pcs(p := x))"
  by (simp add: owner_ok_def)

lemma owner_acquire: "owner_ok None pcs \<Longrightarrow> holds_fetch x \<Longrightarrow> owner_ok (Some p) (pcs(p := x))"
  by (auto simp: owner_ok_def)

lemma owner_release:
  "owner_ok f pcs \<Longrightarrow> holds_fetch (pcs p) \<Longrightarrow> \<not> holds_fetch x \<Longrightarrow> owner_ok None (pcs(p := x))"
  by (auto simp: owner_ok_def)

lemma reval_keep:
  "reval_ok r pcs \<Longrightarrow> revalidating x = revalidating (pcs p) \<Longrightarrow> (r \<Longrightarrow> r') \<Longrightarrow> reval_ok r' (pcs(p := x))"
  by (auto simp: reval_ok_def)

lemma reval_claim: "reval_ok False pcs \<Longrightarrow> reval_ok True (pcs(p := x))"
  by (auto simp: reval_ok_def)

lemma reval_finish:
  "reval_ok r pcs \<Longrightarrow> revalidating (pcs p) \<Longrightarrow> \<not> revalidating x \<Longrightarrow> reval_ok r' (pcs(p := x))"
  by (auto simp: reval_ok_def)

lemma owner_step:
  "estep key s t \<Longrightarrow> owner_ok (es_fetch s) (es_pc s) \<Longrightarrow> owner_ok (es_fetch t) (es_pc t)"
proof (induction rule: estep.induct)
  case (f_load_spawn s p T now e v st q)
  then have "owner_ok (es_fetch s) ((es_pc s)(p := FReturn (Some v) st None, q := RCapture T))"
    by (intro owner_keep) simp_all
  then show ?case by (simp del: fun_upd_apply)
qed (simp_all add: owner_keep owner_acquire owner_release)

lemma born_step: "estep key s t \<Longrightarrow> born_current s \<Longrightarrow> born_current t"
proof (induction rule: estep.induct)
  case (f_publish s p T g v ttl now)
  then show ?case by (simp add: born_current_def publish_def)
next
  case (r_finish s p g r ttl now)
  then show ?case by (cases r) (simp_all add: born_current_def revalidate_finish_def Let_def)
qed (simp_all add: born_current_def load_frame)

lemma reval_step:
  "estep key s t \<Longrightarrow> reval_ok (e_refreshing (es_entry s)) (es_pc s) \<Longrightarrow>
   reval_ok (e_refreshing (es_entry t)) (es_pc t)"
proof (induction rule: estep.induct)
  case (f_load_spawn s p T now e v st q)
  have c: "\<not> e_refreshing (es_entry s)" "e_refreshing e"
    using load_spawn [OF f_load_spawn(2)] by simp_all
  have "reval_ok False ((es_pc s)(p := FReturn (Some v) st None))"
    using f_load_spawn c by (intro reval_keep [where r = False]) simp_all
  from reval_claim [OF this, of q "RCapture T"] c show ?case by (simp del: fun_upd_apply)
qed (simp_all add: reval_keep load_refreshing_mono reval_finish)

lemma ereach_inv:
  "ereach key s \<Longrightarrow> owner_ok (es_fetch s) (es_pc s) \<and>
     reval_ok (e_refreshing (es_entry s)) (es_pc s) \<and> born_current s"
proof (induction rule: ereach.induct)
  case start
  show ?case
    by (simp add: owner_ok_def reval_ok_def born_current_def esys_init_def new_entry_def)
next
  case (step s t)
  then show ?case by (blast intro: owner_step reval_step born_step)
qed

section \<open>The dropped claim\<close>

text \<open>
  The second \<open>load\<close> of \<open>Fetch\<close>, under e.fetch, may find the value published by the caller it
  queued behind already stale. That \<open>load\<close> then claims the refresh and \<open>Fetch\<close> drops the claim
  (\<open>f_recheck_hit\<close>): \<open>refreshing\<close> is set with no goroutine to reset it. \<open>orphaned\<close> describes
  such states; no step leaves them.
\<close>

definition orphaned :: "'v esys \<Rightarrow> bool" where
  "orphaned s \<longleftrightarrow> e_refreshing (es_entry s) \<and> (\<forall>p. \<not> revalidating (es_pc s p))"

lemma orphaned_step: "estep key s t \<Longrightarrow> orphaned s \<Longrightarrow> orphaned t"
proof (induction rule: estep.induct)
  case (f_load_spawn s p T now e v st q)
  then show ?case using load_spawn [OF f_load_spawn(2)] by (simp add: orphaned_def)
next
  case (r_finish s p g r ttl now)
  then show ?case by (simp add: orphaned_def) (metis revalidating.simps(3))
next
  case (r_capture s p T)
  then show ?case by (simp add: orphaned_def) (metis revalidating.simps(1))
next
  case (r_fn_ok s p T g v)
  then show ?case by (simp add: orphaned_def) (metis revalidating.simps(2))
next
  case (r_fn_fail s p T g)
  then show ?case by (simp add: orphaned_def) (metis revalidating.simps(2))
qed (simp_all add: orphaned_def load_refreshing_mono)

lemma orphaned_steps: "(estep key)\<^sup>*\<^sup>* s t \<Longrightarrow> orphaned s \<Longrightarrow> orphaned t"
  by (induction rule: rtranclp_induct) (auto intro: orphaned_step)

section \<open>Properties\<close>

lemma single_flight_facts:
  assumes "ereach key s"
  shows "holds_fetch (es_pc s p) \<Longrightarrow> holds_fetch (es_pc s q) \<Longrightarrow> p = q"
    and "revalidating (es_pc s p) \<Longrightarrow> revalidating (es_pc s q) \<Longrightarrow> p = q"
    and "revalidating (es_pc s p) \<Longrightarrow> e_refreshing (es_entry s)"
    and "finite {p. calling (es_pc s p)} \<and> card {p. calling (es_pc s p)} \<le> 2"
proof -
  from ereach_inv [OF assms] have
    own: "owner_ok (es_fetch s) (es_pc s)" and rev: "reval_ok (e_refreshing (es_entry s)) (es_pc s)"
    by simp_all
  show h: "p = q" if "holds_fetch (es_pc s p)" "holds_fetch (es_pc s q)" for p q
    using own that by (simp add: owner_ok_def)
  show r: "p = q" if "revalidating (es_pc s p)" "revalidating (es_pc s q)" for p q
    using rev that by (simp add: reval_ok_def)
  show "e_refreshing (es_entry s)" if "revalidating (es_pc s p)"
    using rev that by (auto simp: reval_ok_def)
  have "\<exists>a. {p. holds_fetch (es_pc s p)} \<subseteq> {a}" "\<exists>b. {p. revalidating (es_pc s p)} \<subseteq> {b}"
    using h r by blast+
  then obtain a b where "{p. holds_fetch (es_pc s p)} \<subseteq> {a}" "{p. revalidating (es_pc s p)} \<subseteq> {b}"
    by blast
  moreover have "calling x \<Longrightarrow> holds_fetch x \<or> revalidating x" for x :: "'a pc"
    by (cases x) simp_all
  ultimately have sub: "{p. calling (es_pc s p)} \<subseteq> {a, b}" by blast
  then have "card {p. calling (es_pc s p)} \<le> card {a, b}" by (rule card_mono [rotated]) simp
  also have "card {a, b} \<le> 2" by (simp add: card_insert_if)
  finally show "finite {p. calling (es_pc s p)} \<and> card {p. calling (es_pc s p)} \<le> 2"
    using finite_subset [OF sub] by simp
qed

text \<open>A run used by the witnesses: two callers on a cold key, ttl 0, the second queued.\<close>

definition T_int :: gotype where "T_int = Concrete ''int''"

lemmas run_defs = T_int_def esys_init_def new_entry_def load_def publish_def

lemma reach_queued:
  "\<exists>s :: int esys. ereach key s \<and> es_pc s 0 = FCall T_int 0 \<and> es_pc s 1 = FGate T_int \<and>
     (\<forall>p>1. es_pc s p = Idle) \<and> es_fetch s = Some 0 \<and> es_entry s = new_entry"
proof -
  note st = ereach.step
  have 1: "ereach key (esys_init :: int esys)" by (rule ereach.start)
  note 2 = st [OF 1 f_call [where p = 0 and T = T_int]]
  note 3 = st [OF 2 f_call [where p = 1 and T = T_int]]
  note 4 = st [OF 3 f_load_cold [where p = 0 and T = T_int and e = new_entry and now = 5]]
  note 5 = st [OF 4 f_load_cold [where p = 1 and T = T_int and e = new_entry and now = 5]]
  note 6 = st [OF 5 f_gate [where p = 0 and T = T_int]]
  note 7 = st [OF 6 f_recheck_cold [where p = 0 and T = T_int and e = new_entry and now = 5]]
  note 8 = st [OF 7 f_capture [where p = 0 and T = T_int]]
  show ?thesis
    by (rule exI, rule conjI, rule 8) (simp_all add: esys_init_def new_entry_def)
qed

text \<open>
  No stale publish. Whenever an entry is loaded, the fetch that produced its value started in
  the current generation, that is after the last \<open>Invalidate\<close>: a value read before a mutation is
  never reinstated, however the goroutines interleave.
\<close>

theorem no_stale_publish:
  assumes "ereach key s" and "e_loaded (es_entry s)"
  shows "es_born s = e_gen (es_entry s)"
  using ereach_inv [OF assms(1)] assms(2) by (simp add: born_current_def)

lemma reach_stale_claim:
  "\<exists>s :: int esys. ereach key s \<and> es_born s = 0 \<and> e_loaded (es_entry s) \<and>
     e_val (es_entry s) = Dyn ''int'' 7 \<and> e_gen (es_entry s) = 0 \<and> e_refreshing (es_entry s) \<and>
     (\<forall>p. es_pc s p \<in> {Idle, FReturn (Some (Dyn ''int'' 7)) \<lparr>st_Failed = False, st_FetchedAt = 10\<rparr> None})"
proof -
  obtain s :: "int esys" where s: "ereach key s" "es_pc s 0 = FCall T_int 0" "es_pc s 1 = FGate T_int"
    "\<forall>p>1. es_pc s p = Idle" "es_fetch s = Some 0" "es_entry s = new_entry"
    using reach_queued by blast
  define v where "v = Dyn ''int'' (7::int)"
  define e where "e = publish 0 v 0 10 new_entry"
  have e: "load T_int 10 key e = (e\<lparr>e_refreshing := True\<rparr>,
      LoadHit v \<lparr>st_Failed = False, st_FetchedAt = 10\<rparr> True)"
    by (simp add: e_def v_def run_defs)
  note st = ereach.step
  note 1 = st [OF s(1) f_fn_ok [where p = 0 and T = T_int and g = 0 and v = v]]
  note 2 = st [OF 1 f_publish [where p = 0 and T = T_int and g = 0 and v = v and ttl = 0 and now = 10]]
  note 3 = st [OF 2 f_gate [where p = 1 and T = T_int]]
  note 4 = st [OF 3 f_recheck_hit [where p = 1 and T = T_int and now = 10 and v = v
        and e = "e\<lparr>e_refreshing := True\<rparr>" and st = "\<lparr>st_Failed = False, st_FetchedAt = 10\<rparr>"
        and spawn = True]]
  have gen: "e_gen new_entry = 0" by (simp add: new_entry_def)
  show ?thesis
  proof (rule exI, intro conjI, rule 4)
    show "has_type T_int v" by (simp add: T_int_def v_def)
  qed (use s e in \<open>auto simp: e_def [symmetric] gen v_def [symmetric] not_less le_Suc_eq,
      auto simp: e_def publish_def gen v_def\<close>)
qed

theorem no_stale_publish_witness:
  "\<exists>s :: int esys. ereach ''k'' s \<and> e_loaded (es_entry s) \<and> es_born s = e_gen (es_entry s)"
proof -
  obtain s :: "int esys" where "ereach ''k'' s" "e_loaded (es_entry s)"
    using reach_stale_claim by blast
  with no_stale_publish [OF this] show ?thesis by blast
qed

subsection \<open>The refresh that never comes back\<close>

fun past_check :: "nat \<Rightarrow> 'v pc \<Rightarrow> bool" where
  "past_check g (FCapture T) = True"
| "past_check g (FCall T g') = (g' = g)"
| "past_check g (FPublish T g' w) = (g' = g)"
| "past_check g _ = False"

definition none_past :: "nat \<Rightarrow> (nat \<Rightarrow> 'v pc) \<Rightarrow> bool" where
  "none_past g pcs \<longleftrightarrow> (\<forall>p. \<not> past_check g (pcs p))"

lemma none_past_upd: "none_past g pcs \<Longrightarrow> \<not> past_check g x \<Longrightarrow> none_past g (pcs(p := x))"
  by (simp add: none_past_def)

lemma none_pastD: "none_past g pcs \<Longrightarrow> pcs p = x \<Longrightarrow> \<not> past_check g x"
  by (auto simp: none_past_def)

definition settled :: "'v goany \<Rightarrow> nat \<Rightarrow> 'v esys \<Rightarrow> bool" where
  "settled v g s \<longleftrightarrow> e_loaded (es_entry s) \<and> e_val (es_entry s) = v \<and> none_past g (es_pc s)"

definition frozen :: "'v goany \<Rightarrow> nat \<Rightarrow> 'v esys \<Rightarrow> bool" where
  "frozen v g s \<longleftrightarrow> orphaned s \<and> g \<le> e_gen (es_entry s) \<and>
     (e_gen (es_entry s) = g \<longrightarrow> settled v g s)"

lemma estep_gen_mono: "estep key s t \<Longrightarrow> e_gen (es_entry s) \<le> e_gen (es_entry t)"
  by (induction rule: estep.induct) (simp_all add: load_frame)

lemma orphanedD: "orphaned s \<Longrightarrow> es_pc s p = x \<Longrightarrow> \<not> revalidating x"
  by (auto simp: orphaned_def)

lemma settled_step:
  "estep key s t \<Longrightarrow> orphaned s \<Longrightarrow> settled v g s \<Longrightarrow> e_gen (es_entry s) = g \<Longrightarrow>
   e_gen (es_entry t) = g \<Longrightarrow> settled v g t"
proof (induction rule: estep.induct)
  case (f_load_spawn s p T now e w st q)
  then have "none_past g ((es_pc s)(p := FReturn (Some w) st None, q := RCapture T))"
    by (intro none_past_upd) (simp_all add: settled_def)
  with f_load_spawn load_frame [OF f_load_spawn(2)] show ?case
    by (simp add: settled_def del: fun_upd_apply)
next
  case (f_recheck_cold s p T now e)
  from f_recheck_cold(2) have "\<not> e_loaded (es_entry s)" by (elim load_cases) simp_all
  with f_recheck_cold show ?case by (simp add: settled_def)
next
  case (f_publish s p T g' w ttl now)
  then have "g' \<noteq> g" using none_pastD [of g "es_pc s" p] by (auto simp: settled_def)
  with f_publish show ?case by (simp add: settled_def publish_def none_past_upd)
next
  case (f_fn_ok s p T g' w)
  then have "g' \<noteq> g" using none_pastD [of g "es_pc s" p] by (auto simp: settled_def)
  with f_fn_ok show ?case by (simp add: settled_def none_past_upd)
next
  case (f_capture s p T)
  then show ?case using none_pastD [of g "es_pc s" p] by (auto simp: settled_def)
next
  case (r_capture s p T)
  then show ?case using orphanedD [of s p] by auto
next
  case (r_finish s p g' r ttl now)
  then show ?case using orphanedD [of s p] by auto
qed (simp_all add: settled_def load_frame none_past_upd)

lemma frozen_step:
  assumes st: "estep key s t" and fz: "frozen v g s"
  shows "frozen v g t"
  using orphaned_step [OF st] estep_gen_mono [OF st] settled_step [OF st, of v g] fz
  by (auto simp: frozen_def)

lemma frozen_steps: "(estep key)\<^sup>*\<^sup>* s t \<Longrightarrow> frozen v g s \<Longrightarrow> frozen v g t"
  by (induction rule: rtranclp_induct) (auto intro: frozen_step)

text \<open>
  C4: the claim a queued caller makes and drops wedges the key. A state is reachable in which the
  entry is loaded, \<open>refreshing\<close> is set and no revalidation exists; from it, along every run, no
  revalidation ever starts again, and until somebody calls \<open>Invalidate\<close> the same value is served
  for good, however long it has been stale.
\<close>

theorem refresh_wedge:
  "\<exists>s :: int esys. ereach key s \<and> e_loaded (es_entry s) \<and> e_refreshing (es_entry s) \<and>
     (\<forall>t. (estep key)\<^sup>*\<^sup>* s t \<longrightarrow>
        (\<forall>p. \<not> revalidating (es_pc t p)) \<and>
        (e_gen (es_entry t) = e_gen (es_entry s) \<longrightarrow>
           e_loaded (es_entry t) \<and> e_val (es_entry t) = e_val (es_entry s)))"
proof -
  obtain s :: "int esys" where s: "ereach key s" "e_loaded (es_entry s)" "e_gen (es_entry s) = 0"
    "e_refreshing (es_entry s)"
    "\<forall>p. es_pc s p \<in> {Idle, FReturn (Some (Dyn ''int'' 7)) \<lparr>st_Failed = False, st_FetchedAt = 10\<rparr> None}"
    using reach_stale_claim by blast
  have pcs: "es_pc s p = Idle \<or>
      es_pc s p = FReturn (Some (Dyn ''int'' 7)) \<lparr>st_Failed = False, st_FetchedAt = 10\<rparr> None" for p
    using s(5) by simp
  have "frozen (e_val (es_entry s)) 0 s"
    unfolding frozen_def orphaned_def settled_def none_past_def
  proof (intro conjI allI impI)
    fix p
    show "\<not> revalidating (es_pc s p)" "\<not> past_check 0 (es_pc s p)"
      using pcs [of p] by auto
  qed (use s in simp_all)
  from frozen_steps [OF _ this] have "\<forall>t. (estep key)\<^sup>*\<^sup>* s t \<longrightarrow>
      (\<forall>p. \<not> revalidating (es_pc t p)) \<and>
      (e_gen (es_entry t) = e_gen (es_entry s) \<longrightarrow>
         e_loaded (es_entry t) \<and> e_val (es_entry t) = e_val (es_entry s))"
    unfolding frozen_def orphaned_def settled_def s(3) by metis
  with s show ?thesis by blast
qed

theorem refresh_wedge_witness:
  "\<exists>s :: int esys. ereach ''k'' s \<and> e_loaded (es_entry s) \<and> e_refreshing (es_entry s) \<and>
     (\<forall>p. \<not> revalidating (es_pc s p))"
  using refresh_wedge [of "''k''"] by blast

end
