(* ===== verification/CacheSystem.thy ===== *)
theory CacheSystem
  imports CacheFlight
begin

text \<open>
  cache/cache.go: the whole cache under concurrency. The table of Cache with its eviction and the
  goroutines of CacheFlight on every entry, evicted entries included: a goroutine keeps the entry it
  was given (\<open>ca_addr\<close>) when its key is evicted, and a later call on that key gets a new one.

  An action is one critical section, or one return of the caller's \<open>fn\<close>: \<open>Ask\<close> is the \<open>entryFor\<close> of
  a \<open>Fetch\<close>, \<open>Go\<close> the next step of a goroutine (of a \<open>Fetch\<close> or of a revalidation it started),
  \<open>InvAsk\<close> the \<open>entryFor\<close> of an \<open>Invalidate\<close> and \<open>InvApply\<close> its section under the entry's lock. The
  clock reading, what \<open>fn\<close> does and the number of the goroutine started are arguments of \<open>Go\<close>.

  Ghosts, read by the properties only: \<open>cs_clock\<close> counts the actions; a call has the action it was
  made at (\<open>ca_asked\<close>, for a revalidation that of the call that started it), the one after which its \<open>fn\<close> began (\<open>ca_started\<close>) and the beginning of the
  call of \<open>fn\<close> whose value it returned (\<open>ca_served\<close>); an entry has the beginning of the call its
  value is from (\<open>cs_from\<close>), that call's generation (\<open>cs_born\<close>), the key it was made for (\<open>cs_key\<close>) and
  the last action that changed its generation, its creation or an \<open>Invalidate\<close> (\<open>cs_since\<close>).
\<close>

section \<open>The steps of a goroutine\<close>

text \<open>What the next step does to e.fetch, the entry and the goroutine, and the type parameter of the
  revalidation it starts.\<close>

fun go ::
    "string \<Rightarrow> duration \<Rightarrow> instant \<Rightarrow> 'v fn_result \<Rightarrow> nat \<Rightarrow> nat option \<Rightarrow> 'v entry \<Rightarrow> 'v pc \<Rightarrow>
     (nat option \<times> 'v entry \<times> 'v pc \<times> gotype option) option" where
  "go key ttl now r p f e (FLoad T) =
     (case load T now key e of
        (e', LoadCold) \<Rightarrow> Some (f, e', FGate T, None)
      | (e', LoadMismatch err) \<Rightarrow> Some (f, e', FReturn None zero_status (Some err), None)
      | (e', LoadHit v st spawn) \<Rightarrow> Some (f, e', FReturn (Some v) st None, if spawn then Some T else None))"
| "go key ttl now r p f e (FGate T) = (if f = None then Some (Some p, e, FRecheck T, None) else None)"
| "go key ttl now r p f e (FRecheck T) =
     (case load T now key e of
        (e', LoadCold) \<Rightarrow> Some (f, e', FCapture T, None)
      | (e', LoadMismatch err) \<Rightarrow> Some (None, e', FReturn None zero_status (Some err), None)
      | (e', LoadHit v st spawn) \<Rightarrow> Some (None, e', FReturn (Some v) st None, None))"
| "go key ttl now r p f e (FCapture T) = Some (f, e, FCall T (e_gen e), None)"
| "go key ttl now r p f e (FCall T g) =
     (case r of
        FnValue v \<Rightarrow> if has_type T v then Some (f, e, FPublish T g v, None) else None
      | FnError v err \<Rightarrow>
          if has_type T v then Some (None, e, FReturn (Some v) zero_status (Some err), None) else None
      | FnPanic \<Rightarrow> Some (None, e, FPanicked, None))"
| "go key ttl now r p f e (FPublish T g v) =
     Some (None, publish g v ttl now e, FReturn (Some v) \<lparr>st_Failed = False, st_FetchedAt = now\<rparr> None, None)"
| "go key ttl now r p f e (RCapture T) = Some (f, e, RCall T (e_gen e), None)"
| "go key ttl now r p f e (RCall T g) =
     (case r of
        FnValue v \<Rightarrow> if has_type T v then Some (f, e, RFinish g (Some v), None) else None
      | FnError v err \<Rightarrow> Some (f, e, RFinish g None, None)
      | FnPanic \<Rightarrow> Some (f, e, RFinish g None, None))"
| "go key ttl now r p f e (RFinish g w) = Some (f, revalidate_finish g w ttl now e, RDone, None)"
| "go key ttl now r p f e x = None"

section \<open>The cache and its goroutines\<close>

record 'v call =
  ca_key :: string
  ca_ttl :: duration
  ca_addr :: nat
  ca_pc :: "'v pc"
  ca_asked :: nat
  ca_started :: nat
  ca_served :: nat

text \<open>An \<open>Invalidate\<close>: its key and when it began, with its entry or with when it returned.\<close>

datatype inval = InvAt string nat nat | InvDone string nat nat

record 'v csys =
  cs_table :: "'v cache"
  cs_fetch :: "nat \<Rightarrow> nat option"
  cs_calls :: "nat \<Rightarrow> 'v call option"
  cs_invs :: "nat \<Rightarrow> inval option"
  cs_clock :: nat
  cs_since :: "nat \<Rightarrow> nat"
  cs_from :: "nat \<Rightarrow> nat"
  cs_born :: "nat \<Rightarrow> nat"
  cs_key :: "nat \<Rightarrow> string"

definition csys_new :: "nat \<Rightarrow> 'v csys" where
  "csys_new cap = \<lparr>cs_table = new_cache cap, cs_fetch = \<lambda>_. None, cs_calls = \<lambda>_. None, cs_invs = \<lambda>_. None,
     cs_clock = 0, cs_since = \<lambda>_. 0, cs_from = \<lambda>_. 0, cs_born = \<lambda>_. 0,
     cs_key = \<lambda>_. []\<rparr>"

text \<open>The lookup, with its note of when a new entry was made.\<close>

definition look_up :: "string \<Rightarrow> 'v csys \<Rightarrow> 'v csys \<times> nat" where
  "look_up key s =
     (let (c, a) = entryFor key (cs_table s); made = (c_entries (cs_table s) key = None) in
      (s\<lparr>cs_table := c, cs_clock := Suc (cs_clock s),
         cs_since := (if made then (cs_since s)(a := cs_clock s) else cs_since s),
         cs_key := (if made then (cs_key s)(a := key) else cs_key s)\<rparr>, a))"

fun captures :: "'v pc \<Rightarrow> bool" where
  "captures (FCapture T) = True"
| "captures (RCapture T) = True"
| "captures _ = False"

text \<open>The generation whose fetch's value the next step writes to an entry of generation \<open>n\<close>.\<close>

fun writes :: "nat \<Rightarrow> 'v pc \<Rightarrow> bool" where
  "writes n (FPublish T g v) = (g = n)"
| "writes n (RFinish g (Some v)) = (g = n)"
| "writes n _ = False"

fun reads_entry :: "'v pc \<Rightarrow> bool" where
  "reads_entry (FLoad T) = True"
| "reads_entry (FRecheck T) = True"
| "reads_entry _ = False"

datatype 'v cact =
    Ask nat string gotype duration
  | Go nat instant "'v fn_result" nat
  | InvAsk nat string
  | InvApply nat

definition new_call :: "string \<Rightarrow> duration \<Rightarrow> nat \<Rightarrow> 'v pc \<Rightarrow> nat \<Rightarrow> 'v call" where
  "new_call key ttl a x n = \<lparr>ca_key = key, ca_ttl = ttl, ca_addr = a, ca_pc = x, ca_asked = n, ca_started = 0, ca_served = 0\<rparr>"

definition do_ask :: "nat \<Rightarrow> string \<Rightarrow> gotype \<Rightarrow> duration \<Rightarrow> 'v csys \<Rightarrow> 'v csys option" where
  "do_ask p key T ttl s =
     (if cs_calls s p \<noteq> None then None
      else let (s1, a) = look_up key s in
        Some (s1\<lparr>cs_calls := (cs_calls s1)(p \<mapsto> new_call key ttl a (FLoad T) (cs_clock s))\<rparr>))"

definition moved :: "'v csys \<Rightarrow> 'v call \<Rightarrow> 'v pc \<Rightarrow> 'v call" where
  "moved s c x' = c\<lparr>ca_pc := x', ca_started := (if captures (ca_pc c) then cs_clock s else ca_started c),
     ca_served := (if reads_entry (ca_pc c) then cs_from s (ca_addr c) else ca_started c)\<rparr>"

definition spawned :: "'v call \<Rightarrow> gotype \<Rightarrow> 'v call" where
  "spawned c T = new_call (ca_key c) (ca_ttl c) (ca_addr c) (RCapture T) (ca_asked c)"

definition step_to ::
    "nat \<Rightarrow> nat \<Rightarrow> 'v call \<Rightarrow> nat option \<times> 'v entry \<times> 'v pc \<times> gotype option \<Rightarrow> 'v csys \<Rightarrow> 'v csys" where
  "step_to p q c = (\<lambda>(f, e', x', spawn) s.
     let a = ca_addr c; n = e_gen (c_heap (cs_table s) a); w = writes n (ca_pc c);
         calls = (cs_calls s)(p \<mapsto> moved s c x')
     in s\<lparr>cs_table := put_entry a e' (cs_table s), cs_fetch := (cs_fetch s)(a := f),
          cs_calls := (case spawn of None \<Rightarrow> calls | Some T \<Rightarrow> calls(q \<mapsto> spawned c T)),
          cs_clock := Suc (cs_clock s),
          cs_from := (if w then (cs_from s)(a := ca_started c) else cs_from s),
          cs_born := (if w then (cs_born s)(a := n) else cs_born s)\<rparr>)"

definition next_step :: "nat \<Rightarrow> instant \<Rightarrow> 'v fn_result \<Rightarrow> 'v csys \<Rightarrow> 'v call \<Rightarrow>
    (nat option \<times> 'v entry \<times> 'v pc \<times> gotype option) option" where
  "next_step p now r s c =
     (let a = ca_addr c in go (ca_key c) (ca_ttl c) now r p (cs_fetch s a) (c_heap (cs_table s) a) (ca_pc c))"

definition do_go :: "nat \<Rightarrow> instant \<Rightarrow> 'v fn_result \<Rightarrow> nat \<Rightarrow> 'v csys \<Rightarrow> 'v csys option" where
  "do_go p now r q s =
     (case cs_calls s p of
        None \<Rightarrow> None
      | Some c \<Rightarrow>
          (case next_step p now r s c of
             None \<Rightarrow> None
           | Some (f, e', x', spawn) \<Rightarrow>
               if spawn \<noteq> None \<and> cs_calls s q \<noteq> None then None
               else Some (step_to p q c (f, e', x', spawn) s)))"

definition inv_ask :: "nat \<Rightarrow> string \<Rightarrow> 'v csys \<Rightarrow> 'v csys option" where
  "inv_ask q key s =
     (if cs_invs s q \<noteq> None then None
      else let (s1, a) = look_up key s in Some (s1\<lparr>cs_invs := (cs_invs s1)(q \<mapsto> InvAt key (cs_clock s) a)\<rparr>))"

definition inv_apply :: "nat \<Rightarrow> 'v csys \<Rightarrow> 'v csys option" where
  "inv_apply q s =
     (case cs_invs s q of
        Some (InvAt key t a) \<Rightarrow>
          Some (s\<lparr>cs_table := put_entry a (invalidate_entry (c_heap (cs_table s) a)) (cs_table s),
                  cs_invs := (cs_invs s)(q \<mapsto> InvDone key t (cs_clock s)), cs_clock := Suc (cs_clock s),
                  cs_since := (cs_since s)(a := cs_clock s)\<rparr>)
      | _ \<Rightarrow> None)"

fun cache_act :: "'v cact \<Rightarrow> 'v csys \<Rightarrow> 'v csys option" where
  "cache_act (Ask p key T ttl) s = do_ask p key T ttl s"
| "cache_act (Go p now r q) s = do_go p now r q s"
| "cache_act (InvAsk q key) s = inv_ask q key s"
| "cache_act (InvApply q) s = inv_apply q s"

inductive creach :: "nat \<Rightarrow> 'v csys \<Rightarrow> bool" for cap where
  cache_start: "creach cap (csys_new cap)"
| cache_next: "creach cap s \<Longrightarrow> cache_act a s = Some s' \<Longrightarrow> creach cap s'"

section \<open>What a step and a lookup change\<close>

fun captured :: "'v pc \<Rightarrow> nat option" where
  "captured (FCall T g) = Some g"
| "captured (FPublish T g v) = Some g"
| "captured (RCall T g) = Some g"
| "captured (RFinish g w) = Some g"
| "captured _ = None"

fun returned :: "'v pc \<Rightarrow> bool" where
  "returned (FReturn v st err) = True"
| "returned _ = False"

lemma writes_captured: "writes n x \<Longrightarrow> captured x = Some n"
  by (induction n x rule: writes.induct) simp_all

lemma load_loaded: "load T now key e = (e', res) \<Longrightarrow> res \<noteq> LoadCold \<Longrightarrow> e_loaded e"
  by (elim load_cases) simp_all

lemma go_facts:
  assumes "go key ttl now r p f e x = Some (f', e', x', sp)"
  shows "e_gen e' = e_gen e"
    and "captured x' = Some g \<Longrightarrow> captured x = Some g \<or> captures x \<and> g = e_gen e"
    and "e_loaded e' \<Longrightarrow> e_loaded e \<or> writes (e_gen e) x"
    and "returned x' \<Longrightarrow> reads_entry x \<and> e_loaded e \<or> \<not> reads_entry x \<and> captured x \<noteq> None"
proof -
  note splits = load_result.splits fn_result.splits if_splits option.splits prod.splits
  show "e_gen e' = e_gen e"
    using assms by (cases x) (auto split: splits dest: load_frame)
  show "captured x = Some g \<or> captures x \<and> g = e_gen e" if "captured x' = Some g"
    using assms that by (cases x) (auto split: splits)
  show "e_loaded e \<or> writes (e_gen e) x" if "e_loaded e'"
    using assms that
    by (cases x) (auto split: splits dest: load_frame simp: publish_def revalidate_finish_def Let_def)
  show "reads_entry x \<and> e_loaded e \<or> \<not> reads_entry x \<and> captured x \<noteq> None" if "returned x'"
    using assms that by (cases x) (auto split: splits dest: load_loaded)
qed

lemma look_up_cases [consumes 2, case_names found made]:
  assumes "look_up key s = (s', a)" and "cache_ok (cs_table s)"
  obtains "c_entries (cs_table s) key = Some a" "s' = s\<lparr>cs_clock := Suc (cs_clock s)\<rparr>"
  | es os where "c_entries (cs_table s) key = None" "a = c_next (cs_table s)"
      "s' = s\<lparr>cs_table := (cs_table s)\<lparr>c_entries := es, c_order := os,
          c_heap := (c_heap (cs_table s))(a := new_entry), c_next := Suc a\<rparr>, cs_clock := Suc (cs_clock s),
        cs_since := (cs_since s)(a := cs_clock s), cs_key := (cs_key s)(a := key)\<rparr>"
      "\<And>k b. es k = Some b \<Longrightarrow> k = key \<and> b = a \<or> k \<noteq> key \<and> c_entries (cs_table s) k = Some b"
proof (cases "c_entries (cs_table s) key")
  case (Some b)
  with assms(1) that(1) show ?thesis by (simp add: look_up_def)
next
  case None
  note m = entryFor_miss [OF assms(2) None]
  show ?thesis
  proof (rule that(2) [OF None])
    show "a = c_next (cs_table s)" using assms(1) by (simp add: look_up_def m Let_def)
    show "s' = s\<lparr>cs_table := (cs_table s)\<lparr>c_entries := c_entries (cs_table s'), c_order := c_order (cs_table s'),
          c_heap := (c_heap (cs_table s))(a := new_entry), c_next := Suc a\<rparr>, cs_clock := Suc (cs_clock s),
        cs_since := (cs_since s)(a := cs_clock s), cs_key := (cs_key s)(a := key)\<rparr>"
      using assms(1) None by (auto simp: look_up_def m Let_def)
    show "k = key \<and> b = a \<or> k \<noteq> key \<and> c_entries (cs_table s) k = Some b" if "c_entries (cs_table s') k = Some b" for k b
      using assms(1) that by (auto simp: look_up_def m Let_def restrict_map_def split: if_splits)
  qed
qed

lemma look_up_table:
  assumes "look_up key s = (s', a)" and "cache_ok (cs_table s)"
  shows "cache_ok (cs_table s')" "c_maxEntries (cs_table s') = c_maxEntries (cs_table s)" "a < c_next (cs_table s')"
    "c_next (cs_table s) \<le> c_next (cs_table s')" "cs_calls s' = cs_calls s" "cs_invs s' = cs_invs s" "cs_clock s' = Suc (cs_clock s)"
proof -
  obtain c where c: "entryFor key (cs_table s) = (c, a)" "cs_table s' = c"
    using assms(1) by (auto simp: look_up_def Let_def split: prod.splits)
  from entryFor_ok [OF assms(2) c(1)] c(2)
  show "cache_ok (cs_table s')" "c_maxEntries (cs_table s') = c_maxEntries (cs_table s)" "a < c_next (cs_table s')" by simp_all
  from assms show "c_next (cs_table s) \<le> c_next (cs_table s')"
    by (cases rule: look_up_cases) simp_all
  from assms(1) show "cs_calls s' = cs_calls s" "cs_invs s' = cs_invs s" "cs_clock s' = Suc (cs_clock s)"
    by (auto simp: look_up_def Let_def split: prod.splits)
qed

section \<open>The invariant\<close>

text \<open>A call fetches for the current generation only if its \<open>fn\<close> began after that generation did.\<close>

definition call_ok :: "'v csys \<Rightarrow> 'v call \<Rightarrow> bool" where
  "call_ok s c \<longleftrightarrow> ca_addr c < c_next (cs_table s) \<and> ca_asked c < cs_clock s \<and> cs_key s (ca_addr c) = ca_key c \<and>
     (\<forall>g. captured (ca_pc c) = Some g \<longrightarrow> ca_asked c \<le> ca_started c \<and> g \<le> e_gen (c_heap (cs_table s) (ca_addr c)) \<and>
        (g = e_gen (c_heap (cs_table s) (ca_addr c)) \<longrightarrow> cs_since s (ca_addr c) \<le> ca_started c))"

definition entries_ok :: "'v csys \<Rightarrow> bool" where
  "entries_ok s \<longleftrightarrow> cache_ok (cs_table s) \<and>
     (\<forall>k b. c_entries (cs_table s) k = Some b \<longrightarrow> cs_key s b = k) \<and>
     (\<forall>a. cs_since s a \<le> cs_clock s) \<and> (\<forall>a. e_loaded (c_heap (cs_table s) a) \<longrightarrow> cs_since s a \<le> cs_from s a)"

definition since_after :: "'v csys \<Rightarrow> nat \<Rightarrow> nat \<Rightarrow> 'v call \<Rightarrow> bool" where
  "since_after s t t' c \<longleftrightarrow> (t' \<le> ca_asked c \<longrightarrow> t \<le> cs_since s (ca_addr c) \<and> (returned (ca_pc c) \<longrightarrow> t \<le> ca_served c))"

fun inv_ok :: "'v csys \<Rightarrow> inval \<Rightarrow> bool" where
  "inv_ok s (InvAt key t a) \<longleftrightarrow> t < cs_clock s \<and> a < c_next (cs_table s) \<and>
     (\<forall>b. c_entries (cs_table s) key = Some b \<longrightarrow> b = a \<or> t \<le> cs_since s b)"
| "inv_ok s (InvDone key t t') \<longleftrightarrow> t < t' \<and> t' < cs_clock s \<and>
     (\<forall>b. c_entries (cs_table s) key = Some b \<longrightarrow> t \<le> cs_since s b) \<and>
     (\<forall>p c. cs_calls s p = Some c \<longrightarrow> ca_key c = key \<longrightarrow> since_after s t t' c)"

definition csys_ok :: "'v csys \<Rightarrow> bool" where
  "csys_ok s \<longleftrightarrow> entries_ok s \<and> (\<forall>p c. cs_calls s p = Some c \<longrightarrow> call_ok s c) \<and>
     (\<forall>q i. cs_invs s q = Some i \<longrightarrow> inv_ok s i)"

lemma csys_okD:
  assumes "csys_ok s"
  shows "entries_ok s" "cs_calls s p = Some c \<Longrightarrow> call_ok s c" "cs_invs s q = Some i \<Longrightarrow> inv_ok s i"
  using assms by (simp_all add: csys_ok_def)

lemma entries_okD:
  assumes "entries_ok s"
  shows "cache_ok (cs_table s)" "c_entries (cs_table s) k = Some b \<Longrightarrow> cs_key s b = k"
    "cs_since s a \<le> cs_clock s" "e_loaded (c_heap (cs_table s) a) \<Longrightarrow> cs_since s a \<le> cs_from s a"
  using assms by (simp_all add: entries_ok_def)

lemma table_below: "cache_ok c \<Longrightarrow> c_entries c k = Some b \<Longrightarrow> b < c_next c"
  by (auto simp: cache_ok_def ran_def)

lemma csys_new_ok: "csys_ok (csys_new cap)"
  by (simp add: csys_ok_def entries_ok_def csys_new_def new_cache_ok) (simp add: new_cache_def new_entry_def)

text \<open>A lookup keeps everything, for the calls and invalidations there are.\<close>

lemma look_up_ok:
  assumes ok: "csys_ok s" and run: "look_up key s = (s', a)"
  shows "csys_ok s'" and "cs_key s' a = key"
    and "c_entries (cs_table s') key = Some b \<Longrightarrow> b = a"
proof -
  note e = entries_okD [OF csys_okD(1) [OF ok]]
  from run e(1) have "csys_ok s' \<and> cs_key s' a = key \<and> (\<forall>b. c_entries (cs_table s') key = Some b \<longrightarrow> b = a)"
  proof (cases rule: look_up_cases)
    case found
    have "call_ok s' c" if "cs_calls s p = Some c" for p c
      using csys_okD(2) [OF ok that] by (simp add: found(2) call_ok_def)
    moreover have "inv_ok s' i" if "cs_invs s q = Some i" for q i
      using csys_okD(3) [OF ok that] by (cases i) (auto simp: found(2) since_after_def)
    moreover have "entries_ok s'" using csys_okD(1) [OF ok] by (auto simp: found(2) entries_ok_def le_SucI)
    ultimately show ?thesis using found e(2) by (simp add: csys_ok_def)
  next
    case (made es os)
    have c': "cache_ok (cs_table s')" by (rule look_up_table(1) [OF run e(1)])
    have other: "b < c_next (cs_table s)" if "c_entries (cs_table s) k = Some b" for k b
      using table_below [OF e(1) that] .
    have calls: "call_ok s' c" "ca_addr c \<noteq> a" if "cs_calls s p = Some c" for p c
      using csys_okD(2) [OF ok that] made(2) by (simp_all add: made(3) call_ok_def)
    have es: "k = key \<and> b = a \<or> k \<noteq> key \<and> c_entries (cs_table s) k = Some b \<and> b \<noteq> a" if "es k = Some b" for k b
      using made(4) [OF that] other made(2) by auto
    have "inv_ok s' i" if "cs_invs s q = Some i" for q i
    proof (cases i)
      case (InvAt k t d)
      with csys_okD(3) [OF ok that] have i: "t < cs_clock s" "d < c_next (cs_table s)"
        "\<And>b. c_entries (cs_table s) k = Some b \<Longrightarrow> b = d \<or> t \<le> cs_since s b" by auto
      have "b = d \<or> t \<le> cs_since s' b" if "es k = Some b" for b
        using es [OF that] i(1,3) by (auto simp: made(3))
      with InvAt i show ?thesis using made(2) by (simp add: made(3))
    next
      case (InvDone k t t')
      with csys_okD(3) [OF ok that] have i: "t < t'" "t' < cs_clock s"
        "\<And>b. c_entries (cs_table s) k = Some b \<Longrightarrow> t \<le> cs_since s b"
        "\<And>p c. cs_calls s p = Some c \<Longrightarrow> ca_key c = k \<Longrightarrow> since_after s t t' c" by auto
      have "t \<le> cs_since s' b" if "es k = Some b" for b
        using es [OF that] i(1-3) by (auto simp: made(3))
      moreover have "since_after s' t t' c" if "cs_calls s p = Some c" "ca_key c = k" for p c
        using i(4) [OF that] calls(2) [OF that(1)] by (simp add: since_after_def made(3))
      ultimately show ?thesis using InvDone i(1,2) by (simp add: made(3))
    qed
    moreover have "entries_ok s'"
    proof -
      have "cs_key s' b = k" if "es k = Some b" for k b
        using es [OF that] e(2) [of k b] by (auto simp: made(3))
      with c' e(3,4) show ?thesis by (simp add: entries_ok_def made(3) le_SucI new_entry_def)
    qed
    moreover have "b = a" if "es key = Some b" for b using es [OF that] by simp
    ultimately show ?thesis using calls(1) by (simp add: csys_ok_def made(3))
  qed
  then show "csys_ok s'" "cs_key s' a = key" "c_entries (cs_table s') key = Some b \<Longrightarrow> b = a" by simp_all
qed

lemma do_ask_ok:
  assumes ok: "csys_ok s" and run: "do_ask p key T ttl s = Some s'"
  shows "csys_ok s'"
proof -
  obtain s1 a where l: "look_up key s = (s1, a)" by fastforce
  then have s': "s' = s1\<lparr>cs_calls := (cs_calls s1)(p \<mapsto> new_call key ttl a (FLoad T) (cs_clock s))\<rparr>"
    using run by (simp add: do_ask_def split: if_splits)
  note t = look_up_table [OF l entries_okD(1) [OF csys_okD(1) [OF ok]]]
  note ok1 = look_up_ok [OF ok l]
  have "inv_ok s' i" if "cs_invs s q = Some i" for q i
  proof (cases i)
    case (InvAt k u d)
    with csys_okD(3) [OF ok1(1), of q i] that have "inv_ok s1 (InvAt k u d)" by (simp add: t)
    with InvAt show ?thesis by (simp add: s')
  next
    case (InvDone k u u')
    with csys_okD(3) [OF ok1(1), of q i] that have i: "inv_ok s1 (InvDone k u u')" by (simp add: t)
    \<comment> \<open>the new call has the entry of its key, unless the cap is 0 and the entry is new\<close>
    have "u \<le> cs_since s1 a" if "key = k"
      using l entries_okD(1) [OF csys_okD(1) [OF ok]]
    proof (cases rule: look_up_cases)
      case found
      with i that show ?thesis by simp
    next
      case (made es os)
      with i show ?thesis using csys_okD(3) [OF ok \<open>cs_invs s q = Some i\<close>] InvDone by simp
    qed
    with i InvDone show ?thesis by (simp add: s' since_after_def new_call_def)
  qed
  moreover have "call_ok s' c" if "cs_calls s' q = Some c" for q c
    using that csys_okD(2) [OF ok1(1), of q c] t(3,5,7) ok1(2)
    by (auto simp: s' call_ok_def new_call_def split: if_splits)
  moreover have "entries_ok s'" using csys_okD(1) [OF ok1(1)] by (simp add: s' entries_ok_def)
  ultimately show ?thesis using t(6) by (simp add: csys_ok_def s')
qed

lemma inv_ask_ok:
  assumes ok: "csys_ok s" and run: "inv_ask q key s = Some s'"
  shows "csys_ok s'"
proof -
  obtain s1 a where l: "look_up key s = (s1, a)" by fastforce
  then have s': "s' = s1\<lparr>cs_invs := (cs_invs s1)(q \<mapsto> InvAt key (cs_clock s) a)\<rparr>"
    using run by (simp add: inv_ask_def split: if_splits)
  note t = look_up_table [OF l entries_okD(1) [OF csys_okD(1) [OF ok]]]
  note ok1 = look_up_ok [OF ok l]
  have "inv_ok s' i" if "inv_ok s1 i" for i
    using that by (cases i) (auto simp: s' since_after_def)
  moreover have "inv_ok s1 (InvAt key (cs_clock s) a)" using t(3,7) ok1(3) by auto
  moreover have "call_ok s' c" if "cs_calls s1 p = Some c" for p c
    using csys_okD(2) [OF ok1(1) that] by (simp add: s' call_ok_def)
  moreover have "entries_ok s'" using csys_okD(1) [OF ok1(1)] by (simp add: s' entries_ok_def)
  ultimately show ?thesis using csys_okD(3) [OF ok1(1)] by (simp add: csys_ok_def s')
qed

lemma inv_apply_ok:
  assumes ok: "csys_ok s" and run: "inv_apply q s = Some s'"
  shows "csys_ok s'"
proof -
  obtain key t a where q: "cs_invs s q = Some (InvAt key t a)"
    using run by (auto simp: inv_apply_def split: option.splits inval.splits)
  with run have s': "s' = s\<lparr>cs_table := put_entry a (invalidate_entry (c_heap (cs_table s) a)) (cs_table s),
      cs_invs := (cs_invs s)(q \<mapsto> InvDone key t (cs_clock s)), cs_clock := Suc (cs_clock s),
      cs_since := (cs_since s)(a := cs_clock s)\<rparr>"
    by (simp add: inv_apply_def)
  note e = entries_okD [OF csys_okD(1) [OF ok]]
  have later: "cs_since s b \<le> cs_since s' b" for b by (simp add: s' e(3))
  have calls: "call_ok s' c" if "cs_calls s p = Some c" for p c
    using csys_okD(2) [OF ok that] by (auto simp: call_ok_def s')
  have "inv_ok s' i" if "cs_invs s x = Some i" for x i
  proof (cases i)
    case (InvAt k u d)
    with csys_okD(3) [OF ok that] have i: "u < cs_clock s" "d < c_next (cs_table s)"
      "\<And>b. c_entries (cs_table s) k = Some b \<Longrightarrow> b = d \<or> u \<le> cs_since s b" by auto
    with InvAt order_trans [OF _ later] show ?thesis by (auto simp: s')
  next
    case (InvDone k u u')
    with csys_okD(3) [OF ok that] have i: "u < u'" "u' < cs_clock s"
      "\<And>b. c_entries (cs_table s) k = Some b \<Longrightarrow> u \<le> cs_since s b"
      "\<And>p c. cs_calls s p = Some c \<Longrightarrow> ca_key c = k \<Longrightarrow> since_after s u u' c" by auto
    with InvDone order_trans [OF _ later] show ?thesis by (auto simp: s' since_after_def)
  qed
  moreover have "inv_ok s' (InvDone key t (cs_clock s))"
  proof -
    have "\<not> cs_clock s \<le> ca_asked c" if "cs_calls s p = Some c" for p c
      using csys_okD(2) [OF ok that] by (simp add: call_ok_def)
    with csys_okD(3) [OF ok q] show ?thesis by (auto simp: s' since_after_def)
  qed
  moreover have "entries_ok s'"
    using e by (auto simp: entries_ok_def s' le_SucI)
  ultimately show ?thesis using calls by (simp add: csys_ok_def s')
qed

text \<open>The step of a goroutine, taken apart.\<close>

lemma moved_simps [simp]:
  "ca_pc (moved s c x') = x'" "ca_key (moved s c x') = ca_key c" "ca_addr (moved s c x') = ca_addr c"
  "ca_asked (moved s c x') = ca_asked c"
  by (simp_all add: moved_def)

lemma step_to_simps [simp]:
  "cs_table (step_to p q c (f, e', x', sp) s) = put_entry (ca_addr c) e' (cs_table s)"
  "cs_since (step_to p q c (f, e', x', sp) s) = cs_since s" "cs_key (step_to p q c (f, e', x', sp) s) = cs_key s"
  "cs_invs (step_to p q c (f, e', x', sp) s) = cs_invs s" "cs_clock (step_to p q c (f, e', x', sp) s) = Suc (cs_clock s)"
  "cs_fetch (step_to p q c (f, e', x', sp) s) = (cs_fetch s)(ca_addr c := f)"
  by (simp_all add: step_to_def Let_def)

lemma step_to_calls:
  "cs_calls (step_to p q c (f, e', x', sp) s) y = Some d \<Longrightarrow>
   d = moved s c x' \<or> (\<exists>T. d = spawned c T) \<or> cs_calls s y = Some d"
  by (auto simp: step_to_def Let_def split: option.splits if_splits)

lemma do_goE:
  assumes "do_go p now r q s = Some s'"
  obtains c f e' x' sp where "cs_calls s p = Some c" "next_step p now r s c = Some (f, e', x', sp)"
    "sp = None \<or> cs_calls s q = None" "s' = step_to p q c (f, e', x', sp) s"
proof -
  obtain c where c: "cs_calls s p = Some c" using assms by (auto simp: do_go_def split: option.splits)
  obtain f e' x' sp where n: "next_step p now r s c = Some (f, e', x', sp)"
    using assms by (auto simp: do_go_def c split: option.splits)
  from assms show ?thesis by (intro that [OF c n]) (auto simp: do_go_def c n split: if_splits)
qed

lemma next_facts:
  assumes "next_step p now r s c = Some (f, e', x', sp)"
  defines "e \<equiv> c_heap (cs_table s) (ca_addr c)"
  shows "e_gen e' = e_gen e"
    and "captured x' = Some g \<Longrightarrow> captured (ca_pc c) = Some g \<or> captures (ca_pc c) \<and> g = e_gen e"
    and "e_loaded e' \<Longrightarrow> e_loaded e \<or> writes (e_gen e) (ca_pc c)"
    and "returned x' \<Longrightarrow> reads_entry (ca_pc c) \<and> e_loaded e \<or> \<not> reads_entry (ca_pc c) \<and> captured (ca_pc c) \<noteq> None"
  using go_facts [OF assms(1) [unfolded next_step_def Let_def]] by (simp_all add: e_def)

lemma step_to_gens:
  "next_step p now r s c = Some (f, e', x', sp) \<Longrightarrow>
   e_gen (c_heap (cs_table (step_to p q c (f, e', x', sp) s)) b) = e_gen (c_heap (cs_table s) b)"
  using next_facts(1) by fastforce

lemma moved_ok:
  assumes ok: "entries_ok s" "call_ok s c" and st: "next_step p now r s c = Some (f, e', x', sp)"
  shows "call_ok (step_to p q c (f, e', x', sp) s) (moved s c x')"
proof -
  let ?e = "c_heap (cs_table s) (ca_addr c)"
  have "ca_asked c \<le> ca_started (moved s c x') \<and> g \<le> e_gen ?e \<and>
      (g = e_gen ?e \<longrightarrow> cs_since s (ca_addr c) \<le> ca_started (moved s c x'))" if "captured x' = Some g" for g
    using next_facts(2) [OF st that] ok(2) entries_okD(3) [OF ok(1), of "ca_addr c"]
    by (cases "captures (ca_pc c)"; cases "ca_pc c") (auto simp: moved_def call_ok_def)
  with ok(2) next_facts(1) [OF st] show ?thesis by (simp add: call_ok_def)
qed

lemma moved_since:
  assumes ok: "entries_ok s" "call_ok s c" and st: "next_step p now r s c = Some (f, e', x', sp)"
    and "since_after s t t' c" and "t < t'"
  shows "since_after (step_to p q c (f, e', x', sp) s) t t' (moved s c x')"
proof -
  have "t \<le> ca_served (moved s c x')"
    if "returned x'" "t' \<le> ca_asked c" "t \<le> cs_since s (ca_addr c)"
    using next_facts(4) [OF st that(1)] entries_okD(4) [OF ok(1), of "ca_addr c"] ok(2) that(2,3) assms(5)
    by (auto simp: moved_def call_ok_def)
  with assms(4) show ?thesis by (simp add: since_after_def)
qed

lemma step_entries_ok:
  assumes ok: "entries_ok s" "call_ok s c" and st: "next_step p now r s c = Some (f, e', x', sp)"
  shows "entries_ok (step_to p q c (f, e', x', sp) s)"
  using ok next_facts(3) [OF st] writes_captured [of "e_gen (c_heap (cs_table s) (ca_addr c))" "ca_pc c"]
  by (auto simp: entries_ok_def call_ok_def le_SucI) (auto simp: step_to_def Let_def)

lemma do_go_ok:
  assumes ok: "csys_ok s" and run: "do_go p now r q s = Some s'"
  shows "csys_ok s'"
proof -
  obtain c f e' x' sp where c: "cs_calls s p = Some c" and st: "next_step p now r s c = Some (f, e', x', sp)"
    and s': "s' = step_to p q c (f, e', x', sp) s"
    using run by (rule do_goE)
  note ec = csys_okD(1) [OF ok] csys_okD(2) [OF ok c]
  have calls: "d = moved s c x' \<or> (\<exists>T. d = spawned c T) \<or> cs_calls s y = Some d" if "cs_calls s' y = Some d" for y d
    using that unfolding s' by (rule step_to_calls)
  have new: "call_ok s' (spawned c T)" for T
    using ec(2) by (simp add: s' call_ok_def spawned_def new_call_def)
  have old: "call_ok s' d" if "cs_calls s y = Some d" for y d
    using csys_okD(2) [OF ok that] step_to_gens [OF st] unfolding s' by (simp add: call_ok_def less_SucI)
  have "call_ok s' d" if "cs_calls s' y = Some d" for y d
    using calls [OF that] new old moved_ok [OF ec st] unfolding s' by blast
  moreover have "inv_ok s' i" if i: "cs_invs s y = Some i" for y i
  proof (cases i)
    case (InvAt k t b)
    with csys_okD(3) [OF ok i] show ?thesis by (auto simp: s')
  next
    case (InvDone k t t')
    with csys_okD(3) [OF ok i] have iv: "t < t'" "t' < cs_clock s"
      "\<And>b. c_entries (cs_table s) k = Some b \<Longrightarrow> t \<le> cs_since s b"
      "\<And>p c. cs_calls s p = Some c \<Longrightarrow> ca_key c = k \<Longrightarrow> since_after s t t' c" by auto
    have "since_after s' t t' d" if "cs_calls s' y = Some d" "ca_key d = k" for y d
      using calls [OF that(1)]
    proof (elim disjE exE)
      assume "d = moved s c x'"
      with moved_since [OF ec st iv(4) [OF c] iv(1)] that(2) show ?thesis unfolding s' by simp
    next
      fix T assume "d = spawned c T"
      with iv(4) [OF c] that(2) show ?thesis by (simp add: s' since_after_def spawned_def new_call_def)
    next
      assume "cs_calls s y = Some d"
      from iv(4) [OF this that(2)] show ?thesis by (simp add: s' since_after_def)
    qed
    with InvDone iv show ?thesis by (simp add: s')
  qed
  moreover have "entries_ok s'" unfolding s' by (rule step_entries_ok [OF ec st])
  ultimately show ?thesis by (simp add: csys_ok_def s')
qed

lemma cache_act_ok: "csys_ok s \<Longrightarrow> cache_act a s = Some s' \<Longrightarrow> csys_ok s'"
  by (cases a) (auto intro: do_ask_ok do_go_ok inv_ask_ok inv_apply_ok)

lemma creach_ok: "creach cap s \<Longrightarrow> csys_ok s"
  by (induction rule: creach.induct) (auto intro: csys_new_ok cache_act_ok)

section \<open>Each entry runs as in CacheFlight\<close>

definition at_entry :: "nat \<Rightarrow> 'v csys \<Rightarrow> 'v esys" where
  "at_entry a s = \<lparr>es_entry = c_heap (cs_table s) a, es_fetch = cs_fetch s a,
     es_pc = (\<lambda>p. case cs_calls s p of None \<Rightarrow> Idle | Some c \<Rightarrow> if ca_addr c = a then ca_pc c else Idle),
     es_born = cs_born s a\<rparr>"

definition stepped :: "nat \<Rightarrow> nat \<Rightarrow> 'v esys \<Rightarrow> nat option \<times> 'v entry \<times> 'v pc \<times> gotype option \<Rightarrow> 'v esys" where
  "stepped p q s = (\<lambda>(f, e, x, sp). \<lparr>es_entry = e, es_fetch = f,
     es_pc = (case sp of None \<Rightarrow> (es_pc s)(p := x) | Some T \<Rightarrow> (es_pc s)(p := x, q := RCapture T)),
     es_born = (if writes (e_gen (es_entry s)) (es_pc s p) then e_gen (es_entry s) else es_born s)\<rparr>)"

lemma estep_stepped:
  "estep key s t \<Longrightarrow> es_entry t = e \<Longrightarrow> es_fetch t = f \<Longrightarrow>
   es_pc t = (case sp of None \<Rightarrow> (es_pc s)(p := x) | Some T \<Rightarrow> (es_pc s)(p := x, q := RCapture T)) \<Longrightarrow>
   es_born t = (if writes (e_gen (es_entry s)) (es_pc s p) then e_gen (es_entry s) else es_born s) \<Longrightarrow>
   estep key s (stepped p q s (f, e, x, sp))"
  by (cases t) (simp add: stepped_def)

lemma load_estep:
  assumes "go key ttl now r p (es_fetch s) (es_entry s) (es_pc s p) = Some (f', e', x', sp)"
    and "\<And>T. sp = Some T \<Longrightarrow> p \<noteq> q \<and> es_pc s q = Idle" and FLoad: "es_pc s p = FLoad T"
  shows "estep key s (stepped p q s (f', e', x', sp))"
proof -
  obtain e2 res where l: "load T now key (es_entry s) = (e2, res)" by fastforce
  show ?thesis
  proof (cases res)
    case LoadCold
    with assms(1) FLoad l show ?thesis by (intro estep_stepped [OF f_load_cold [OF FLoad, of now key e2]]) auto
  next
    case (LoadMismatch err)
    with assms(1) FLoad l show ?thesis by (intro estep_stepped [OF f_load_mismatch [OF FLoad, of now key e2 err]]) auto
  next
    case (LoadHit v st spawn)
    show ?thesis
    proof (cases spawn)
      case True
      with assms FLoad l LoadHit show ?thesis
        by (intro estep_stepped [OF f_load_spawn [OF FLoad, of now key e2 v st q]]) auto
    next
      case False
      with assms FLoad l LoadHit show ?thesis
        by (intro estep_stepped [OF f_load_hit [OF FLoad, of now key e2 v st]]) auto
    qed
  qed
qed

lemma recheck_estep:
  assumes "go key ttl now r p (es_fetch s) (es_entry s) (es_pc s p) = Some (f', e', x', sp)"
    and FRecheck: "es_pc s p = FRecheck T"
  shows "estep key s (stepped p q s (f', e', x', sp))"
proof -
  obtain e2 res where l: "load T now key (es_entry s) = (e2, res)" by fastforce
  show ?thesis
  proof (cases res)
    case LoadCold
    with assms(1) FRecheck l show ?thesis by (intro estep_stepped [OF f_recheck_cold [OF FRecheck, of now key e2]]) auto
  next
    case (LoadMismatch err)
    with assms(1) FRecheck l show ?thesis by (intro estep_stepped [OF f_recheck_mismatch [OF FRecheck, of now key e2 err]]) auto
  next
    case (LoadHit v st spawn)
    with assms(1) FRecheck l show ?thesis by (intro estep_stepped [OF f_recheck_hit [OF FRecheck, of now key e2 v st spawn]]) auto
  qed
qed

lemma go_estep:
  assumes "go key ttl now r p (es_fetch s) (es_entry s) (es_pc s p) = Some (f', e', x', sp)"
    and "\<And>T. sp = Some T \<Longrightarrow> p \<noteq> q \<and> es_pc s q = Idle"
  shows "estep key s (stepped p q s (f', e', x', sp))"
proof (cases "es_pc s p")
  case (FLoad T)
  with assms show ?thesis by (rule load_estep)
next
  case (FRecheck T)
  with assms(1) show ?thesis by (rule recheck_estep)
next
  case (FGate T)
  with assms(1) show ?thesis by (intro estep_stepped [OF f_gate [OF FGate]]) (auto split: if_splits)
next
  case (FCapture T)
  with assms(1) show ?thesis by (intro estep_stepped [OF f_capture [OF FCapture]]) auto
next
  case (FCall T g)
  show ?thesis
  proof (cases r)
    case (FnValue v)
    with assms(1) FCall show ?thesis by (intro estep_stepped [OF f_fn_ok [OF FCall, of v]]) (auto split: if_splits)
  next
    case (FnError v err)
    with assms(1) FCall show ?thesis by (intro estep_stepped [OF f_fn_err [OF FCall, of v key err]]) (auto split: if_splits)
  next
    case FnPanic
    with assms(1) FCall show ?thesis by (intro estep_stepped [OF f_fn_panic [OF FCall]]) auto
  qed
next
  case (FPublish T g v)
  with assms(1) show ?thesis by (intro estep_stepped [OF f_publish [OF FPublish, of key now ttl]]) auto
next
  case (RCapture T)
  with assms(1) show ?thesis by (intro estep_stepped [OF r_capture [OF RCapture]]) auto
next
  case (RCall T g)
  show ?thesis
  proof (cases r)
    case (FnValue v)
    with assms(1) RCall show ?thesis by (intro estep_stepped [OF r_fn_ok [OF RCall, of v]]) (auto split: if_splits)
  qed (use assms(1) RCall in \<open>auto intro!: estep_stepped [OF r_fn_fail [OF RCall]]\<close>)
next
  case (RFinish g w)
  then have "writes (e_gen (es_entry s)) (es_pc s p) = (e_gen (es_entry s) = g \<and> w \<noteq> None)" by (cases w) auto
  with assms(1) RFinish show ?thesis by (intro estep_stepped [OF r_finish [OF RFinish, of key ttl now]]) auto
qed (use assms(1) in auto)


text \<open>The entry an action is about.\<close>

fun acted_on :: "'v cact \<Rightarrow> 'v csys \<Rightarrow> nat" where
  "acted_on (Ask p key T ttl) s = snd (look_up key s)"
| "acted_on (Go p now r q) s = (case cs_calls s p of None \<Rightarrow> 0 | Some c \<Rightarrow> ca_addr c)"
| "acted_on (InvAsk q key) s = snd (look_up key s)"
| "acted_on (InvApply q) s = (case cs_invs s q of Some (InvAt key t a) \<Rightarrow> a | _ \<Rightarrow> 0)"

text \<open>An address that was never given out.\<close>

definition fresh_above :: "'v csys \<Rightarrow> bool" where
  "fresh_above s \<longleftrightarrow> (\<forall>b\<ge>c_next (cs_table s). c_heap (cs_table s) b = new_entry \<and> cs_fetch s b = None \<and> cs_born s b = 0)"

lemma fresh_view:
  assumes "fresh_above s" and "csys_ok s" and "c_next (cs_table s) \<le> b"
  shows "at_entry b s = esys_init"
proof -
  have "ca_addr c \<noteq> b" if "cs_calls s p = Some c" for p c
    using csys_okD(2) [OF assms(2) that] assms(3) by (auto simp: call_ok_def)
  then show ?thesis
    using assms(1,3) by (auto simp: at_entry_def esys_init_def fresh_above_def fun_eq_iff split: option.split)
qed

lemma look_up_view:
  assumes "fresh_above s" and "csys_ok s" and "look_up key s = (s', a)"
  shows "fresh_above s' \<and> at_entry b s' = at_entry b s \<and> (cs_key s' b = cs_key s b \<or> at_entry b s = esys_init)"
  using assms(3) entries_okD(1) [OF csys_okD(1) [OF assms(2)]]
proof (cases rule: look_up_cases)
  case found
  with assms(1) show ?thesis by (simp add: fresh_above_def at_entry_def)
next
  case (made es os)
  with assms(1) have "c_heap (cs_table s) a = new_entry" by (simp add: fresh_above_def)
  then have "at_entry b s' = at_entry b s" by (simp add: at_entry_def made(3))
  moreover have "cs_key s' b = cs_key s b \<or> at_entry b s = esys_init"
    using fresh_view [OF assms(1,2), of a] made(2) by (simp add: made(3))
  ultimately show ?thesis using assms(1) made(2) by (simp add: fresh_above_def made(3))
qed

lemma do_ask_view:
  assumes "fresh_above s" and "csys_ok s" and "do_ask p key T ttl s = Some s'"
  shows "fresh_above s' \<and> (cs_key s' b = cs_key s b \<or> at_entry b s = esys_init) \<and>
    (at_entry b s' = at_entry b s \<or> b = snd (look_up key s) \<and> estep (cs_key s' b) (at_entry b s) (at_entry b s'))"
proof -
  obtain s1 a where l: "look_up key s = (s1, a)" by fastforce
  then have s': "s' = s1\<lparr>cs_calls := (cs_calls s1)(p \<mapsto> new_call key ttl a (FLoad T) (cs_clock s))\<rparr>"
    and p: "cs_calls s1 p = None"
    using assms(3) by (auto simp: do_ask_def look_up_def Let_def split: if_splits prod.splits)
  note v = look_up_view [OF assms(1,2) l]
  have "at_entry b s' = (if a = b then (at_entry b s1)\<lparr>es_pc := (es_pc (at_entry b s1))(p := FLoad T)\<rparr> else at_entry b s1)"
    using p by (auto simp: at_entry_def s' new_call_def fun_eq_iff)
  moreover have "es_pc (at_entry b s1) p = Idle" using p by (simp add: at_entry_def)
  ultimately have "at_entry b s' = at_entry b s1 \<or> b = a \<and> estep (cs_key s' b) (at_entry b s1) (at_entry b s')"
    using f_call [of "at_entry b s1" p "cs_key s' b" T] by auto
  moreover have "fresh_above s'" "cs_key s' = cs_key s1" using v by (simp_all add: fresh_above_def s')
  ultimately show ?thesis using v l by auto
qed

lemma do_go_view:
  assumes "fresh_above s" and "csys_ok s" and "do_go p now r q s = Some s'"
  shows "fresh_above s' \<and> cs_key s' b = cs_key s b \<and>
    (at_entry b s' = at_entry b s \<or> b = acted_on (Go p now r q) s \<and> estep (cs_key s' b) (at_entry b s) (at_entry b s'))"
proof -
  obtain c f e' x' sp where c: "cs_calls s p = Some c" and st: "next_step p now r s c = Some (f, e', x', sp)"
    and q: "sp = None \<or> cs_calls s q = None" and s': "s' = step_to p q c (f, e', x', sp) s"
    using assms(3) by (rule do_goE)
  let ?a = "ca_addr c"
  note cok = csys_okD(2) [OF assms(2) c, unfolded call_ok_def]
  have "at_entry b s' = at_entry b s" if "b \<noteq> ?a"
    using that c q by (auto simp: at_entry_def s' step_to_def Let_def spawned_def new_call_def fun_eq_iff split: option.splits)
  moreover have "estep (ca_key c) (at_entry ?a s) (at_entry ?a s')"
  proof -
    have "es_pc (at_entry ?a s) p = ca_pc c" using c by (simp add: at_entry_def)
    then have "go (ca_key c) (ca_ttl c) now r p (es_fetch (at_entry ?a s)) (es_entry (at_entry ?a s)) (es_pc (at_entry ?a s) p) =
        Some (f, e', x', sp)"
      using st by (simp add: next_step_def Let_def at_entry_def)
    moreover have "p \<noteq> q \<and> es_pc (at_entry ?a s) q = Idle" if "sp = Some T" for T
      using q that c by (auto simp: at_entry_def)
    ultimately have "estep (ca_key c) (at_entry ?a s) (stepped p q (at_entry ?a s) (f, e', x', sp))"
      by (rule go_estep)
    moreover have "stepped p q (at_entry ?a s) (f, e', x', sp) = at_entry ?a s'"
      using c by (auto simp: at_entry_def stepped_def s' step_to_def Let_def spawned_def new_call_def fun_eq_iff split: option.split)
    ultimately show ?thesis by simp
  qed
  moreover have "fresh_above s'"
    using assms(1) cok by (auto simp: fresh_above_def s') (auto simp: step_to_def Let_def)
  ultimately show ?thesis using cok c by (cases "b = ?a") (auto simp: s')
qed

lemma inv_apply_view:
  assumes "fresh_above s" and "csys_ok s" and "inv_apply q s = Some s'"
  shows "fresh_above s' \<and> cs_key s' b = cs_key s b \<and>
    (at_entry b s' = at_entry b s \<or> b = acted_on (InvApply q) s \<and> estep (cs_key s' b) (at_entry b s) (at_entry b s'))"
proof -
  obtain key t a where q: "cs_invs s q = Some (InvAt key t a)"
    and s': "cs_table s' = put_entry a (invalidate_entry (c_heap (cs_table s) a)) (cs_table s)"
      "cs_calls s' = cs_calls s" "cs_fetch s' = cs_fetch s" "cs_born s' = cs_born s" "cs_key s' = cs_key s"
    using assms(3) by (auto simp: inv_apply_def split: option.splits inval.splits)
  have "a < c_next (cs_table s)" using csys_okD(3) [OF assms(2) q] by simp
  then have "fresh_above s'" using assms(1) by (auto simp: fresh_above_def s')
  moreover have "at_entry b s' = (if b = a then (at_entry b s)\<lparr>es_entry := invalidate_entry (es_entry (at_entry b s))\<rparr> else at_entry b s)"
    by (auto simp: at_entry_def s')
  ultimately show ?thesis using estep.invalidate [of "cs_key s b" "at_entry b s"] q by (auto simp: s')
qed

lemma invs_view [simp]:
  "at_entry b (s\<lparr>cs_invs := i\<rparr>) = at_entry b s" "fresh_above (s\<lparr>cs_invs := i\<rparr>) = fresh_above s"
  by (simp_all add: at_entry_def fresh_above_def)

lemma inv_ask_view:
  assumes "fresh_above s" and "csys_ok s" and "inv_ask q key s = Some s'"
  shows "fresh_above s' \<and> at_entry b s' = at_entry b s \<and> (cs_key s' b = cs_key s b \<or> at_entry b s = esys_init)"
proof -
  obtain s1 a where l: "look_up key s = (s1, a)" by fastforce
  then have "s' = s1\<lparr>cs_invs := (cs_invs s1)(q \<mapsto> InvAt key (cs_clock s) a)\<rparr>"
    using assms(3) by (simp add: inv_ask_def split: if_splits)
  with look_up_view [OF assms(1,2) l] show ?thesis by simp
qed

lemma cache_act_view:
  assumes "fresh_above s" and "csys_ok s" and "cache_act a s = Some s'"
  shows "fresh_above s'" "cs_key s' b = cs_key s b \<or> at_entry b s = esys_init"
    "at_entry b s' = at_entry b s \<or> b = acted_on a s \<and> estep (cs_key s' b) (at_entry b s) (at_entry b s')"
proof -
  have "fresh_above s' \<and> (cs_key s' b = cs_key s b \<or> at_entry b s = esys_init) \<and>
    (at_entry b s' = at_entry b s \<or> b = acted_on a s \<and> estep (cs_key s' b) (at_entry b s) (at_entry b s'))"
  proof (cases a)
    case (Ask p key T ttl)
    with do_ask_view [OF assms(1,2), of p key T ttl s' b] assms(3) show ?thesis by simp
  next
    case (Go p now r q)
    with assms(3) have "do_go p now r q s = Some s'" by simp
    from do_go_view [OF assms(1,2) this, of b] show ?thesis unfolding Go by blast
  next
    case (InvAsk q key)
    with inv_ask_view [OF assms(1,2), of q key s' b] assms(3) show ?thesis by simp
  next
    case (InvApply q)
    with assms(3) have "inv_apply q s = Some s'" by simp
    from inv_apply_view [OF assms(1,2) this, of b] show ?thesis unfolding InvApply by blast
  qed
  then show "fresh_above s'" "cs_key s' b = cs_key s b \<or> at_entry b s = esys_init"
    "at_entry b s' = at_entry b s \<or> b = acted_on a s \<and> estep (cs_key s' b) (at_entry b s) (at_entry b s')"
    by simp_all
qed

lemma cache_act_cap:
  "csys_ok s \<Longrightarrow> cache_act a s = Some s' \<Longrightarrow> c_maxEntries (cs_table s') = c_maxEntries (cs_table s)"
  using look_up_table(2) [OF _ entries_okD(1) [OF csys_okD(1)]]
  by (cases a) (auto simp: do_ask_def inv_ask_def inv_apply_def Let_def elim!: do_goE
      split: if_splits option.splits inval.splits prod.splits)

lemma csys_new_view: "at_entry b (csys_new cap) = esys_init"
  by (simp add: at_entry_def csys_new_def esys_init_def new_cache_def)

lemma creach_view:
  "creach cap s \<Longrightarrow> fresh_above s \<and> c_maxEntries (cs_table s) = cap \<and> ereach (cs_key s b) (at_entry b s)"
proof (induction rule: creach.induct)
  case cache_start
  show ?case by (simp add: csys_new_view ereach.start) (simp add: fresh_above_def csys_new_def new_cache_def)
next
  case (cache_next s a s')
  have ok: "csys_ok s" by (rule creach_ok) (rule cache_next)
  note v = cache_act_view(1) [OF _ ok cache_next.hyps(2)] cache_act_view(2,3) [OF _ ok cache_next.hyps(2), where b = b]
  have "ereach (cs_key s' b) (at_entry b s)"
    using v(2) cache_next.IH ereach.start [of "cs_key s' b"] by auto
  with v(3) cache_next.IH have "ereach (cs_key s' b) (at_entry b s')" by (auto intro: ereach.step)
  with v(1) cache_next.IH cache_act_cap [OF ok cache_next.hyps(2)] show ?case by simp
qed

section \<open>Properties\<close>

text \<open>
  C3: the cache is its entries. Whatever calls, revalidations and invalidations race, over any keys
  and with any eviction, one action of the cache is at most one step of the goroutines of one entry,
  the one the action is about, and leaves every other entry, with its goroutines, its e.fetch and
  its generation, as it was; each entry is in a state reachable for it alone; and the table never
  holds more keys than its cap.
\<close>

theorem cache_refines:
  assumes "creach cap s" and "cache_act a s = Some s'"
  shows "(let b = acted_on a s in at_entry b s' = at_entry b s \<or> estep (cs_key s' b) (at_entry b s) (at_entry b s')) \<and>
    (\<forall>b. b \<noteq> acted_on a s \<longrightarrow> at_entry b s' = at_entry b s) \<and>
    (\<forall>b. ereach (cs_key s' b) (at_entry b s')) \<and> Len (cs_table s') \<le> cap"
proof -
  have r: "creach cap s'" by (rule cache_next) (rule assms)+
  note v = creach_view [OF r] and ok = entries_okD(1) [OF csys_okD(1) [OF creach_ok [OF r]]]
  have "Len (cs_table s') \<le> cap" using table.within [OF ok] v by simp
  moreover have "fresh_above s" using creach_view [OF assms(1)] by blast
  note cache_act_view(3) [OF this creach_ok [OF assms(1)] assms(2)]
  ultimately show ?thesis using v by (auto simp: Let_def)
qed

text \<open>
  A run on a cache of one key: a first \<open>Fetch\<close> of k is in its \<open>fn\<close> when another key evicts k; an
  \<open>Invalidate\<close> makes k a new entry; a second \<open>Fetch\<close> of k then finds that one, and the late value of
  the first goes to the entry nobody can look up.
\<close>

fun cache_acts :: "'v cact list \<Rightarrow> 'v csys \<Rightarrow> 'v csys option" where
  "cache_acts [] s = Some s"
| "cache_acts (a # as) s = (case cache_act a s of None \<Rightarrow> None | Some s' \<Rightarrow> cache_acts as s')"

lemma cache_acts_reach: "cache_acts as s = Some s' \<Longrightarrow> creach cap s \<Longrightarrow> creach cap s'"
  by (induction as arbitrary: s) (auto split: option.splits intro: cache_next)

definition go_fetch :: "nat \<Rightarrow> int \<Rightarrow> int cact list" where
  "go_fetch p n = map (\<lambda>now. Go p now (FnValue (Dyn ''int'' n)) 9) [1, 2, 3, 4]"

definition go_end :: "nat \<Rightarrow> int \<Rightarrow> int cact list" where
  "go_end p n = map (\<lambda>now. Go p now (FnValue (Dyn ''int'' n)) 9) [5, 6]"

definition evicted_run :: "int cact list" where
  "evicted_run = [Ask 0 ''k'' T_int 60] @ go_fetch 0 1 @ [Ask 1 ''j'' T_int 60, InvAsk 0 ''k'', InvApply 0] @
     [Ask 2 ''k'' T_int 60] @ go_fetch 2 2 @ go_end 0 1 @ go_end 2 2"

definition seen :: "nat \<Rightarrow> int csys \<Rightarrow> (inval option \<times> (string \<times> nat \<times> int pc \<times> nat) option) \<times> string list" where
  "seen p s = ((cs_invs s 0, map_option (\<lambda>c. (ca_key c, ca_asked c, ca_pc c, ca_served c)) (cs_calls s p)), c_order (cs_table s))"

lemmas run_simps = evicted_run_def go_fetch_def go_end_def do_ask_def look_up_def entryFor_def do_go_def next_step_def
  step_to_def moved_def spawned_def new_call_def load_def csys_new_def new_cache_def put_entry_def inv_ask_def
  inv_apply_def invalidate_entry_def publish_def T_int_def zero_status_def new_entry_def Let_def seen_def

lemma evicted_run_result:
  "map_option (seen 2) (cache_acts evicted_run (csys_new 1)) =
   Some ((Some (InvDone ''k'' 6 7), Some (''k'', 8, FReturn (Some (Dyn ''int'' 2)) \<lparr>st_Failed = False, st_FetchedAt = 6\<rparr> None, 12)), [''k''])"
  by (simp add: run_simps)

theorem cache_refines_witness:
  "\<exists>s s' :: int csys. cache_acts evicted_run (csys_new 1) = Some s \<and> cache_act (Ask 3 ''j'' T_int 60) s = Some s' \<and>
     (\<forall>b. b \<noteq> acted_on (Ask 3 ''j'' T_int 60) s \<longrightarrow> at_entry b s' = at_entry b s) \<and>
     (\<forall>b. ereach (cs_key s' b) (at_entry b s')) \<and> Len (cs_table s') \<le> 1"
proof -
  obtain s where s: "cache_acts evicted_run (csys_new 1) = Some s" using evicted_run_result by auto
  have "map_option (\<lambda>s. cache_act (Ask 3 ''j'' T_int 60) s = None) (cache_acts evicted_run (csys_new 1)) = Some False"
    by (simp add: run_simps)
  with s obtain s' where s': "cache_act (Ask 3 ''j'' T_int 60) s = Some s'" by auto
  from cache_refines [OF cache_acts_reach [OF s cache_start] s'] s s' show ?thesis by blast
qed

text \<open>
  The goroutines running \<open>fn\<close> for a key, the keys asked for so far, and the entries made for one.
\<close>

definition flights :: "string \<Rightarrow> 'v csys \<Rightarrow> nat set" where
  "flights key s = {p. \<exists>c. cs_calls s p = Some c \<and> ca_key c = key \<and> calling (ca_pc c)}"

definition asked_keys :: "'v csys \<Rightarrow> string set" where
  "asked_keys s = cs_key s ` {..<c_next (cs_table s)}"

definition made_for :: "string \<Rightarrow> 'v csys \<Rightarrow> nat set" where
  "made_for key s = {b. b < c_next (cs_table s) \<and> cs_key s b = key}"

definition all_kept :: "'v csys \<Rightarrow> bool" where
  "all_kept s \<longleftrightarrow> (\<forall>b<c_next (cs_table s). c_entries (cs_table s) (cs_key s b) = Some b)"

text \<open>Nothing is evicted before more keys than the cap were asked for.\<close>

lemma look_up_kept:
  assumes ok: "csys_ok s" and run: "look_up key s = (s', a)"
    and kept: "card (asked_keys s) \<le> c_maxEntries (cs_table s) \<Longrightarrow> all_kept s"
    and few: "card (asked_keys s') \<le> c_maxEntries (cs_table s)"
  shows "all_kept s'"
  using run entries_okD(1) [OF csys_okD(1) [OF ok]]
proof (cases rule: look_up_cases)
  case found
  with kept few show ?thesis by (simp add: all_kept_def asked_keys_def)
next
  case (made es os)
  let ?c = "cs_table s"
  have c: "cache_ok ?c" by (rule entries_okD(1) [OF csys_okD(1) [OF ok]])
  have keys: "asked_keys s' = insert key (asked_keys s)"
    using made(2) by (auto simp: asked_keys_def made(3) lessThan_Suc)
  have fin: "finite (asked_keys s)" by (simp add: asked_keys_def)
  with keys few have few': "card (asked_keys s) \<le> c_maxEntries ?c"
    by (simp add: card_insert_if split: if_splits)
  from kept [OF this] have k: "c_entries ?c (cs_key s b) = Some b" if "b < c_next ?c" for b
    using that by (simp add: all_kept_def)
  with made(1) have new: "key \<notin> asked_keys s" by (auto simp: asked_keys_def)
  have "set (c_order ?c) \<subseteq> asked_keys s"
  proof
    fix x assume "x \<in> set (c_order ?c)"
    with c obtain b where b: "c_entries ?c x = Some b" by (auto simp: cache_ok_def)
    with table_below [OF c b] entries_okD(2) [OF csys_okD(1) [OF ok] b] show "x \<in> asked_keys s"
      by (auto simp: asked_keys_def)
  qed
  then have "length (c_order ?c) \<le> card (asked_keys s)"
    using c card_mono [OF fin] by (metis cache_ok_def distinct_card)
  with few keys fin new have room: "Suc (length (c_order ?c)) \<le> c_maxEntries ?c" by simp
  have "cs_table s' = fst (entryFor key ?c)" using run by (auto simp: look_up_def Let_def split: prod.splits)
  moreover have "es = c_entries (cs_table s')" by (simp add: made(3))
  ultimately have es: "es = (c_entries ?c)(key \<mapsto> a) |` set (c_order ?c @ [key])"
    using entryFor_miss [OF c made(1)] room made(2) by simp
  have "es (cs_key s b) = Some b" if "b < c_next ?c" for b
    using k [OF that] that new c unfolding es by (auto simp: asked_keys_def cache_ok_def restrict_map_def)
  moreover have "es key = Some a" by (simp add: es)
  ultimately show ?thesis using made(2) by (auto simp: all_kept_def made(3) less_Suc_eq)
qed

lemma cache_act_kept:
  assumes ok: "csys_ok s" and run: "cache_act a s = Some s'"
    and kept: "card (asked_keys s) \<le> c_maxEntries (cs_table s) \<Longrightarrow> all_kept s"
    and few: "card (asked_keys s') \<le> c_maxEntries (cs_table s)"
  shows "all_kept s'"
proof -
  have same: "all_kept s'" if "asked_keys s' = asked_keys s" "all_kept s' = all_kept s"
    using that kept few by simp
  have looked: "all_kept s'" if "look_up key s = (s1, x)" "asked_keys s' = asked_keys s1" "all_kept s' = all_kept s1" for key s1 x
    using look_up_kept [OF ok that(1) kept] few that(2,3) by simp
  show ?thesis
  proof (cases a)
    case (Ask p key T ttl)
    obtain s1 x where l: "look_up key s = (s1, x)" by fastforce
    with Ask run show ?thesis
      by (intro looked [OF l]) (auto simp: do_ask_def asked_keys_def all_kept_def split: if_splits)
  next
    case (Go p now r q)
    with run obtain c f e' x' sp where "s' = step_to p q c (f, e', x', sp) s" by (auto elim: do_goE)
    then show ?thesis by (intro same) (simp_all add: asked_keys_def all_kept_def)
  next
    case (InvAsk q key)
    obtain s1 x where l: "look_up key s = (s1, x)" by fastforce
    with InvAsk run show ?thesis
      by (intro looked [OF l]) (auto simp: inv_ask_def asked_keys_def all_kept_def split: if_splits)
  next
    case (InvApply q)
    with run show ?thesis
      by (intro same) (auto simp: inv_apply_def asked_keys_def all_kept_def split: option.splits inval.splits)
  qed
qed

lemma creach_kept: "creach cap s \<Longrightarrow> card (asked_keys s) \<le> cap \<Longrightarrow> all_kept s"
proof (induction rule: creach.induct)
  case cache_start
  show ?case by (simp add: all_kept_def csys_new_def new_cache_def)
next
  case (cache_next s a s')
  have "c_maxEntries (cs_table s) = cap" using creach_view [OF cache_next.hyps(1)] by simp
  with cache_next show ?case by (intro cache_act_kept [OF creach_ok [OF cache_next.hyps(1)] cache_next.hyps(2)]) simp_all
qed

text \<open>The goroutines of a key are those of its entries.\<close>

lemma flights_bound:
  assumes "creach cap s"
  shows "finite (flights key s) \<and> card (flights key s) \<le> 2 * card (made_for key s)"
proof -
  let ?on = "\<lambda>b. {p. calling (es_pc (at_entry b s) p)}"
  have b: "finite (?on b)" "card (?on b) \<le> 2" for b
    using single_flight_facts(4) [of "cs_key s b" "at_entry b s"] creach_view [OF assms, of b] by simp_all
  have sub: "flights key s \<subseteq> (\<Union>b\<in>made_for key s. ?on b)"
  proof
    fix p assume "p \<in> flights key s"
    then obtain c where c: "cs_calls s p = Some c" "ca_key c = key" "calling (ca_pc c)" by (auto simp: flights_def)
    with csys_okD(2) [OF creach_ok [OF assms] c(1)] show "p \<in> (\<Union>b\<in>made_for key s. ?on b)"
      by (auto simp: made_for_def at_entry_def call_ok_def)
  qed
  have fin: "finite (made_for key s)" by (rule finite_subset [of _ "{..<c_next (cs_table s)}"]) (auto simp: made_for_def)
  then have f: "finite (\<Union>b\<in>made_for key s. ?on b)" using b(1) by blast
  have "card (\<Union>b\<in>made_for key s. ?on b) \<le> (\<Sum>b\<in>made_for key s. card (?on b))" by (rule card_UN_le [OF fin])
  also have "\<dots> \<le> (\<Sum>b\<in>made_for key s. 2)" by (rule sum_mono) (rule b(2))
  finally have "card (\<Union>b\<in>made_for key s. ?on b) \<le> 2 * card (made_for key s)" by (simp add: mult.commute)
  with card_mono [OF f sub] finite_subset [OF sub f] show ?thesis by simp
qed

text \<open>
  C1: single flight, in the whole cache under any interleaving. Of the goroutines on one entry at
  most one is inside the cold path's fetch section and at most one is a revalidation, which exists
  only while \<open>refreshing\<close> is set, evicted entries included. Of the goroutines on one key at most two
  run \<open>fn\<close> for every entry that was ever made for it: an eviction while a fetch runs lets the next
  caller start another. As long as no more keys were asked for than the cap nothing is evicted, so
  then at most one goroutine fetches a key cold, at most one revalidates it, and \<open>fn\<close> runs at most
  twice at a time for it.
\<close>

theorem single_flight:
  assumes "creach cap s"
  shows "(\<forall>p q c d. cs_calls s p = Some c \<and> cs_calls s q = Some d \<and>
       (ca_addr c = ca_addr d \<or> ca_key c = ca_key d \<and> card (asked_keys s) \<le> cap) \<and>
       (holds_fetch (ca_pc c) \<and> holds_fetch (ca_pc d) \<or> revalidating (ca_pc c) \<and> revalidating (ca_pc d)) \<longrightarrow> p = q) \<and>
    (\<forall>p c. cs_calls s p = Some c \<and> revalidating (ca_pc c) \<longrightarrow> e_refreshing (c_heap (cs_table s) (ca_addr c))) \<and>
    (\<forall>key. finite (flights key s) \<and> card (flights key s) \<le> 2 * card (made_for key s) \<and>
       (card (asked_keys s) \<le> cap \<longrightarrow> card (flights key s) \<le> 2))"
proof (intro conjI allI impI)
  note ok = creach_ok [OF assms]
  have same: "ca_addr c = ca_addr d"
    if "cs_calls s p = Some c" "cs_calls s q = Some d" "ca_key c = ca_key d" "card (asked_keys s) \<le> cap" for p q c d
  proof -
    have "c_entries (cs_table s) (ca_key c) = Some (ca_addr c)" if "cs_calls s p = Some c" for p c
      using csys_okD(2) [OF ok that] creach_kept [OF assms \<open>card (asked_keys s) \<le> cap\<close>]
      by (auto simp: call_ok_def all_kept_def)
    from this [OF that(1)] this [OF that(2)] that(3) show ?thesis by simp
  qed
  have pc: "es_pc (at_entry (ca_addr c) s) p = ca_pc c" if "cs_calls s p = Some c" for p c
    using that by (simp add: at_entry_def)
  note facts = single_flight_facts [OF conjunct2 [OF conjunct2 [OF creach_view [OF assms]]]]
  show "p = q" if h: "cs_calls s p = Some c \<and> cs_calls s q = Some d \<and>
       (ca_addr c = ca_addr d \<or> ca_key c = ca_key d \<and> card (asked_keys s) \<le> cap) \<and>
       (holds_fetch (ca_pc c) \<and> holds_fetch (ca_pc d) \<or> revalidating (ca_pc c) \<and> revalidating (ca_pc d))" for p q c d
  proof -
    from h same have "ca_addr c = ca_addr d" by blast
    with h pc [of p c] pc [of q d] facts(1,2) [of "ca_addr c" p q] show ?thesis by auto
  qed
  show "e_refreshing (c_heap (cs_table s) (ca_addr c))" if h: "cs_calls s p = Some c \<and> revalidating (ca_pc c)" for p c
    using h pc [of p c] facts(3) [of "ca_addr c" p] by (simp add: at_entry_def)
  fix key
  from flights_bound [OF assms] show "finite (flights key s)" "card (flights key s) \<le> 2 * card (made_for key s)"
    by blast+
  assume "card (asked_keys s) \<le> cap"
  from creach_kept [OF assms this] have "b = b'" if "b \<in> made_for key s" "b' \<in> made_for key s" for b b'
    using that by (simp add: made_for_def all_kept_def) (metis option.inject)
  then have "card (made_for key s) \<le> 1" by (metis card_le_Suc0_iff_eq card.infinite One_nat_def le0)
  with flights_bound [OF assms, of key] show "card (flights key s) \<le> 2" by linarith
qed

definition two_callers :: "int cact list" where
  "two_callers = [Ask 0 ''k'' T_int 60, Ask 1 ''k'' T_int 60] @ go_fetch 0 1 @ map (\<lambda>now. Go 1 now (FnValue (Dyn ''int'' 1)) 9) [2]"

definition racing :: "int csys \<Rightarrow> int pc option \<times> int pc option \<times> nat \<times> string" where
  "racing s = (map_option ca_pc (cs_calls s 0), map_option ca_pc (cs_calls s 1), c_next (cs_table s), cs_key s 0)"

lemma two_callers_result:
  "map_option racing (cache_acts two_callers (csys_new 2)) = Some (Some (FCall T_int 0), Some (FGate T_int), 1, ''k'')"
  by (simp add: two_callers_def racing_def run_simps)

theorem single_flight_witness:
  "\<exists>s. cache_acts two_callers (csys_new 2) = Some s \<and> map_option ca_pc (cs_calls s 0) = Some (FCall T_int 0) \<and>
     map_option ca_pc (cs_calls s 1) = Some (FGate T_int) \<and> card (flights ''k'' s) \<le> 2"
proof -
  obtain s where s: "cache_acts two_callers (csys_new 2) = Some s" and
    v: "racing s = (Some (FCall T_int 0), Some (FGate T_int), 1, ''k'')"
    using two_callers_result by auto
  have "card (asked_keys s) \<le> 2" using v by (simp add: racing_def asked_keys_def lessThan_Suc)
  with single_flight [OF cache_acts_reach [OF s cache_start]] have "card (flights ''k'' s) \<le> 2" by blast
  with s v show ?thesis by (simp add: racing_def)
qed

text \<open>
  C2: a caller sees its own change. Whatever else runs, however often the key is evicted and looked
  up again: the value a \<open>Fetch\<close> returns when it was called after an \<open>Invalidate\<close> of its key had
  returned comes from a call of \<open>fn\<close> that began after that \<open>Invalidate\<close> was called.
\<close>

theorem reads_own_change:
  assumes "creach cap s" and "cs_invs s q = Some (InvDone key began ended)"
    and "cs_calls s p = Some c" and "ca_key c = key" and "ended \<le> ca_asked c"
    and "ca_pc c = FReturn v st err"
  shows "began \<le> ca_served c"
proof -
  have "inv_ok s (InvDone key began ended)" by (rule csys_okD(3) [OF creach_ok [OF assms(1)] assms(2)])
  then have "since_after s began ended c" using assms(3,4) by auto
  with assms(5,6) show ?thesis by (simp add: since_after_def)
qed

theorem reads_own_change_witness:
  "\<exists>s c. cache_acts evicted_run (csys_new 1) = Some s \<and> cs_invs s 0 = Some (InvDone ''k'' 6 7) \<and>
     cs_calls s 2 = Some c \<and> ca_pc c = FReturn (Some (Dyn ''int'' 2)) \<lparr>st_Failed = False, st_FetchedAt = 6\<rparr> None \<and> 6 \<le> ca_served c"
proof -
  obtain s where s: "cache_acts evicted_run (csys_new 1) = Some s"
    and v: "seen 2 s = ((Some (InvDone ''k'' 6 7), Some (''k'', 8, FReturn (Some (Dyn ''int'' 2))
      \<lparr>st_Failed = False, st_FetchedAt = 6\<rparr> None, 12)), [''k''])"
    using evicted_run_result by auto
  then obtain c where c: "cs_invs s 0 = Some (InvDone ''k'' 6 7)" "cs_calls s 2 = Some c" "ca_key c = ''k''" "ca_asked c = 8"
    "ca_pc c = FReturn (Some (Dyn ''int'' 2)) \<lparr>st_Failed = False, st_FetchedAt = 6\<rparr> None"
    by (auto simp: seen_def)
  from reads_own_change [OF cache_acts_reach [OF s cache_start] c(1-3) _ c(5)] c s show ?thesis by auto
qed

end
