(* ===== verification/Strconv.thy ===== *)
theory Strconv
  imports Prelude
begin

text \<open>
  Decimal numbers as the repository prints and reads them: the verb \<open>%d\<close> and
  \<open>strconv.Itoa\<close> (\<open>itoa\<close>), \<open>strconv.Atoi\<close> on a 64-bit target (\<open>atoi\<close>, None for its error),
  zero-padded fields (\<open>pad_dec\<close>), and \<open>strings.Split\<close> on one byte, \<open>strings.Contains\<close> and
  \<open>strings.Cut\<close>. The round trips between them are proved here once.
\<close>

section \<open>Digits\<close>

definition digit :: "nat \<Rightarrow> char" where
  "digit n = char_of (48 + n)"

definition is_digit :: "char \<Rightarrow> bool" where
  "is_digit c \<longleftrightarrow> 48 \<le> (of_char c :: nat) \<and> (of_char c :: nat) \<le> 57"

definition digit_val :: "char \<Rightarrow> nat" where
  "digit_val c = of_char c - 48"

lemma of_char_digit: "n < 10 \<Longrightarrow> of_char (digit n) = (48 + n :: nat)"
  by (simp add: digit_def)

lemma is_digit_digit [simp]: "n < 10 \<Longrightarrow> is_digit (digit n)"
  by (simp add: is_digit_def of_char_digit)

lemma digit_val_digit [simp]: "n < 10 \<Longrightarrow> digit_val (digit n) = n"
  by (simp add: digit_val_def of_char_digit)

lemma digit_inj: "m < 10 \<Longrightarrow> n < 10 \<Longrightarrow> digit m = digit n \<longleftrightarrow> m = n"
  by (metis digit_val_digit)

fun dec_nat :: "nat \<Rightarrow> string" where
  "dec_nat n = (if n < 10 then [digit n] else dec_nat (n div 10) @ [digit (n mod 10)])"

declare dec_nat.simps [simp del]

definition num_of :: "string \<Rightarrow> nat" where
  "num_of s = foldl (\<lambda>n c. 10 * n + digit_val c) 0 s"

lemma num_of_Nil [simp]: "num_of [] = 0"
  by (simp add: num_of_def)

lemma num_of_snoc [simp]: "num_of (s @ [c]) = 10 * num_of s + digit_val c"
  by (simp add: num_of_def)

lemma num_of_dec_nat [simp]: "num_of (dec_nat n) = n"
proof (induction n rule: dec_nat.induct)
  case (1 n)
  show ?case
  proof (cases "n < 10")
    case True
    then show ?thesis using num_of_snoc [of "[]" "digit n"] by (simp add: dec_nat.simps [of n])
  next
    case False
    with 1 show ?thesis by (simp add: dec_nat.simps [of n])
  qed
qed

lemma dec_nat_digits: "list_all is_digit (dec_nat n)"
  by (induction n rule: dec_nat.induct) (subst dec_nat.simps, simp)

lemma dec_nat_nonempty [simp]: "dec_nat n \<noteq> []"
  by (subst dec_nat.simps) simp

lemma dec_nat_inj: "dec_nat m = dec_nat n \<longleftrightarrow> m = n"
  by (metis num_of_dec_nat)

section \<open>Signed numbers\<close>

definition itoa :: "int \<Rightarrow> string" where
  "itoa i = (if i < 0 then CHR ''-'' # dec_nat (nat (- i)) else dec_nat (nat i))"

definition atoi_digits :: "string \<Rightarrow> nat option" where
  "atoi_digits s = (if s \<noteq> [] \<and> list_all is_digit s then Some (num_of s) else None)"

definition in_i64 :: "int \<Rightarrow> int option" where
  "in_i64 x = (if min_i64 \<le> x \<and> x \<le> max_i64 then Some x else None)"

definition atoi :: "string \<Rightarrow> int option" where
  "atoi s =
     (case s of
        [] \<Rightarrow> None
      | c # ds \<Rightarrow>
          if c = CHR ''-'' then Option.bind (atoi_digits ds) (\<lambda>n. in_i64 (- int n))
          else if c = CHR ''+'' then Option.bind (atoi_digits ds) (\<lambda>n. in_i64 (int n))
          else Option.bind (atoi_digits s) (\<lambda>n. in_i64 (int n)))"

lemma atoi_digits_dec_nat [simp]: "atoi_digits (dec_nat n) = Some n"
  by (simp add: atoi_digits_def dec_nat_digits)

lemma not_digit_sign [simp]: "\<not> is_digit CHR ''-''" "\<not> is_digit CHR ''+''"
  by (simp_all add: is_digit_def)

lemma dec_nat_Cons: "\<exists>c ds. dec_nat n = c # ds \<and> is_digit c"
  using dec_nat_digits [of n] dec_nat_nonempty [of n] by (cases "dec_nat n") auto

theorem atoi_itoa:
  assumes "min_i64 \<le> i" and "i \<le> max_i64"
  shows "atoi (itoa i) = Some i"
proof (cases "i < 0")
  case True
  with assms show ?thesis by (simp add: atoi_def itoa_def in_i64_def)
next
  case False
  obtain c ds where c: "dec_nat (nat i) = c # ds" "is_digit c"
    using dec_nat_Cons by blast
  then have "c \<noteq> CHR ''-''" "c \<noteq> CHR ''+''" by auto
  moreover have "atoi_digits (c # ds) = Some (nat i)"
    using atoi_digits_dec_nat [of "nat i"] by (simp only: c)
  ultimately show ?thesis using False assms c(1) by (simp add: atoi_def itoa_def in_i64_def)
qed

lemma atoi_range: "atoi s = Some i \<Longrightarrow> min_i64 \<le> i \<and> i \<le> max_i64"
  by (auto simp: atoi_def in_i64_def split: list.splits if_splits bind_splits)

section \<open>Zero-padded fields\<close>

fun pad_dec :: "nat \<Rightarrow> nat \<Rightarrow> string" where
  "pad_dec 0 n = []"
| "pad_dec (Suc w) n = pad_dec w (n div 10) @ [digit (n mod 10)]"

lemma pad_dec_length [simp]: "length (pad_dec w n) = w"
  by (induction w n rule: pad_dec.induct) auto

lemma pad_dec_digits: "list_all is_digit (pad_dec w n)"
  by (induction w n rule: pad_dec.induct) auto

lemma num_of_pad_dec: "num_of (pad_dec w n) = n mod 10 ^ w"
proof (induction w n rule: pad_dec.induct)
  case (2 w n)
  have "n mod 10 ^ Suc w = 10 * (n div 10 mod 10 ^ w) + n mod 10"
    by (simp add: mod_mult2_eq algebra_simps)
  with 2 show ?case by simp
qed simp

lemma pad_dec_inj: "m < 10 ^ w \<Longrightarrow> n < 10 ^ w \<Longrightarrow> pad_dec w m = pad_dec w n \<longleftrightarrow> m = n"
  by (metis num_of_pad_dec mod_less)

section \<open>Splitting and searching\<close>

fun split_on :: "char \<Rightarrow> string \<Rightarrow> string list" where
  "split_on c [] = [[]]"
| "split_on c (x # xs) =
     (if x = c then [] # split_on c xs
      else case split_on c xs of [] \<Rightarrow> [[x]] | w # ws \<Rightarrow> (x # w) # ws)"

lemma split_on_nonempty [simp]: "split_on c s \<noteq> []"
  by (induction s) (auto split: list.split)

lemma split_on_free: "w \<in> set (split_on c s) \<Longrightarrow> c \<notin> set w"
proof (induction s arbitrary: w)
  case (Cons x xs)
  then show ?case by (auto split: if_splits list.splits)
qed simp

fun join_char :: "char \<Rightarrow> string list \<Rightarrow> string" where
  "join_char c [] = []"
| "join_char c [w] = w"
| "join_char c (w # v # ws) = w @ c # join_char c (v # ws)"

lemma split_on_no_sep [simp]: "c \<notin> set w \<Longrightarrow> split_on c w = [w]"
  by (induction w) auto

lemma split_on_append: "c \<notin> set w \<Longrightarrow> split_on c (w @ c # s) = w # split_on c s"
  by (induction w) auto

lemma split_join: "ws \<noteq> [] \<Longrightarrow> \<forall>w\<in>set ws. c \<notin> set w \<Longrightarrow> split_on c (join_char c ws) = ws"
  by (induction c ws rule: join_char.induct) (auto simp: split_on_append)

fun contains_sub :: "string \<Rightarrow> string \<Rightarrow> bool" where
  "contains_sub [] p = (p = [])"
| "contains_sub (c # s) p = (has_prefix (c # s) p \<or> contains_sub s p)"

lemma contains_sub_iff: "contains_sub s p \<longleftrightarrow> (\<exists>a b. s = a @ p @ b)"
proof (induction s)
  case Nil
  show ?case by auto
next
  case (Cons c s)
  have "(\<exists>a b. c # s = a @ p @ b) \<longleftrightarrow> (\<exists>b. c # s = p @ b) \<or> (\<exists>a b. s = a @ p @ b)"
    by (metis Cons_eq_append_conv append_Cons append_Nil list.inject)
  with Cons show ?case by (simp only: contains_sub.simps has_prefix_iff)
qed

text \<open>\<open>strings.Cut\<close> on a one-byte separator.\<close>

fun cut_at :: "char \<Rightarrow> string \<Rightarrow> string \<times> string \<times> bool" where
  "cut_at c [] = ([], [], False)"
| "cut_at c (x # xs) =
     (if x = c then ([], xs, True)
      else let (a, b, found) = cut_at c xs in (x # a, b, found))"

lemma cut_at_spec:
  "cut_at c s = (a, b, found) \<Longrightarrow>
   c \<notin> set a \<and> (if found then s = a @ c # b else s = a \<and> b = [])"
  by (induction s arbitrary: a b found) (auto split: if_splits prod.splits)

end
