(* ===== verification/Retry.thy ===== *)
theory Retry
  imports GoErr Strconv
begin

text \<open>
  httpc/transport.go: the retrying transport.

  The base transport is a parameter, a function of the time and the rest of the world: it returns
  a response or an error and takes as long as it likes. Other parameters: \<open>http.ParseTime\<close>
  (\<open>httpdate\<close>), the values drawn by math/rand (\<open>rnd\<close>, brought into the range of \<open>Int63n\<close> by
  mod), what \<open>GetBody\<close> returns, when the request's context ends and with which error, and which
  case \<open>select\<close> takes when the timer and the context are ready together (\<open>tie\<close>). Durations
  are int64: sums and products that can leave that range wrap (\<open>i64\<close>).

  \<open>rt_loop\<close> also lists the outcome of every attempt and the waits between them; only the
  properties look at these two lists.
\<close>

record response =
  rp_status :: int
  rp_retry_after :: string
  rp_content_type :: string
  rp_body :: string
  rp_broken :: "gerr option"  \<comment> \<open>the error a read of the body meets after these bytes\<close>

datatype rt_out = RtResp response | RtErr gerr | RtNil

record retry_config =
  rc_MaxRetries :: int
  rc_BaseDelay :: duration
  rc_MaxDelay :: duration

definition millisecond :: duration where
  "millisecond = 1000000"

definition DefaultRetryConfig :: retry_config where
  "DefaultRetryConfig = \<lparr>rc_MaxRetries = 2, rc_BaseDelay = 200 * millisecond, rc_MaxDelay = 2 * second\<rparr>"

text \<open>\<open>NewHTTPClient\<close> and \<open>NewWebSocketHTTPClient\<close>: the timeout (0: none) and what wraps the base
  transport.\<close>

definition DefaultHTTPTimeout :: duration where "DefaultHTTPTimeout = 15 * second"

definition NoTimeout :: duration where "NoTimeout = - 1"

record http_options =
  ho_Timeout :: duration
  ho_Retry :: "retry_config option"
  ho_Tracing :: bool

datatype layers = Bare | RetryLayer retry_config | TracedRetryLayer retry_config

definition NewHTTPClient :: "http_options \<Rightarrow> duration \<times> layers" where
  "NewHTTPClient opts =
     (let timeout = (if ho_Timeout opts = 0 then DefaultHTTPTimeout
                     else if ho_Timeout opts < 0 then 0 else ho_Timeout opts);
          cfg = (case ho_Retry opts of None \<Rightarrow> DefaultRetryConfig | Some c \<Rightarrow> c)
      in (timeout, if ho_Tracing opts then TracedRetryLayer cfg else RetryLayer cfg))"

definition NewWebSocketHTTPClient :: "duration \<times> layers" where
  "NewWebSocketHTTPClient = (0, Bare)"

lemma NewHTTPClient_timeout:
  "fst (NewHTTPClient opts) = 0 \<longleftrightarrow> ho_Timeout opts < 0"
  "0 \<le> fst (NewHTTPClient opts)"
  by (simp_all add: NewHTTPClient_def Let_def DefaultHTTPTimeout_def second_def)

datatype body = NilBody | NoBody | HasBody bool  \<comment> \<open>whether GetBody is set\<close>

record retry_request =
  rq_method :: string
  rq_body :: body

definition replayable :: "retry_request \<Rightarrow> bool" where
  "replayable req = (case rq_body req of NilBody \<Rightarrow> True | NoBody \<Rightarrow> True | HasBody getBody \<Rightarrow> getBody)"

definition idempotentMethod :: "string \<Rightarrow> bool" where
  "idempotentMethod m = (m \<in> {''GET'', ''HEAD'', ''OPTIONS'', ''TRACE'', []})"

fun retryable :: "rt_out \<Rightarrow> bool" where
  "retryable (RtErr e) = (\<not> (errors_is e ctx_canceled \<or> errors_is e ctx_deadline))"
| "retryable RtNil = False"
| "retryable (RtResp r) = (rp_status r = 429 \<or> rp_status r \<ge> 500 \<and> rp_status r \<le> 599)"

definition parseRetryAfter :: "(string \<Rightarrow> instant option) \<Rightarrow> instant \<Rightarrow> string \<Rightarrow> duration option" where
  "parseRetryAfter httpdate now v0 =
     (let v = trim_space v0 in
      if v = [] then None
      else case atoi v of
        Some secs \<Rightarrow> if secs < 0 then None else Some (i64 (secs * second))
      | None \<Rightarrow>
          (case httpdate v of
             Some t \<Rightarrow> if 0 < time_sub t now then Some (time_sub t now) else Some 0
           | None \<Rightarrow> None))"

text \<open>None: do not retry.\<close>

definition backoffFor ::
    "(string \<Rightarrow> instant option) \<Rightarrow> instant \<Rightarrow> int \<Rightarrow> rt_out \<Rightarrow> duration \<Rightarrow> duration \<Rightarrow> duration option" where
  "backoffFor httpdate now rnd out delay maxDelay =
     (let computed = (if delay \<le> 0 then Some 0
                      else let half = delay div 2 in Some (half + rnd mod (half + 1)))
      in case out of
           RtResp r \<Rightarrow>
             (case parseRetryAfter httpdate now (rp_retry_after r) of
                Some d \<Rightarrow> if 0 < maxDelay \<and> maxDelay < d then None else Some d
              | None \<Rightarrow> computed)
         | _ \<Rightarrow> computed)"

definition next_delay :: "retry_config \<Rightarrow> duration \<Rightarrow> duration" where
  "next_delay cfg delay =
     (if delay < rc_MaxDelay cfg
      then let d = i64 (delay * 2) in if rc_MaxDelay cfg < d then rc_MaxDelay cfg else d
      else delay)"

text \<open>The environment of one call.\<close>

record 'w rt_env =
  en_base :: "instant \<times> 'w \<Rightarrow> (instant \<times> 'w) \<times> rt_out"
  en_getBody :: "instant \<times> 'w \<Rightarrow> gerr option"
  en_httpdate :: "string \<Rightarrow> instant option"
  en_rnd :: "nat \<Rightarrow> int"
  en_ctx_done :: "instant option"
  en_ctx_err :: gerr
  en_tie :: "nat \<Rightarrow> bool"

text \<open>\<open>select\<close> on the timer and the context: None when the context wins, else the time after.\<close>

definition sleep :: "'w rt_env \<Rightarrow> nat \<Rightarrow> instant \<Rightarrow> duration \<Rightarrow> instant option" where
  "sleep env attempt now wait =
     (let timer = now + max 0 wait in
      case en_ctx_done env of
        None \<Rightarrow> Some timer
      | Some d \<Rightarrow>
          (let d' = max now d in
           if d' < timer \<or> d' = timer \<and> en_tie env attempt then None else Some timer))"

definition ctx_end :: "'w rt_env \<Rightarrow> instant \<Rightarrow> instant" where
  "ctx_end env now = (case en_ctx_done env of None \<Rightarrow> now | Some d \<Rightarrow> max now d)"

definition needs_body :: "retry_request \<Rightarrow> bool" where
  "needs_body req = (case rq_body req of HasBody _ \<Rightarrow> True | _ \<Rightarrow> False)"

function rt_loop ::
    "retry_config \<Rightarrow> 'w rt_env \<Rightarrow> retry_request \<Rightarrow> nat \<Rightarrow> duration \<Rightarrow> instant \<times> 'w \<Rightarrow>
     (instant \<times> 'w) \<times> rt_out \<times> rt_out list \<times> duration list" where
  "rt_loop cfg env req attempt delay w =
     (case (if 0 < attempt \<and> needs_body req then en_getBody env w else None) of
        Some err \<Rightarrow> (w, RtErr err, [], [])
      | None \<Rightarrow>
          (let (w1, out) = en_base env w in
           if rc_MaxRetries cfg \<le> int attempt \<or> \<not> retryable out then (w1, out, [out], [])
           else case backoffFor (en_httpdate env) (fst w1) (en_rnd env attempt) out delay (rc_MaxDelay cfg) of
                  None \<Rightarrow> (w1, out, [out], [])
                | Some wait \<Rightarrow>
                    (case sleep env attempt (fst w1) wait of
                       None \<Rightarrow> ((ctx_end env (fst w1), snd w1), RtErr (en_ctx_err env), [out], [])
                     | Some t \<Rightarrow>
                         (let (w2, r, outs, waits) =
                            rt_loop cfg env req (Suc attempt) (next_delay cfg delay) (t, snd w1)
                          in (w2, r, out # outs, wait # waits)))))"
  by pat_completeness auto
termination
  by (relation "measure (\<lambda>(cfg, env, req, attempt, delay, w). nat (rc_MaxRetries cfg - int attempt))") auto

declare rt_loop.simps [simp del]

definition RoundTrip ::
    "retry_config \<Rightarrow> 'w rt_env \<Rightarrow> retry_request \<Rightarrow> instant \<times> 'w \<Rightarrow>
     (instant \<times> 'w) \<times> rt_out \<times> rt_out list \<times> duration list" where
  "RoundTrip cfg env req w =
     (if rc_MaxRetries cfg \<le> 0 \<or> \<not> idempotentMethod (rq_method req) \<or> \<not> replayable req
      then (let (w1, out) = en_base env w in (w1, out, [out], []))
      else rt_loop cfg env req 0 (rc_BaseDelay cfg) w)"

section \<open>Lemmas\<close>

lemma sleep_None: "sleep env a n w = None \<Longrightarrow> en_ctx_done env \<noteq> None"
  by (cases "en_ctx_done env") (simp_all add: sleep_def)

text \<open>The outcome of one pass through the loop, for proofs.\<close>

lemma rt_loop_cases [consumes 1, case_names body last ctx again]:
  assumes "rt_loop cfg env req attempt delay w = (w', r, outs, waits)"
  obtains err where "r = RtErr err" "outs = []" "waits = []" "w' = w" "0 < attempt"
  | "en_base env w = (w', r)" "outs = [r]" "waits = []"
      "rc_MaxRetries cfg \<le> int attempt \<or> \<not> retryable r \<or>
       backoffFor (en_httpdate env) (fst w') (en_rnd env attempt) r delay (rc_MaxDelay cfg) = None"
  | w1 out where "en_base env w = (w1, out)" "r = RtErr (en_ctx_err env)" "outs = [out]" "waits = []"
      "int attempt < rc_MaxRetries cfg" "retryable out" "en_ctx_done env \<noteq> None" "snd w' = snd w1"
  | w1 out wait t outs' waits' where "en_base env w = (w1, out)" "int attempt < rc_MaxRetries cfg" "retryable out"
      "backoffFor (en_httpdate env) (fst w1) (en_rnd env attempt) out delay (rc_MaxDelay cfg) = Some wait"
      "sleep env attempt (fst w1) wait = Some t"
      "rt_loop cfg env req (Suc attempt) (next_delay cfg delay) (t, snd w1) = (w', r, outs', waits')"
      "outs = out # outs'" "waits = wait # waits'"
proof -
  obtain w1 out where b: "en_base env w = (w1, out)" by fastforce
  note eq = assms [unfolded rt_loop.simps [of cfg env req attempt delay w] b Let_def prod.case]
  show ?thesis
  proof (cases "if 0 < attempt \<and> needs_body req then en_getBody env w else None")
    case (Some err)
    with eq that(1) show ?thesis by (auto split: if_splits)
  next
    case None
    show ?thesis
    proof (cases "rc_MaxRetries cfg \<le> int attempt \<or> \<not> retryable out")
      case True
      with eq None b that(2) show ?thesis by auto
    next
      case False
      show ?thesis
      proof (cases "backoffFor (en_httpdate env) (fst w1) (en_rnd env attempt) out delay (rc_MaxDelay cfg)")
        case N: None
        with eq None False b that(2) show ?thesis by auto
      next
        case (Some wait)
        show ?thesis
        proof (cases "sleep env attempt (fst w1) wait")
          case N: None
          then have "en_ctx_done env \<noteq> None" by (rule sleep_None)
          with N eq None False Some b that(3) show ?thesis by auto
        next
          case S: (Some t)
          obtain w2 r2 outs' waits' where rec:
            "rt_loop cfg env req (Suc attempt) (next_delay cfg delay) (t, snd w1) = (w2, r2, outs', waits')"
            by (metis prod_cases4)
          with eq None False Some S have "w2 = w'" "r2 = r" "outs = out # outs'" "waits = wait # waits'"
            by simp_all
          with rec b False Some S show ?thesis by (intro that(4)) simp_all
        qed
      qed
    qed
  qed
qed

lemma rt_loop_attempts:
  "rt_loop cfg env req attempt delay w = (w', r, outs, waits) \<Longrightarrow>
   int attempt \<le> rc_MaxRetries cfg \<Longrightarrow>
   int (length outs) + int attempt \<le> rc_MaxRetries cfg + 1 \<and>
   (\<forall>o'\<in>set (butlast outs). retryable o') \<and> length waits \<le> length outs \<and>
   (outs \<noteq> [] \<and> r = last outs \<or> (\<exists>e. r = RtErr e))"
proof (induction "nat (rc_MaxRetries cfg - int attempt)" arbitrary: attempt delay w w' r outs waits rule: less_induct)
  case less
  from less.prems(1) show ?case
  proof (cases rule: rt_loop_cases)
    case (again w1 out wait t outs' waits')
    from less.hyps [OF _ again(6)] again(2) have "int (length outs') + int (Suc attempt) \<le> rc_MaxRetries cfg + 1 \<and>
      (\<forall>o'\<in>set (butlast outs'). retryable o') \<and> length waits' \<le> length outs' \<and>
      (outs' \<noteq> [] \<and> r = last outs' \<or> (\<exists>e. r = RtErr e))"
      by simp
    with again show ?thesis by auto
  qed (use less.prems(2) in auto)
qed

text \<open>A header whose number of seconds is a duration.\<close>

definition tame :: "string \<Rightarrow> bool" where
  "tame v \<longleftrightarrow> (\<forall>secs. atoi (trim_space v) = Some secs \<longrightarrow> secs * second \<le> max_i64)"

lemma computed_backoff:
  fixes delay :: int
  assumes "0 < delay"
  shows "delay div 2 + x mod (delay div 2 + 1) \<le> delay" "0 \<le> delay div 2 + x mod (delay div 2 + 1)"
proof -
  have "0 \<le> delay div 2" using assms by simp
  then have "0 \<le> x mod (delay div 2 + 1)" "x mod (delay div 2 + 1) < delay div 2 + 1"
    by (intro pos_mod_sign pos_mod_bound; linarith)+
  moreover have "delay div 2 * 2 \<le> delay" by simp
  ultimately show "delay div 2 + x mod (delay div 2 + 1) \<le> delay" "0 \<le> delay div 2 + x mod (delay div 2 + 1)"
    using \<open>0 \<le> delay div 2\<close> by linarith+
qed

lemma parseRetryAfter_tame:
  assumes "tame v" "parseRetryAfter httpdate now v = Some d"
  shows "0 \<le> d"
proof (cases "atoi (trim_space v)")
  case None
  with assms(2) show ?thesis by (auto simp: parseRetryAfter_def Let_def split: if_splits option.splits)
next
  case (Some secs)
  with assms have "0 \<le> secs" "d = i64 (secs * second)" "secs * second \<le> max_i64"
    by (auto simp: parseRetryAfter_def Let_def tame_def split: if_splits)
  moreover have "min_i64 \<le> secs * second" using \<open>0 \<le> secs\<close> by (simp add: min_i64_def second_def)
  ultimately show ?thesis by (simp add: i64_id second_def)
qed

lemma backoffFor_bounded:
  assumes "backoffFor httpdate now x out delay maxDelay = Some wait" "delay \<le> maxDelay" "0 < maxDelay"
    and "\<And>r. out = RtResp r \<Longrightarrow> tame (rp_retry_after r)"
  shows "0 \<le> wait \<and> wait \<le> maxDelay"
proof -
  have comp: "0 \<le> c \<and> c \<le> maxDelay"
    if "(if delay \<le> 0 then Some 0 else let half = delay div 2 in Some (half + x mod (half + 1))) = Some c" for c
  proof (cases "delay \<le> 0")
    case False
    with that computed_backoff [of delay x] assms(2) show ?thesis by (auto simp: Let_def)
  qed (use that assms(3) in simp)
  show ?thesis
  proof (cases out)
    case (RtResp r)
    show ?thesis
    proof (cases "parseRetryAfter httpdate now (rp_retry_after r)")
      case None
      with assms(1) RtResp comp show ?thesis by (simp add: backoffFor_def Let_def)
    next
      case (Some d)
      with parseRetryAfter_tame [OF assms(4) [OF RtResp]] have "0 \<le> d" by blast
      with assms(1,3) RtResp Some show ?thesis by (simp add: backoffFor_def Let_def split: if_splits)
    qed
  qed (use assms(1) comp in \<open>simp_all add: backoffFor_def Let_def\<close>)
qed

lemma next_delay_le: "delay \<le> rc_MaxDelay cfg \<Longrightarrow> next_delay cfg delay \<le> rc_MaxDelay cfg"
  by (auto simp: next_delay_def Let_def)

lemma rt_loop_waits:
  assumes "0 < rc_MaxDelay cfg" and tame: "\<And>w w' r. en_base env w = (w', RtResp r) \<Longrightarrow> tame (rp_retry_after r)"
  shows "rt_loop cfg env req attempt delay w = (w', r, outs, waits) \<Longrightarrow> delay \<le> rc_MaxDelay cfg \<Longrightarrow>
    \<forall>x\<in>set waits. 0 \<le> x \<and> x \<le> rc_MaxDelay cfg"
proof (induction "nat (rc_MaxRetries cfg - int attempt)" arbitrary: attempt delay w w' r outs waits rule: less_induct)
  case less
  from less.prems(1) show ?case
  proof (cases rule: rt_loop_cases)
    case (again w1 out wait t outs' waits')
    from less.hyps [OF _ again(6) next_delay_le [OF less.prems(2)]] again(2)
    have "\<forall>x\<in>set waits'. 0 \<le> x \<and> x \<le> rc_MaxDelay cfg" by simp
    moreover have "0 \<le> wait \<and> wait \<le> rc_MaxDelay cfg"
      by (rule backoffFor_bounded [OF again(4) less.prems(2) assms(1)]) (use again(1) tame in blast)
    ultimately show ?thesis using again(8) by simp
  qed simp_all
qed

lemma round_trip_attempts:
  assumes "RoundTrip cfg env req w = (w', r, outs, waits)"
  shows "(\<not> idempotentMethod (rq_method req) \<or> \<not> replayable req \<longrightarrow>
      en_base env w = (w', r) \<and> outs = [r] \<and> waits = []) \<and>
    int (length outs) \<le> max 0 (rc_MaxRetries cfg) + 1 \<and>
    (\<forall>o'\<in>set (butlast outs). retryable o') \<and>
    (outs \<noteq> [] \<and> r = last outs \<or> (\<exists>e. r = RtErr e))"
proof (cases "rc_MaxRetries cfg \<le> 0 \<or> \<not> idempotentMethod (rq_method req) \<or> \<not> replayable req")
  case True
  with assms show ?thesis by (auto simp: RoundTrip_def split: prod.splits)
next
  case False
  with assms have "rt_loop cfg env req 0 (rc_BaseDelay cfg) w = (w', r, outs, waits)"
    by (simp add: RoundTrip_def)
  from rt_loop_attempts [OF this] False show ?thesis by auto
qed

text \<open>Every outcome is one request on the base transport.\<close>

lemma rt_loop_count:
  assumes "\<And>w. cnt (snd (fst (en_base env w))) = Suc (cnt (snd w))"
  shows "rt_loop cfg env req attempt delay w = (w', r, outs, waits) \<Longrightarrow> cnt (snd w') = cnt (snd w) + length outs"
proof (induction "nat (rc_MaxRetries cfg - int attempt)" arbitrary: attempt delay w w' r outs waits rule: less_induct)
  case less
  note one = assms [of w]
  from less.prems(1) show ?case
  proof (cases rule: rt_loop_cases)
    case (again w1 out wait t outs' waits')
    from less.hyps [OF _ again(6)] again(1,2,7) one show ?thesis by simp
  qed (use one in simp_all)
qed

lemma RoundTrip_count:
  assumes "\<And>w. cnt (snd (fst (en_base env w))) = Suc (cnt (snd w))" and "RoundTrip cfg env req w = (w', r, outs, waits)"
  shows "cnt (snd w') = cnt (snd w) + length outs"
  using assms(2) rt_loop_count [of cnt env, OF assms(1)] assms(1) [of w]
  by (auto simp: RoundTrip_def split: if_splits prod.splits)

section \<open>Properties\<close>

text \<open>
  C10: retries are safe: a request that is not idempotent, or whose body cannot be replayed, is
  issued exactly once and its outcome returned; any other at most MaxRetries + 1 times, again only
  after an outcome worth retrying; and what is returned is the last outcome, or an error (of the
  context or of GetBody).
\<close>

theorem retries_safe:
  assumes "RoundTrip cfg env req w = (w', r, outs, waits)"
  shows "(\<not> idempotentMethod (rq_method req) \<or> \<not> replayable req \<longrightarrow>
      en_base env w = (w', r) \<and> outs = [r] \<and> waits = []) \<and>
    int (length outs) \<le> max 0 (rc_MaxRetries cfg) + 1 \<and>
    (\<forall>o'\<in>set (butlast outs). retryable o') \<and>
    (outs \<noteq> [] \<and> r = last outs \<or> (\<exists>e. r = RtErr e))"
  by (rule round_trip_attempts [OF assms])

definition demo_env :: "rt_out \<Rightarrow> unit rt_env" where
  "demo_env out = \<lparr>en_base = (\<lambda>w. (w, out)), en_getBody = (\<lambda>w. None), en_httpdate = (\<lambda>s. None),
     en_rnd = (\<lambda>n. 0), en_ctx_done = None, en_ctx_err = Sentinel ctx_canceled, en_tie = (\<lambda>n. True)\<rparr>"

theorem retries_safe_witness:
  "\<exists>w' r outs waits. RoundTrip DefaultRetryConfig (demo_env (RtErr (Text ''reset'')))
     \<lparr>rq_method = ''POST'', rq_body = HasBody True\<rparr> (0, ()) = (w', r, outs, waits) \<and> outs = [r]"
proof -
  obtain w' r outs waits where run: "RoundTrip DefaultRetryConfig (demo_env (RtErr (Text ''reset'')))
     \<lparr>rq_method = ''POST'', rq_body = HasBody True\<rparr> (0, ()) = (w', r, outs, waits)"
    by (metis prod_cases4)
  from retries_safe [OF this] have "outs = [r]" by (simp add: idempotentMethod_def)
  with run show ?thesis by blast
qed

text \<open>
  With a BaseDelay within MaxDelay, and Retry-After numbers that fit a duration, no wait
  between two attempts is longer than MaxDelay, nor negative, whatever the upstream sends.
\<close>

theorem waits_bounded:
  assumes "RoundTrip cfg env req w = (w', r, outs, waits)"
    and "0 < rc_MaxDelay cfg" and "rc_BaseDelay cfg \<le> rc_MaxDelay cfg"
    and "\<And>w w' r. en_base env w = (w', RtResp r) \<Longrightarrow> tame (rp_retry_after r)"
  shows "\<forall>x\<in>set waits. 0 \<le> x \<and> x \<le> rc_MaxDelay cfg"
proof (cases "rc_MaxRetries cfg \<le> 0 \<or> \<not> idempotentMethod (rq_method req) \<or> \<not> replayable req")
  case True
  with assms(1) show ?thesis by (auto simp: RoundTrip_def split: prod.splits)
next
  case False
  with assms(1) have "rt_loop cfg env req 0 (rc_BaseDelay cfg) w = (w', r, outs, waits)"
    by (simp add: RoundTrip_def)
  show ?thesis
    by (rule rt_loop_waits [OF assms(2) _ \<open>rt_loop cfg env req 0 (rc_BaseDelay cfg) w = (w', r, outs, waits)\<close> assms(3)])
       (rule assms(4))
qed

definition busy :: "string \<Rightarrow> response" where
  "busy after = \<lparr>rp_status = 503, rp_retry_after = after, rp_content_type = [], rp_body = [], rp_broken = None\<rparr>"

lemma seconds_1: "trim_space ''1'' = ''1''" "atoi ''1'' = Some 1"
  by code_simp+

theorem waits_bounded_witness:
  "\<exists>w' r outs waits. RoundTrip DefaultRetryConfig (demo_env (RtResp (busy ''1'')))
     \<lparr>rq_method = ''GET'', rq_body = NilBody\<rparr> (0, ()) = (w', r, outs, waits) \<and>
     (\<forall>x\<in>set waits. x \<le> 2 * second)"
proof -
  obtain w' r outs waits where run: "RoundTrip DefaultRetryConfig (demo_env (RtResp (busy ''1'')))
     \<lparr>rq_method = ''GET'', rq_body = NilBody\<rparr> (0, ()) = (w', r, outs, waits)"
    by (metis prod_cases4)
  have "\<forall>x\<in>set waits. 0 \<le> x \<and> x \<le> rc_MaxDelay DefaultRetryConfig"
    by (rule waits_bounded [OF run])
       (auto simp: DefaultRetryConfig_def second_def millisecond_def demo_env_def busy_def tame_def
          seconds_1 max_i64_def)
  then have "\<forall>x\<in>set waits. x \<le> 2 * second" by (simp add: DefaultRetryConfig_def)
  with run show ?thesis by blast
qed

lemma seconds_wrap: "trim_space ''9223372037'' = ''9223372037''" "trim_space ''18446744074'' = ''18446744074''"
  by code_simp+

lemma seconds_wrap_num: "atoi ''9223372037'' = Some 9223372037" "atoi ''18446744074'' = Some 18446744074"
  by (simp_all add: atoi_def atoi_digits_def is_digit_def num_of_def digit_val_def in_i64_def
      min_i64_def max_i64_def)

text \<open>
  A Retry-After of more seconds than a Duration holds is not caught by the MaxDelay guard: the
  product with time.Second wraps, so a server asking for 292 years is retried at once (the wait is
  negative), and one asking for 584 years after 0.29 seconds, under a cap of two seconds.
\<close>

theorem retry_after_wraps:
  "backoffFor httpdate now x (RtResp (busy ''9223372037'')) delay (2 * second) = Some (- 9223372036709551616) \<and>
   backoffFor httpdate now x (RtResp (busy ''18446744074'')) delay (2 * second) = Some 290448384"
  by (simp add: backoffFor_def parseRetryAfter_def busy_def seconds_wrap seconds_wrap_num Let_def i64_def second_def)

end
