(* ===== verification/Fault.thy ===== *)
theory Fault
  imports GoErr Retry
begin

text \<open>
  errs/errs.go, httpc/errors.go and httpc/fault.go: the sentinels and the classification of an
  error by what the caller should do about it; from httpc/client.go and httpc/http.go the ways a
  status becomes an \<open>APIError\<close>, and the redaction of URLs, whose parser \<open>url.Parse\<close> and
  printer \<open>URL.String\<close> are parameters.
\<close>

definition ErrNotFound :: string where "ErrNotFound = ''not found''"
definition ErrInvalidInput :: string where "ErrInvalidInput = ''invalid input''"
definition ErrConflict :: string where "ErrConflict = ''conflict''"
definition ErrAlreadyExists :: string where "ErrAlreadyExists = ''already exists''"

section \<open>Faults\<close>

datatype fault_kind =
    FaultNone | FaultAuth | FaultNotFound | FaultConflict | FaultRateLimited | FaultUnavailable
  | FaultUnsupported | FaultUnknown

definition Retryable :: "fault_kind \<Rightarrow> bool" where
  "Retryable f = (f = FaultRateLimited \<or> f = FaultUnavailable)"

definition AdminActionable :: "fault_kind \<Rightarrow> bool" where
  "AdminActionable f = (f = FaultAuth \<or> f = FaultConflict)"

datatype log_level = LevelDebug | LevelInfo | LevelWarn | LevelError

definition fault_LogLevel :: "fault_kind \<Rightarrow> log_level" where
  "fault_LogLevel f = (if AdminActionable f then LevelWarn else LevelDebug)"

definition faultForStatus :: "int \<Rightarrow> fault_kind" where
  "faultForStatus st =
     (if st = 401 \<or> st = 403 then FaultAuth
      else if st = 404 then FaultNotFound
      else if st = 409 then FaultConflict
      else if st = 429 then FaultRateLimited
      else if st = 405 \<or> st = 501 then FaultUnsupported
      else if st \<ge> 500 then FaultUnavailable
      else FaultUnknown)"

definition Classify :: "gerr option \<Rightarrow> fault_kind" where
  "Classify err =
     (case err of
        None \<Rightarrow> FaultNone
      | Some e \<Rightarrow>
          if errors_is e ErrNotFound then FaultNotFound
          else if errors_is e ErrAlreadyExists then FaultConflict
          else case errors_as as_api e of
            Some (svc, st, b) \<Rightarrow> faultForStatus st
          | None \<Rightarrow>
              if errors_is e ctx_canceled \<or> errors_is e ctx_deadline then FaultUnavailable
              else case errors_as as_net e of
                Some _ \<Rightarrow> FaultUnavailable
              | None \<Rightarrow> FaultUnknown)"

definition IsConflict :: "gerr option \<Rightarrow> bool" where
  "IsConflict err =
     (case err of
        None \<Rightarrow> False
      | Some e \<Rightarrow> (case errors_as as_api e of Some (svc, st, b) \<Rightarrow> st = 409 | None \<Rightarrow> False))"

section \<open>Status errors\<close>

definition errorBodyLimit :: nat where "errorBodyLimit = 8192"
definition MaxResponseBytes :: int where "MaxResponseBytes = 8388608"

definition newAPIError :: "string \<Rightarrow> int \<Rightarrow> string \<Rightarrow> gerr" where
  "newAPIError service status body = ApiErr service status body"

definition api_error_text :: "string \<Rightarrow> int \<Rightarrow> string \<Rightarrow> string" where
  "api_error_text service status body =
     (if body = [] then service @ '' API '' @ itoa status
      else service @ '' API '' @ itoa status @ '': '' @ body)"

text \<open>\<open>io.ReadAll(io.LimitReader(r, n))\<close>: what was read, and the error met on the way.\<close>

definition read_limited :: "nat \<Rightarrow> response \<Rightarrow> string \<times> gerr option" where
  "read_limited n r =
     (if n \<le> length (rp_body r) then (take n (rp_body r), None) else (rp_body r, rp_broken r))"

definition ReadAllLimited :: "response \<Rightarrow> int \<Rightarrow> gerr + string" where
  "ReadAllLimited r limit0 =
     (let limit = (if limit0 \<le> 0 then MaxResponseBytes else limit0);
          (data, err) = read_limited (nat (limit + 1)) r
      in case err of
           Some e \<Rightarrow> Inl e
         | None \<Rightarrow>
             if int (length data) > limit
             then Inl (Text (''response exceeds '' @ itoa limit @ ''-byte limit''))
             else Inr data)"

definition CheckStatus :: "string \<Rightarrow> response option \<Rightarrow> gerr option" where
  "CheckStatus service resp =
     (case resp of
        None \<Rightarrow> Some (Text (service @ '': no response''))
      | Some r \<Rightarrow>
          if rp_status r \<ge> 200 \<and> rp_status r < 300 then None
          else Some (newAPIError service (rp_status r)
                 (case ReadAllLimited r (int errorBodyLimit) of Inl _ \<Rightarrow> [] | Inr data \<Rightarrow> data)))"

definition StatusError :: "string \<Rightarrow> int \<Rightarrow> gerr" where
  "StatusError service status = newAPIError service status []"

section \<open>Redaction\<close>

record url =
  u_Scheme :: string
  u_User :: "string option"
  u_Host :: string
  u_Hostname :: string
  u_Path :: string
  u_RawQuery :: string
  u_Fragment :: string

definition RedactURL :: "(string \<Rightarrow> url option) \<Rightarrow> (url \<Rightarrow> string) \<Rightarrow> string \<Rightarrow> string" where
  "RedactURL parse str raw =
     (case parse raw of
        None \<Rightarrow> []
      | Some u \<Rightarrow> str (u\<lparr>u_RawQuery := [], u_Fragment := [], u_User := None\<rparr>))"

definition Redact :: "(string \<Rightarrow> url option) \<Rightarrow> (url \<Rightarrow> string) \<Rightarrow> gerr \<Rightarrow> gerr" where
  "Redact parse str err =
     (case errors_as as_url err of
        None \<Rightarrow> err
      | Some (op, u, e) \<Rightarrow> UrlErr op (RedactURL parse str u) e)"

section \<open>Lemmas\<close>

lemma as_wrap [simp]:
  "errors_as as_api (Wrap pre e post) = errors_as as_api e"
  "errors_as as_net (Wrap pre e post) = errors_as as_net e"
  "errors_as as_url (Wrap pre e post) = errors_as as_url e"
  "errors_as as_fiber (Wrap pre e post) = errors_as as_fiber e"
  "errors_as as_env (Wrap pre e post) = errors_as as_env e"
  by simp_all

lemma as_api_url [simp]: "errors_as as_api (UrlErr op u e) = errors_as as_api e"
  by (simp add: errors_as_def)

lemma read_limited_length: "length (fst (read_limited n r)) \<le> n"
  by (simp add: read_limited_def)

lemma ReadAllLimited_complete:
  "ReadAllLimited r limit = Inr data \<Longrightarrow>
   data = rp_body r \<and> rp_broken r = None \<and> int (length data) \<le> (if limit \<le> 0 then MaxResponseBytes else limit)"
  by (auto simp: ReadAllLimited_def read_limited_def Let_def MaxResponseBytes_def split: if_splits option.splits)

section \<open>Properties\<close>

lemma classify_wrap: "Classify (Some (Wrap pre e post)) = Classify (Some e)"
  by (simp add: Classify_def split: option.split)

lemma classify_url:
  "errors_as as_api e \<noteq> None \<or> errors_is e ErrNotFound \<or> errors_is e ErrAlreadyExists \<Longrightarrow>
   Classify (Some (UrlErr op u e)) = Classify (Some e)"
  by (auto simp: Classify_def)

text \<open>
  The classification reads through context: an error classifies the same however often it is
  wrapped, and also inside a url.Error when it carries a status or a sentinel; and what an operator
  must fix is never retried.
\<close>

theorem classify_through_context:
  "Classify (Some (fold (\<lambda>(pre, post) e. Wrap pre e post) ctxs e)) = Classify (Some e) \<and>
   (errors_as as_api e \<noteq> None \<or> errors_is e ErrNotFound \<or> errors_is e ErrAlreadyExists \<longrightarrow>
      Classify (Some (UrlErr op u e)) = Classify (Some e)) \<and>
   (AdminActionable (Classify err) \<longrightarrow> \<not> Retryable (Classify err))"
proof (intro conjI)
  show "Classify (Some (fold (\<lambda>(pre, post) e. Wrap pre e post) ctxs e)) = Classify (Some e)"
    by (induction ctxs arbitrary: e) (auto simp: classify_wrap)
qed (auto simp: classify_url AdminActionable_def Retryable_def)

theorem classify_through_context_witness:
  "Classify (Some (Wrap ''sync: '' (UrlErr ''Get'' ''http://x'' (ApiErr ''svc'' 401 [])) [])) = FaultAuth \<and>
   \<not> Retryable FaultAuth"
proof -
  have "Classify (Some (ApiErr ''svc'' 401 [])) = FaultAuth"
    by (simp add: Classify_def faultForStatus_def)
  then have "Classify (Some (UrlErr ''Get'' ''http://x'' (ApiErr ''svc'' 401 []))) = FaultAuth"
    using classify_through_context [of "[]" "ApiErr ''svc'' 401 []" "''Get''" "''http://x''" None] by simp
  then show ?thesis
    using classify_through_context [of "[(''sync: '', [])]" "UrlErr ''Get'' ''http://x'' (ApiErr ''svc'' 401 [])" "[]" "[]"
        "Some (ApiErr ''svc'' 401 [])"]
    by (simp add: AdminActionable_def Retryable_def)
qed

text \<open>
  What the three ways of turning a status into an error keep of the body: \<open>CheckStatus\<close>
  keeps a body of at most 8 KiB whole and none of a longer one, of which \<open>send\<close> keeps the first
  8 KiB; all give the same service and status, and a 2xx is no error.
\<close>

theorem status_bodies:
  "(rp_status r \<ge> 200 \<and> rp_status r < 300 \<longrightarrow> CheckStatus svc (Some r) = None) \<and>
   (\<not> (rp_status r \<ge> 200 \<and> rp_status r < 300) \<longrightarrow>
      CheckStatus svc (Some r) = Some (newAPIError svc (rp_status r)
        (if length (rp_body r) \<le> errorBodyLimit \<and> rp_broken r = None then rp_body r else [])) \<and>
      fst (read_limited errorBodyLimit r) = take errorBodyLimit (rp_body r))"
  by (auto simp: CheckStatus_def ReadAllLimited_def read_limited_def errorBodyLimit_def Let_def
      split: option.split)

theorem status_bodies_witness:
  "CheckStatus ''svc'' (Some \<lparr>rp_status = 500, rp_retry_after = [], rp_content_type = [],
     rp_body = replicate 8193 CHR ''x'', rp_broken = None\<rparr>) = Some (ApiErr ''svc'' 500 [])"
  using status_bodies [of "\<lparr>rp_status = 500, rp_retry_after = [], rp_content_type = [],
     rp_body = replicate 8193 CHR ''x'', rp_broken = None\<rparr>" "''svc''"]
  by (simp add: errorBodyLimit_def newAPIError_def)

end
