(* ===== verification/DebugRing.thy ===== *)
theory DebugRing
  imports Prelude
begin

text \<open>
  httpc/debug.go: the ring of the last outbound calls. A slot not yet written is the zero entry.
\<close>

record debug_entry =
  de_Time :: instant
  de_Method :: string
  de_URL :: string
  de_StatusCode :: int
  de_DurationMs :: int
  de_Error :: string

definition zero_entry :: debug_entry where
  "zero_entry = \<lparr>de_Time = 0, de_Method = [], de_URL = [], de_StatusCode = 0, de_DurationMs = 0, de_Error = []\<rparr>"

record ring =
  dr_entries :: "debug_entry list"
  dr_cap :: nat
  dr_cursor :: nat
  dr_full :: bool

definition NewDebugRing :: "int \<Rightarrow> ring" where
  "NewDebugRing cap0 =
     (let cap = (if cap0 \<le> 0 then 50 else nat cap0)
      in \<lparr>dr_entries = replicate cap zero_entry, dr_cap = cap, dr_cursor = 0, dr_full = False\<rparr>)"

definition ring_Push :: "debug_entry \<Rightarrow> ring \<Rightarrow> ring" where
  "ring_Push e r =
     (let cursor = Suc (dr_cursor r) mod dr_cap r
      in r\<lparr>dr_entries := (dr_entries r)[dr_cursor r := e], dr_cursor := cursor,
           dr_full := dr_full r \<or> cursor = 0\<rparr>)"

definition Entries :: "ring \<Rightarrow> debug_entry list" where
  "Entries r =
     (if \<not> dr_full r then take (dr_cursor r) (dr_entries r)
      else drop (dr_cursor r) (dr_entries r) @ take (dr_cursor r) (dr_entries r))"

text \<open>The invariant, with the history of everything pushed.\<close>

definition ring_ok :: "debug_entry list \<Rightarrow> ring \<Rightarrow> bool" where
  "ring_ok es r \<longleftrightarrow> 0 < dr_cap r \<and> length (dr_entries r) = dr_cap r \<and> dr_cursor r < dr_cap r \<and>
     (if dr_full r then dr_cap r \<le> length es else dr_cursor r = length es) \<and>
     Entries r = drop (length es - dr_cap r) es"

lemma Entries_push_full:
  assumes "dr_full r" "length (dr_entries r) = dr_cap r" "dr_cursor r < dr_cap r"
  shows "Entries (ring_Push e r) = tl (Entries r) @ [e]"
proof -
  let ?xs = "dr_entries r" and ?c = "dr_cursor r"
  have c: "?c < length ?xs" using assms by simp
  have d: "drop ?c ?xs = ?xs ! ?c # drop (Suc ?c) ?xs" using c by (rule Cons_nth_drop_Suc [symmetric])
  show ?thesis
  proof (cases "Suc ?c = dr_cap r")
    case True
    with assms c have "drop (Suc ?c) ?xs = []" by simp
    moreover have "?xs[?c := e] = take ?c ?xs @ [e]"
      using c True assms(2) by (simp add: upd_conv_take_nth_drop)
    ultimately show ?thesis using assms(1) True d by (simp add: Entries_def ring_Push_def Let_def)
  next
    case False
    with assms(3) have "Suc ?c < dr_cap r" by simp
    then have "Suc ?c mod dr_cap r = Suc ?c" by simp
    moreover have "drop (Suc ?c) (?xs[?c := e]) = drop (Suc ?c) ?xs" by simp
    moreover have "take (Suc ?c) (?xs[?c := e]) = take ?c ?xs @ [e]"
      using c by (simp add: take_Suc_conv_app_nth)
    ultimately show ?thesis using assms(1) d by (simp add: Entries_def ring_Push_def Let_def)
  qed
qed

lemma Entries_push_open:
  assumes "\<not> dr_full r" "length (dr_entries r) = dr_cap r" "dr_cursor r < dr_cap r"
  shows "Entries (ring_Push e r) = Entries r @ [e]"
proof -
  let ?xs = "dr_entries r" and ?c = "dr_cursor r"
  have c: "?c < length ?xs" using assms by simp
  have t: "take (Suc ?c) (?xs[?c := e]) = take ?c ?xs @ [e]"
    using c by (simp add: take_Suc_conv_app_nth)
  show ?thesis
  proof (cases "Suc ?c = dr_cap r")
    case True
    with t assms have "?xs[?c := e] = take ?c ?xs @ [e]" by simp
    with True assms(1) show ?thesis by (simp add: Entries_def ring_Push_def Let_def)
  next
    case False
    with assms(3) have "Suc ?c < dr_cap r" by simp
    with t assms(1) show ?thesis by (simp add: Entries_def ring_Push_def Let_def)
  qed
qed

lemma ring_ok_push: "ring_ok es r \<Longrightarrow> ring_ok (es @ [e]) (ring_Push e r)"
proof -
  assume ok: "ring_ok es r"
  then have w: "0 < dr_cap r" "length (dr_entries r) = dr_cap r" "dr_cursor r < dr_cap r"
    by (simp_all add: ring_ok_def)
  have w': "dr_cap (ring_Push e r) = dr_cap r" "length (dr_entries (ring_Push e r)) = dr_cap r"
    "dr_cursor (ring_Push e r) < dr_cap r"
    using w by (simp_all add: ring_Push_def Let_def)
  have ent: "Entries r = drop (length es - dr_cap r) es" using ok by (simp add: ring_ok_def)
  show ?thesis
  proof (cases "dr_full r")
    case True
    then have len: "dr_cap r \<le> length es" using ok by (simp add: ring_ok_def)
    have "tl (drop (length es - dr_cap r) es) = drop (Suc (length es) - dr_cap r) es"
      using len by (simp add: drop_Suc tl_drop Suc_diff_le)
    with Entries_push_full [OF True w(2,3)] len w(1) have
      "Entries (ring_Push e r) = drop (length (es @ [e]) - dr_cap r) (es @ [e])"
      by (simp add: ent)
    moreover have "dr_full (ring_Push e r)" using True by (simp add: ring_Push_def Let_def)
    ultimately show ?thesis using w w' len by (simp add: ring_ok_def)
  next
    case False
    then have len: "dr_cursor r = length es" using ok by (simp add: ring_ok_def)
    have "Entries (ring_Push e r) = drop (length (es @ [e]) - dr_cap r) (es @ [e])"
      using Entries_push_open [OF False w(2,3)] len w(3) by (simp add: ent)
    moreover have "if dr_full (ring_Push e r) then dr_cap r \<le> length (es @ [e])
        else dr_cursor (ring_Push e r) = length (es @ [e])"
    proof (cases "Suc (dr_cursor r) = dr_cap r")
      case True
      then show ?thesis using len by (simp add: ring_Push_def Let_def)
    next
      case neq: False
      with w(3) have "Suc (dr_cursor r) mod dr_cap r = Suc (length es)" using len by simp
      with False show ?thesis by (simp add: ring_Push_def Let_def)
    qed
    ultimately show ?thesis using w w' by (simp add: ring_ok_def split: if_splits)
  qed
qed

lemma ring_ok_new: "ring_ok [] (NewDebugRing cap)"
  by (simp add: ring_ok_def NewDebugRing_def Entries_def Let_def)

lemma ring_ok_pushes: "ring_ok es r \<Longrightarrow> ring_ok (es @ new) (fold ring_Push new r)"
proof (induction new arbitrary: es r)
  case (Cons e new)
  from Cons.IH [OF ring_ok_push [OF Cons.prems, of e]] show ?case by simp
qed simp

lemma dr_cap_pushes: "dr_cap (fold ring_Push es r) = dr_cap r"
  by (induction es arbitrary: r) (simp_all add: ring_Push_def Let_def)

section \<open>Properties\<close>

text \<open>
  After any number of pushes the ring lists exactly the last of them, as many as its capacity,
  oldest first; a capacity of zero or less means fifty.
\<close>

theorem ring_last:
  "Entries (fold ring_Push es (NewDebugRing cap)) =
     drop (length es - (if cap \<le> 0 then 50 else nat cap)) es"
  using ring_ok_pushes [OF ring_ok_new, of es cap]
  by (simp add: ring_ok_def dr_cap_pushes) (simp add: NewDebugRing_def Let_def)

end
