(* ===== verification/Httpc.thy ===== *)
theory Httpc
  imports Fault DebugRing
begin

text \<open>
  httpc/client.go, httpc/bytes.go and httpc/image.go: the caching token source and the JSON client.

  The world \<open>'w\<close> is everything outside: the client's \<open>http.Client\<close> is a function of the request
  and the world, a login likewise. A \<open>TokenSource\<close> is an interface: a function of the stale token
  and the world. \<open>lib\<close> collects what the code takes from elsewhere: the clock, the URL parser
  and printer, the text of an error, whether \<open>http.NewRequestWithContext\<close> accepts a method and
  URL, and the decoding of JSON into the caller's value.
\<close>

section \<open>Token sources\<close>

definition tokenRefreshMargin :: duration where "tokenRefreshMargin = minute"

record token_cache =
  tc_token :: string
  tc_expiresAt :: instant

definition new_token_cache :: token_cache where
  "new_token_cache = \<lparr>tc_token = [], tc_expiresAt = 0\<rparr>"

definition tc_expired :: "instant \<Rightarrow> token_cache \<Rightarrow> bool" where
  "tc_expired now c = (\<not> time_is_zero (tc_expiresAt c) \<and> \<not> now < tc_expiresAt c)"

definition setExpiry :: "instant \<Rightarrow> duration \<Rightarrow> token_cache \<Rightarrow> token_cache" where
  "setExpiry now ttl c =
     (if ttl \<le> 0 then c\<lparr>tc_expiresAt := 0\<rparr>
      else let ttl' = (if tokenRefreshMargin < ttl then ttl - tokenRefreshMargin else ttl)
           in c\<lparr>tc_expiresAt := now + ttl'\<rparr>)"

text \<open>One call, under the mutex: \<open>clk\<close> reads the clock, \<open>login\<close> is the LoginFunc.\<close>

definition Token ::
    "('w \<Rightarrow> instant) \<Rightarrow> ('w \<Rightarrow> 'w \<times> (gerr + string \<times> duration)) \<Rightarrow> string \<Rightarrow>
     token_cache \<times> 'w \<Rightarrow> (token_cache \<times> 'w) \<times> (gerr + string)" where
  "Token clk login stale st =
     (let (c, w) = st; forced = (stale \<noteq> []) in
      if \<not> forced \<and> tc_token c \<noteq> [] \<and> \<not> tc_expired (clk w) c then (st, Inr (tc_token c))
      else if forced \<and> tc_token c \<noteq> [] \<and> tc_token c \<noteq> stale then (st, Inr (tc_token c))
      else case login w of
        (w', Inl err) \<Rightarrow> ((c, w'), Inl err)
      | (w', Inr (token, ttl)) \<Rightarrow>
          (let c' = setExpiry (clk w') ttl (c\<lparr>tc_token := token\<rparr>) in ((c', w'), Inr (tc_token c'))))"

text \<open>What the clients of a token source rely on: a rejected token is replaced once, and everybody
  else who held it is given the replacement without another login.\<close>

locale token_source =
  fixes tok :: "string \<Rightarrow> 's \<Rightarrow> 's \<times> (gerr + string)"
    and cached :: "'s \<Rightarrow> string"
  assumes tok_result: "tok stale s = (s', Inr t) \<Longrightarrow> cached s' = t"
    and tok_forced: "stale \<noteq> [] \<Longrightarrow> cached s \<noteq> [] \<Longrightarrow> cached s \<noteq> stale \<Longrightarrow> tok stale s = (s, Inr (cached s))"
begin

fun calls :: "string list \<Rightarrow> 's \<Rightarrow> 's \<times> (gerr + string) list" where
  "calls [] s = (s, [])"
| "calls (x # xs) s = (let (s1, r) = tok x s; (s2, rs) = calls xs s1 in (s2, r # rs))"

lemma calls_settled:
  "cached s \<noteq> [] \<Longrightarrow> \<forall>x\<in>set xs. x \<noteq> [] \<and> x \<noteq> cached s \<Longrightarrow>
   calls xs s = (s, map (\<lambda>_. Inr (cached s)) xs)"
  by (induction xs) (auto simp: tok_forced)

lemma burst:
  assumes "tok stale s = (s', Inr t)" "t \<noteq> []" "t \<noteq> stale" "stale \<noteq> []"
  shows "calls (replicate (Suc n) stale) s = (s', replicate (Suc n) (Inr t))"
proof -
  have c: "cached s' = t" by (rule tok_result [OF assms(1)])
  with assms have "calls (replicate n stale) s' = (s', map (\<lambda>_. Inr t) (replicate n stale))"
    using calls_settled [of s' "replicate n stale"] by auto
  then show ?thesis using assms(1) by (simp add: map_replicate)
qed

end

interpretation caching: token_source "Token clk login" "\<lambda>s. tc_token (fst s)"
proof unfold_locales
  fix stale s s' t
  assume "Token clk login stale s = (s', Inr t)"
  then show "tc_token (fst s') = t"
    by (auto simp: Token_def Let_def split: if_splits prod.splits sum.splits)
next
  fix stale and s :: "token_cache \<times> 'a"
  assume "stale \<noteq> []" "tc_token (fst s) \<noteq> []" "tc_token (fst s) \<noteq> stale"
  then show "Token clk login stale s = (s, Inr (tc_token (fst s)))"
    by (cases s) (simp add: Token_def)
qed

text \<open>\<open>DoWithTokenRetry\<close>, over any source and request function.\<close>

definition DoWithTokenRetry ::
    "(string \<Rightarrow> 's \<Rightarrow> 's \<times> (gerr + string)) \<Rightarrow> (string \<Rightarrow> 's \<Rightarrow> 's \<times> int \<times> string \<times> gerr option) \<Rightarrow>
     's \<Rightarrow> 's \<times> int \<times> string \<times> gerr option" where
  "DoWithTokenRetry tok run s =
     (case tok [] s of
        (s1, Inl err) \<Rightarrow> (s1, 0, [], Some err)
      | (s1, Inr token) \<Rightarrow>
          (let (s2, status, body, err) = run token s1 in
           if err \<noteq> None \<or> status \<noteq> 401 then (s2, status, body, err)
           else case tok token s2 of
             (s3, Inl err') \<Rightarrow> (s3, 0, [], Some err')
           | (s3, Inr fresh) \<Rightarrow> run fresh s3))"

section \<open>Requests\<close>

type_synonym headers = "(string \<times> string) list"

definition set_header :: "string \<Rightarrow> string \<Rightarrow> headers \<Rightarrow> headers" where
  "set_header k v hs = (k, v) # filter (\<lambda>(k', _). k' \<noteq> k) hs"

definition get_header :: "string \<Rightarrow> headers \<Rightarrow> string" where
  "get_header k hs = (case map_of hs k of None \<Rightarrow> [] | Some v \<Rightarrow> v)"

record http_request =
  hq_method :: string
  hq_url :: string
  hq_headers :: headers
  hq_body :: "string option"

definition HeaderAuth :: "string \<Rightarrow> string \<Rightarrow> headers \<Rightarrow> headers" where
  "HeaderAuth key v = set_header key v"

definition BearerAuth :: "string \<Rightarrow> headers \<Rightarrow> headers" where
  "BearerAuth token = set_header ''Authorization'' (''Bearer '' @ token)"

record 'w client =
  bc_BaseURL :: string
  bc_do :: "http_request \<Rightarrow> 'w \<Rightarrow> 'w \<times> (gerr + response)"
  bc_Auth :: "(headers \<Rightarrow> headers) option"
  bc_Tokens :: "(string \<Rightarrow> 'w \<Rightarrow> 'w \<times> (gerr + string)) option"
  bc_Service :: string

record ('w, 'o) lib =
  lb_clock :: "'w \<Rightarrow> instant"
  lb_parse :: "string \<Rightarrow> url option"
  lb_print :: "url \<Rightarrow> string"
  lb_text :: "gerr \<Rightarrow> string"
  lb_build :: "string \<Rightarrow> string \<Rightarrow> gerr option"
  lb_decode :: "string \<Rightarrow> gerr option \<Rightarrow> gerr + 'o"

text \<open>\<open>strings.TrimRight(baseURL, "/")\<close> and \<open>URL\<close> without format arguments.\<close>

definition trim_slashes :: "string \<Rightarrow> string" where
  "trim_slashes s = rev (dropWhile (\<lambda>c. c = CHR ''/'') (rev s))"

definition NewBaseClient ::
    "string \<Rightarrow> string \<Rightarrow> (headers \<Rightarrow> headers) option \<Rightarrow>
     (http_request \<Rightarrow> 'w \<Rightarrow> 'w \<times> (gerr + response)) \<Rightarrow> 'w client" where
  "NewBaseClient baseURL service auth httpClient =
     \<lparr>bc_BaseURL = trim_slashes baseURL, bc_do = httpClient, bc_Auth = auth, bc_Tokens = None,
      bc_Service = service\<rparr>"

definition client_URL :: "'w client \<Rightarrow> string \<Rightarrow> string" where
  "client_URL c path = bc_BaseURL c @ path"

text \<open>The state of a call: the client's debug ring, if it has one, and the world.\<close>

type_synonym 'w hstate = "ring option \<times> 'w"

definition duration_ms :: "duration \<Rightarrow> int" where
  "duration_ms d = (if d < 0 then - ((- d) div millisecond) else d div millisecond)"

datatype send_out = SendErr gerr | SendStatus int gerr | SendOk response

definition send_req ::
    "('w, 'o) lib \<Rightarrow> 'w client \<Rightarrow> http_request \<Rightarrow> string \<Rightarrow> string \<Rightarrow> 'w hstate \<Rightarrow> 'w hstate \<times> send_out" where
  "send_req lib c req method url st =
     (let (ring, w) = st; start = lb_clock lib w; (w1, r) = bc_do c req w;
          ms = duration_ms (time_sub (lb_clock lib w1) start);
          redacted = RedactURL (lb_parse lib) (lb_print lib) url
      in case r of
           Inl err \<Rightarrow>
             ((map_option (ring_Push \<lparr>de_Time = start, de_Method = method, de_URL = redacted,
                 de_StatusCode = 0, de_DurationMs = ms,
                 de_Error = lb_text lib (Redact (lb_parse lib) (lb_print lib) err)\<rparr>) ring, w1),
              SendErr (Wrap (bc_Service c @ '' API request failed: '') err []))
         | Inr resp \<Rightarrow>
             ((map_option (ring_Push \<lparr>de_Time = start, de_Method = method, de_URL = redacted,
                 de_StatusCode = rp_status resp, de_DurationMs = ms, de_Error = []\<rparr>) ring, w1),
              if rp_status resp < 200 \<or> rp_status resp \<ge> 300
              then SendStatus (rp_status resp)
                     (newAPIError (bc_Service c) (rp_status resp) (fst (read_limited errorBodyLimit resp)))
              else SendOk resp))"

text \<open>The result of an attempt: the token used, the error, and the value decoded when the caller
  asked for one.\<close>

definition attempt ::
    "('w, 'o) lib \<Rightarrow> 'w client \<Rightarrow> string \<Rightarrow> string \<Rightarrow> string option \<Rightarrow> bool \<Rightarrow> string \<Rightarrow> 'w hstate \<Rightarrow>
     'w hstate \<times> string \<times> gerr option \<times> 'o option" where
  "attempt lib c method url rawBody out stale st =
     (case lb_build lib method url of
        Some err \<Rightarrow> (st, [], Some (Wrap (bc_Service c @ '' build request: '') err []), None)
      | None \<Rightarrow>
          (let hs0 = (case bc_Auth c of None \<Rightarrow> [] | Some auth \<Rightarrow> auth []);
               (w1, token) = (case bc_Tokens c of
                  None \<Rightarrow> (snd st, Inr None)
                | Some tok \<Rightarrow>
                    (case tok stale (snd st) of
                       (w1, Inl err) \<Rightarrow> (w1, Inl err) | (w1, Inr t) \<Rightarrow> (w1, Inr (Some t))))
           in case token of
                Inl err \<Rightarrow> ((fst st, w1), [], Some (Wrap (bc_Service c @ '' auth: '') err []), None)
              | Inr t \<Rightarrow>
                  (let used = (case t of None \<Rightarrow> [] | Some u \<Rightarrow> u);
                       hs1 = (case t of None \<Rightarrow> hs0 | Some u \<Rightarrow> BearerAuth u hs0);
                       hs2 = set_header ''Accept'' ''application/json'' hs1;
                       hs3 = (if rawBody \<noteq> None then set_header ''Content-Type'' ''application/json'' hs2 else hs2);
                       req = \<lparr>hq_method = method, hq_url = url, hq_headers = hs3, hq_body = rawBody\<rparr>
                   in case send_req lib c req method url (fst st, w1) of
                        (st2, SendErr err) \<Rightarrow> (st2, used, Some err, None)
                      | (st2, SendStatus _ err) \<Rightarrow> (st2, used, Some err, None)
                      | (st2, SendOk resp) \<Rightarrow>
                          if \<not> out then (st2, used, None, None)
                          else (case read_limited (nat MaxResponseBytes) resp of (data, rerr) \<Rightarrow>
                            (case lb_decode lib data rerr of
                               Inl err \<Rightarrow> (st2, used, Some (Wrap (bc_Service c @ '' response decode failed: '') err []), None)
                             | Inr v \<Rightarrow> (st2, used, None, Some v))))))"

definition is_401 :: "gerr option \<Rightarrow> bool" where
  "is_401 err =
     (case err of
        None \<Rightarrow> False
      | Some e \<Rightarrow> (case errors_as as_api e of None \<Rightarrow> False | Some (svc, st, b) \<Rightarrow> st = 401))"

text \<open>The body is what \<open>json.Marshal\<close> made of it: None when there is none, else its error or text.\<close>

definition DoJSON ::
    "('w, 'o) lib \<Rightarrow> 'w client \<Rightarrow> string \<Rightarrow> string \<Rightarrow> (gerr + string) option \<Rightarrow> bool \<Rightarrow> 'w hstate \<Rightarrow>
     'w hstate \<times> gerr option \<times> 'o option" where
  "DoJSON lib c method url body out st =
     (case body of
        Some (Inl err) \<Rightarrow> (st, Some (Wrap (bc_Service c @ '' marshal request: '') err []), None)
      | _ \<Rightarrow>
          (let rawBody = (case body of Some (Inr data) \<Rightarrow> Some data | _ \<Rightarrow> None);
               (st1, used, err, v) = attempt lib c method url rawBody out [] st
           in if bc_Tokens c \<noteq> None \<and> is_401 err
              then (let (st2, _, err2, v2) = attempt lib c method url rawBody out used st1 in (st2, err2, v2))
              else (st1, err, v)))"

definition bytes_attempt ::
    "('w, 'o) lib \<Rightarrow> 'w client \<Rightarrow> string \<Rightarrow> string \<Rightarrow> int \<Rightarrow> string \<Rightarrow> 'w hstate \<Rightarrow>
     'w hstate \<times> int \<times> string \<times> string \<times> gerr option" where
  "bytes_attempt lib c method url maxBytes token st =
     (case lb_build lib method url of
        Some err \<Rightarrow> (st, 0, [], [], Some (Wrap (bc_Service c @ '' build request: '') err []))
      | None \<Rightarrow>
          (let hs0 = (case bc_Auth c of None \<Rightarrow> [] | Some auth \<Rightarrow> auth []);
               hs1 = (if token \<noteq> [] then BearerAuth token hs0 else hs0);
               req = \<lparr>hq_method = method, hq_url = url, hq_headers = hs1, hq_body = None\<rparr>
           in case send_req lib c req method url st of
                (st2, SendErr err) \<Rightarrow> (st2, 0, [], [], Some err)
              | (st2, SendStatus status err) \<Rightarrow> (st2, status, [], [], Some err)
              | (st2, SendOk resp) \<Rightarrow>
                  (case ReadAllLimited resp maxBytes of
                     Inl err \<Rightarrow> (st2, rp_status resp, [], [], Some (Wrap (bc_Service c @ '' read body: '') err []))
                   | Inr data \<Rightarrow> (st2, rp_status resp, data, rp_content_type resp, None))))"

definition Bytes ::
    "('w, 'o) lib \<Rightarrow> 'w client \<Rightarrow> string \<Rightarrow> string \<Rightarrow> int \<Rightarrow> 'w hstate \<Rightarrow>
     'w hstate \<times> string \<times> string \<times> gerr option" where
  "Bytes lib c method url maxBytes0 st =
     (let maxBytes = (if maxBytes0 \<le> 0 then MaxResponseBytes else maxBytes0) in
      case bc_Tokens c of
        None \<Rightarrow> (let (st1, _, data, ct, err) = bytes_attempt lib c method url maxBytes [] st in (st1, data, ct, err))
      | Some tok \<Rightarrow>
          (case tok [] (snd st) of
             (w1, Inl err) \<Rightarrow> ((fst st, w1), [], [], Some (Wrap (bc_Service c @ '' auth: '') err []))
           | (w1, Inr token) \<Rightarrow>
               (let (st2, status, data, ct, err) = bytes_attempt lib c method url maxBytes token (fst st, w1) in
                if status = 401
                then (case tok token (snd st2) of
                        (w3, Inl ferr) \<Rightarrow> ((fst st2, w3), [], [], Some (Wrap (bc_Service c @ '' auth: '') ferr []))
                      | (w3, Inr fresh) \<Rightarrow>
                          (let (st4, _, data', ct', err') = bytes_attempt lib c method url maxBytes fresh (fst st2, w3)
                           in (st4, data', ct', err')))
                else (st2, data, ct, err))))"

definition Image ::
    "('w, 'o) lib \<Rightarrow> 'w client \<Rightarrow> string \<Rightarrow> int \<Rightarrow> 'w hstate \<Rightarrow> 'w hstate \<times> (gerr + string \<times> string)" where
  "Image lib c url maxBytes st =
     (let (st', data, ct, err) = Bytes lib c ''GET'' url maxBytes st in
      case err of
        Some e \<Rightarrow> (st', Inl e)
      | None \<Rightarrow> (st', Inr (data, if ct = [] then ''image/jpeg'' else ct)))"

section \<open>Lemmas\<close>

lemma send_req_world:
  "send_req lib c req method url (ring, w) = (st', out) \<Longrightarrow> snd st' = fst (bc_do c req w)"
  by (auto simp: send_req_def Let_def split: prod.splits sum.splits)

lemma token_call_cases:
  "(case bc_Tokens c of None \<Rightarrow> (w, Inr None)
    | Some tok \<Rightarrow> (case tok stale w of (w1, Inl err) \<Rightarrow> (w1, Inl err) | (w1, Inr t) \<Rightarrow> (w1, Inr (Some t)))) = (w1, token) \<Longrightarrow>
   (bc_Tokens c = None \<and> w1 = w) \<or> (\<exists>tok. bc_Tokens c = Some tok \<and> w1 = fst (tok stale w))"
  by (auto split: option.splits prod.splits sum.splits)

text \<open>What a request of the client adds to a count kept in the world, at most \<open>k\<close>.\<close>

definition costs :: "string \<Rightarrow> ('w \<Rightarrow> nat) \<Rightarrow> nat \<Rightarrow> 'w client \<Rightarrow> bool" where
  "costs method cnt k c \<longleftrightarrow> (\<forall>req w. hq_method req = method \<longrightarrow> cnt (fst (bc_do c req w)) \<le> cnt w + k) \<and>
     (\<forall>tok s w. bc_Tokens c = Some tok \<longrightarrow> cnt (fst (tok s w)) = cnt w)"

lemma attempt_count:
  assumes "costs method cnt k c"
  shows "attempt lib c method url rawBody out stale st = (st', used, err, v) \<Longrightarrow>
    cnt (snd st') \<le> cnt (snd st) + k"
proof -
  assume run: "attempt lib c method url rawBody out stale st = (st', used, err, v)"
  show ?thesis
  proof (cases "lb_build lib method url")
    case (Some e)
    with run show ?thesis by (auto simp: attempt_def)
  next
    case None
    obtain w1 token where t: "(case bc_Tokens c of None \<Rightarrow> (snd st, Inr None)
      | Some tok \<Rightarrow> (case tok stale (snd st) of (w1, Inl err) \<Rightarrow> (w1, Inl err) | (w1, Inr t) \<Rightarrow> (w1, Inr (Some t)))) = (w1, token)"
      by fastforce
    from token_call_cases [OF this] assms have cnt1: "cnt w1 = cnt (snd st)"
      by (auto simp: costs_def)
    show ?thesis
    proof (cases token)
      case (Inl e)
      with run None t cnt1 show ?thesis by (auto simp: attempt_def Let_def)
    next
      case (Inr tk)
      obtain req st2 s where sent: "send_req lib c req method url (fst st, w1) = (st2, s)" and "st2 = st'" "hq_method req = method"
        using run None t Inr
        by (auto simp: attempt_def Let_def split: prod.splits send_out.splits if_splits sum.splits)
      from send_req_world [OF this(1)] this(2,3) assms cnt1 show ?thesis unfolding costs_def by metis
    qed
  qed
qed

text \<open>A call of \<open>DoJSON\<close> is one attempt, or two when the client has tokens and the first was a 401.\<close>

lemma DoJSON_count:
  assumes "costs method cnt k c" and "DoJSON lib c method url body out st = (st', err, v)"
  shows "cnt (snd st') \<le> cnt (snd st) + 2 * k" and "bc_Tokens c = None \<Longrightarrow> cnt (snd st') \<le> cnt (snd st) + k"
    and "cnt (snd st) + k < cnt (snd st') \<Longrightarrow>
      \<exists>rawBody st1 used e v1. attempt lib c method url rawBody out [] st = (st1, used, e, v1) \<and> is_401 e"
proof -
  have "cnt (snd st') \<le> cnt (snd st) + 2 * k \<and> (bc_Tokens c = None \<longrightarrow> cnt (snd st') \<le> cnt (snd st) + k) \<and>
    (cnt (snd st) + k < cnt (snd st') \<longrightarrow>
      (\<exists>rawBody st1 used e v1. attempt lib c method url rawBody out [] st = (st1, used, e, v1) \<and> is_401 e))"
  proof (cases "\<exists>e. body = Some (Inl e)")
    case True
    with assms(2) show ?thesis by (auto simp: DoJSON_def)
  next
    case False
    define raw where "raw = (case body of Some (Inr data) \<Rightarrow> Some data | _ \<Rightarrow> None)"
    obtain st1 used e v1 where a: "attempt lib c method url raw out [] st = (st1, used, e, v1)"
      by (metis prod_cases4)
    obtain st2 used2 e2 v2 where b: "attempt lib c method url raw out used st1 = (st2, used2, e2, v2)"
      by (metis prod_cases4)
    have "DoJSON lib c method url body out st =
        (if bc_Tokens c \<noteq> None \<and> is_401 e then (st2, e2, v2) else (st1, e, v1))"
      using False a b by (cases body) (auto simp: DoJSON_def raw_def split: sum.splits)
    note eq = this and n = attempt_count [OF assms(1) a] attempt_count [OF assms(1) b]
    show ?thesis
    proof (cases "bc_Tokens c \<noteq> None \<and> is_401 e")
      case True
      with eq assms(2) have "st' = st2" by simp
      with n have "cnt (snd st') \<le> cnt (snd st) + 2 * k" by simp
      with True a show ?thesis by blast
    next
      case False
      with eq assms(2) have "st' = st1" by (simp only: if_False prod.inject)
      with n show ?thesis by simp
    qed
  qed
  then show "cnt (snd st') \<le> cnt (snd st) + 2 * k" "bc_Tokens c = None \<Longrightarrow> cnt (snd st') \<le> cnt (snd st) + k"
    "cnt (snd st) + k < cnt (snd st') \<Longrightarrow>
      \<exists>rawBody st1 used e v1. attempt lib c method url rawBody out [] st = (st1, used, e, v1) \<and> is_401 e"
    by blast+
qed

section \<open>Properties\<close>

text \<open>
  C11: however many requests are rejected with the same stale token at once, the caching source
  logs in once: the world is the one after a single login and every caller gets the new token.
\<close>

theorem one_login_per_burst:
  assumes "login w = (w', Inr (t, ttl))" and "t \<noteq> []" and "t \<noteq> stale" and "stale \<noteq> []"
    and "tc_token c = stale \<or> tc_token c = []"
  shows "caching.calls clk login (replicate (Suc n) stale) (c, w) =
    ((setExpiry (clk w') ttl (c\<lparr>tc_token := t\<rparr>), w'), replicate (Suc n) (Inr t))"
proof (rule caching.burst [OF _ assms(2-4)])
  show "Token clk login stale (c, w) = ((setExpiry (clk w') ttl (c\<lparr>tc_token := t\<rparr>), w'), Inr t)"
    using assms by (auto simp: Token_def Let_def setExpiry_def)
qed

theorem one_login_per_burst_witness:
  "caching.calls (\<lambda>n :: nat. 7) (\<lambda>n. (Suc n, Inr (''new'', 0))) (replicate (Suc 4) ''old'')
     (\<lparr>tc_token = ''old'', tc_expiresAt = 0\<rparr>, 0) =
   ((\<lparr>tc_token = ''new'', tc_expiresAt = 0\<rparr>, 1), replicate (Suc 4) (Inr ''new''))"
  by (subst one_login_per_burst [where t = "''new''" and ttl = 0 and w' = 1]) (simp_all add: setExpiry_def)

text \<open>
  A call of \<open>DoJSON\<close> sends at most two requests, and two only when it has a token source and
  its first attempt ended in a 401.
\<close>

theorem requests_bounded:
  assumes "costs method cnt 1 c" and "DoJSON lib c method url body out st = (st', err, v)"
  shows "cnt (snd st') \<le> cnt (snd st) + 2 \<and> (bc_Tokens c = None \<longrightarrow> cnt (snd st') \<le> cnt (snd st) + 1) \<and>
    (cnt (snd st') = cnt (snd st) + 2 \<longrightarrow>
      (\<exists>rawBody st1 used e v1. attempt lib c method url rawBody out [] st = (st1, used, e, v1) \<and> is_401 e))"
  using DoJSON_count [OF assms] by simp

definition demo_lib :: "(nat, unit) lib" where
  "demo_lib = \<lparr>lb_clock = int, lb_parse = (\<lambda>s. None), lb_print = (\<lambda>u. []), lb_text = (\<lambda>e. []),
     lb_build = (\<lambda>m u. None), lb_decode = (\<lambda>s e. Inr ())\<rparr>"

definition demo_client :: "nat client" where
  "demo_client = \<lparr>bc_BaseURL = [], bc_do = (\<lambda>req n. (Suc n, Inr (busy []\<lparr>rp_status := 401\<rparr>))), bc_Auth = None,
     bc_Tokens = Some (\<lambda>s n. (n, Inr ''t'')), bc_Service = ''svc''\<rparr>"

theorem requests_bounded_witness:
  "\<exists>st' err v. DoJSON demo_lib demo_client ''GET'' ''u'' None False (None, 0) = (st', err, v) \<and> snd st' \<le> 2"
proof -
  obtain st' err v where run: "DoJSON demo_lib demo_client ''GET'' ''u'' None False (None, 0) = (st', err, v)"
    by (metis prod_cases3)
  have "costs ''GET'' (\<lambda>n. n) 1 demo_client" by (simp add: costs_def demo_client_def)
  from requests_bounded [OF this run] run show ?thesis by simp
qed

text \<open>
  A login rejected with 401 is retried at once: when the token source's login fails with an
  error that wraps a 401, \<open>DoJSON\<close> takes it for the request's own 401 and logs in a second time,
  with no request ever sent; the caller gets the second login's error.
\<close>

theorem login_401_repeated:
  assumes "lb_build lib method url = None" and "bc_Tokens c = Some tok"
    and "\<And>w. tok [] w = (login w, Inl e)" and "errors_as as_api e = Some (svc, 401, b)"
  shows "DoJSON lib c method url None out (ring, w) =
    ((ring, login (login w)), Some (Wrap (bc_Service c @ '' auth: '') e []), None)"
  using assms by (simp add: DoJSON_def attempt_def is_401_def Let_def)

theorem login_401_repeated_witness:
  "DoJSON demo_lib (demo_client\<lparr>bc_Tokens := Some (\<lambda>s n. (Suc n, Inl (ApiErr ''login'' 401 [])))\<rparr>)
     ''GET'' ''u'' None False (None, 0) = ((None, 2), Some (Wrap ''svc auth: '' (ApiErr ''login'' 401 []) []), None)"
  by (subst login_401_repeated [where login = Suc and tok = "\<lambda>s n. (Suc n, Inl (ApiErr ''login'' 401 []))" and e = "ApiErr ''login'' 401 []"])
     (simp_all add: demo_lib_def demo_client_def)

end
