(* ===== verification/HttpStack.thy ===== *)
theory HttpStack
  imports Retry Httpc
begin

text \<open>
  httpc/client.go over httpc/http.go over httpc/transport.go: the client \<open>NewBaseClient\<close> builds, its
  \<open>http.Client\<close> written out down to the base transport.

  \<open>http.Client.Do\<close> sends a request through the transport and follows redirects, at most ten requests
  in all; the whole call has one deadline when the client has a timeout. What \<open>Do\<close> makes of a
  response (the request it redirects to, if any) is a parameter, as is the environment of a request
  (the base transport, the caller's context, the clock's jitter). The world is the time and the
  rest; \<open>cnt\<close> of the properties counts in it the requests the base transport is given.
\<close>

section \<open>The client\<close>

text \<open>\<open>http.NewRequestWithContext\<close> sets GetBody for the byte reader \<open>attempt\<close> gives it, and makes an
  empty one \<open>http.NoBody\<close>.\<close>

definition retry_req :: "http_request \<Rightarrow> retry_request" where
  "retry_req req = \<lparr>rq_method = hq_method req,
     rq_body = (case hq_body req of None \<Rightarrow> NilBody | Some b \<Rightarrow> if b = [] then NoBody else HasBody True)\<rparr>"

record 'w net =
  nt_env :: "http_request \<Rightarrow> 'w rt_env"
  nt_redirect :: "http_request \<Rightarrow> response \<Rightarrow> http_request option"

text \<open>The deadline of the call joins the caller's context.\<close>

definition with_deadline :: "instant option \<Rightarrow> 'w rt_env \<Rightarrow> 'w rt_env" where
  "with_deadline d env =
     (case d of
        None \<Rightarrow> env
      | Some t \<Rightarrow>
          (case en_ctx_done env of
             Some u \<Rightarrow> if u \<le> t then env else env\<lparr>en_ctx_done := Some t, en_ctx_err := Sentinel ctx_deadline\<rparr>
           | None \<Rightarrow> env\<lparr>en_ctx_done := Some t, en_ctx_err := Sentinel ctx_deadline\<rparr>))"

definition nil_response :: gerr where
  "nil_response = Text ''http: RoundTripper implementation returned a nil *Response with a nil error''"

text \<open>One request through the layers of the client.\<close>

definition transport ::
    "layers \<Rightarrow> 'w net \<Rightarrow> instant option \<Rightarrow> http_request \<Rightarrow> instant \<times> 'w \<Rightarrow> (instant \<times> 'w) \<times> (gerr + response)" where
  "transport ly net d req w =
     (let env = with_deadline d (nt_env net req);
          (w', r) = (case ly of
             Bare \<Rightarrow> en_base env w
           | RetryLayer cfg \<Rightarrow> (let (w', r, _, _) = RoundTrip cfg env (retry_req req) w in (w', r))
           | TracedRetryLayer cfg \<Rightarrow> (let (w', r, _, _) = RoundTrip cfg env (retry_req req) w in (w', r)))
      in (w', case r of RtResp resp \<Rightarrow> Inr resp | RtErr e \<Rightarrow> Inl e | RtNil \<Rightarrow> Inl nil_response))"

definition url_op :: "string \<Rightarrow> string" where
  "url_op m = (if m = [] then ''Get'' else hd m # map (\<lambda>c. if CHR ''A'' \<le> c \<and> c \<le> CHR ''Z'' then char_of (of_char c + 32 :: nat) else c) (tl m))"

text \<open>\<open>Do\<close>: \<open>n\<close> more requests may follow the first.\<close>

fun follow ::
    "nat \<Rightarrow> ('r \<Rightarrow> 'w \<Rightarrow> 'w \<times> (gerr + 'a)) \<Rightarrow> ('r \<Rightarrow> 'a \<Rightarrow> 'r option) \<Rightarrow> ('r \<Rightarrow> gerr \<Rightarrow> gerr) \<Rightarrow> 'r \<Rightarrow> 'w \<Rightarrow> 'w \<times> (gerr + 'a)" where
  "follow n hop nxt wrap req w =
     (case hop req w of
        (w', Inl e) \<Rightarrow> (w', Inl (wrap req e))
      | (w', Inr resp) \<Rightarrow>
          (case nxt req resp of
             None \<Rightarrow> (w', Inr resp)
           | Some req' \<Rightarrow>
               (case n of
                  0 \<Rightarrow> (w', Inl (wrap req' (Text ''stopped after 10 redirects'')))
                | Suc m \<Rightarrow> follow m hop nxt wrap req' w')))"

declare follow.simps [simp del]

definition client_Do ::
    "duration \<times> layers \<Rightarrow> 'w net \<Rightarrow> http_request \<Rightarrow> instant \<times> 'w \<Rightarrow> (instant \<times> 'w) \<times> (gerr + response)" where
  "client_Do hc net req w =
     (let (timeout, ly) = hc; d = (if 0 < timeout then Some (fst w + timeout) else None)
      in follow 9 (transport ly net d) (nt_redirect net) (\<lambda>r e. UrlErr (url_op (hq_method req)) (hq_url r) e) req w)"

definition stack_client ::
    "string \<Rightarrow> string \<Rightarrow> (headers \<Rightarrow> headers) option \<Rightarrow> http_options \<Rightarrow> 'w net \<Rightarrow> (instant \<times> 'w) client" where
  "stack_client baseURL service auth opts net = NewBaseClient baseURL service auth (client_Do (NewHTTPClient opts) net)"

section \<open>Lemmas\<close>

lemma with_deadline_simps [simp]: "en_base (with_deadline d env) = en_base env"
  by (simp add: with_deadline_def split: option.split)

definition wire_counts :: "('w \<Rightarrow> nat) \<Rightarrow> 'w net \<Rightarrow> bool" where
  "wire_counts cnt net \<longleftrightarrow> (\<forall>req w. cnt (snd (fst (en_base (nt_env net req) w))) = Suc (cnt (snd w)))"

definition retry_policy :: "http_options \<Rightarrow> retry_config" where
  "retry_policy opts = (case ho_Retry opts of None \<Rightarrow> DefaultRetryConfig | Some c \<Rightarrow> c)"

definition attempts_of :: "http_options \<Rightarrow> string \<Rightarrow> nat" where
  "attempts_of opts method = (if idempotentMethod method then Suc (nat (rc_MaxRetries (retry_policy opts))) else 1)"

lemma transport_count:
  assumes "wire_counts cnt net" and "transport (snd (NewHTTPClient opts)) net d req w = (w', r)"
  shows "cnt (snd w') \<le> cnt (snd w) + attempts_of opts (hq_method req)"
proof -
  let ?env = "with_deadline d (nt_env net req)" and ?cfg = "retry_policy opts"
  have one: "\<And>w. cnt (snd (fst (en_base ?env w))) = Suc (cnt (snd w))" using assms(1) unfolding wire_counts_def with_deadline_simps by blast
  obtain w1 r1 outs waits where rt: "RoundTrip ?cfg ?env (retry_req req) w = (w1, r1, outs, waits)"
    by (metis prod_cases4)
  with assms(2) have "w' = w1"
    by (auto simp: transport_def NewHTTPClient_def retry_policy_def Let_def split: if_splits)
  moreover have "length outs \<le> attempts_of opts (hq_method req)"
    using round_trip_attempts [OF rt] by (auto simp: attempts_of_def retry_req_def)
  ultimately show ?thesis using RoundTrip_count [of cnt, OF one rt] by simp
qed

lemma follow_count:
  assumes "\<And>req w. cnt (fst (hop req w)) \<le> cnt w + (k :: nat)"
  shows "cnt (fst (follow n hop nxt wrap req w)) \<le> cnt w + Suc n * k"
proof (induction n arbitrary: req w)
  case 0
  from assms [of req w] show ?case
    by (subst follow.simps) (auto split: prod.splits sum.splits option.splits)
next
  case (Suc n)
  obtain w1 res where h: "hop req w = (w1, res)" by fastforce
  with assms [of req w] have 1: "cnt w1 \<le> cnt w + k" by simp
  have "cnt (fst (follow n hop nxt wrap r w1)) \<le> cnt w + Suc (Suc n) * k" for r
    using Suc [of r w1] 1 by simp
  with h 1 show ?case by (subst follow.simps) (auto split: sum.splits option.splits)
qed

lemma follow_one:
  assumes "\<And>resp. nxt req resp = None" and "cnt (fst (hop req w)) \<le> cnt w + (k :: nat)"
  shows "cnt (fst (follow n hop nxt wrap req w)) \<le> cnt w + k"
  using assms by (subst follow.simps) (auto split: prod.splits sum.splits)

lemma client_Do_count:
  assumes "wire_counts cnt net"
  shows "cnt (snd (fst (client_Do (NewHTTPClient opts) net req w))) \<le> cnt (snd w) + 10 * Suc (nat (rc_MaxRetries (retry_policy opts)))"
    and "(\<And>resp. nt_redirect net req resp = None) \<Longrightarrow>
      cnt (snd (fst (client_Do (NewHTTPClient opts) net req w))) \<le> cnt (snd w) + attempts_of opts (hq_method req)"
proof -
  obtain timeout ly where hc: "NewHTTPClient opts = (timeout, ly)" by fastforce
  define d where "d = (if 0 < timeout then Some (fst w + timeout) else None)"
  have hop: "(cnt \<circ> snd) (fst (transport ly net d r u)) \<le> (cnt \<circ> snd) u + attempts_of opts (hq_method r)" for r u
    using transport_count [OF assms, of opts d r u] hc by (cases "transport ly net d r u") simp
  have "attempts_of opts m \<le> Suc (nat (rc_MaxRetries (retry_policy opts)))" for m by (simp add: attempts_of_def)
  with hop have any: "(cnt \<circ> snd) (fst (transport ly net d r u)) \<le> (cnt \<circ> snd) u + Suc (nat (rc_MaxRetries (retry_policy opts)))" for r u
    by (meson add_left_mono order_trans)
  from follow_count [where cnt = "cnt \<circ> snd" and hop = "transport ly net d" and w = w, OF any, of 9]
  show "cnt (snd (fst (client_Do (NewHTTPClient opts) net req w))) \<le> cnt (snd w) + 10 * Suc (nat (rc_MaxRetries (retry_policy opts)))"
    by (simp add: client_Do_def hc d_def [symmetric])
  assume "\<And>resp. nt_redirect net req resp = None"
  from follow_one [where nxt = "nt_redirect net" and cnt = "cnt \<circ> snd" and hop = "transport ly net d", OF this hop [of req w]]
  show "cnt (snd (fst (client_Do (NewHTTPClient opts) net req w))) \<le> cnt (snd w) + attempts_of opts (hq_method req)"
    by (simp add: client_Do_def hc d_def [symmetric])
qed

section \<open>Properties\<close>

text \<open>
  C9: what a call costs the server. A \<open>DoJSON\<close> of a client over the sanctioned transport puts at most
  2 * 10 * (MaxRetries + 1) requests on the wire, half of that without a token source; and a write
  that no response redirects is put there once, or twice when there is a token source and the first
  answer was a 401: the retries of the transport never repeat it.
\<close>

theorem wire_bound:
  assumes "wire_counts cnt net"
    and "\<And>tok s w. bc_Tokens c = Some tok \<Longrightarrow> cnt (snd (fst (tok s w))) = cnt (snd w)"
    and "bc_do c = client_Do (NewHTTPClient opts) net"
    and "DoJSON lib c method url body out st = (st', err, v)"
  shows "cnt (snd (snd st')) \<le> cnt (snd (snd st)) + 2 * (10 * Suc (nat (rc_MaxRetries (retry_policy opts)))) \<and>
    (bc_Tokens c = None \<longrightarrow> cnt (snd (snd st')) \<le> cnt (snd (snd st)) + 10 * Suc (nat (rc_MaxRetries (retry_policy opts)))) \<and>
    (\<not> idempotentMethod method \<and> (\<forall>req resp. hq_method req = method \<longrightarrow> nt_redirect net req resp = None) \<longrightarrow>
       cnt (snd (snd st')) \<le> cnt (snd (snd st)) + 2 \<and>
       (cnt (snd (snd st')) = cnt (snd (snd st)) + 2 \<longrightarrow> bc_Tokens c \<noteq> None \<and>
          (\<exists>rawBody st1 used e v1. attempt lib c method url rawBody out [] st = (st1, used, e, v1) \<and> is_401 e)))"
proof -
  note n = client_Do_count [OF assms(1), where opts = opts]
  have any: "costs method (cnt \<circ> snd) (10 * Suc (nat (rc_MaxRetries (retry_policy opts)))) c"
    using n(1) assms(2) by (simp add: costs_def assms(3))
  have once: "costs method (cnt \<circ> snd) 1 c"
    if once: "\<not> idempotentMethod method" "\<forall>req resp. hq_method req = method \<longrightarrow> nt_redirect net req resp = None"
  proof -
    have "cnt (snd (fst (bc_do c req w))) \<le> cnt (snd w) + 1" if "hq_method req = method" for req w
      using n(2) [of req w] that once by (simp add: assms(3) attempts_of_def)
    then show ?thesis using assms(2) by (simp add: costs_def)
  qed
  show ?thesis
  proof (intro conjI impI)
    show "cnt (snd (snd st')) \<le> cnt (snd (snd st)) + 2 * (10 * Suc (nat (rc_MaxRetries (retry_policy opts))))"
      using DoJSON_count(1) [OF any assms(4)] by simp
    show "cnt (snd (snd st')) \<le> cnt (snd (snd st)) + 10 * Suc (nat (rc_MaxRetries (retry_policy opts)))"
      if "bc_Tokens c = None" using DoJSON_count(2) [OF any assms(4) that] by simp
  next
    assume w: "\<not> idempotentMethod method \<and> (\<forall>req resp. hq_method req = method \<longrightarrow> nt_redirect net req resp = None)"
    note d = DoJSON_count [OF once [OF conjunct1 [OF w] conjunct2 [OF w]] assms(4)]
    show "cnt (snd (snd st')) \<le> cnt (snd (snd st)) + 2" using d(1) by simp
    assume "cnt (snd (snd st')) = cnt (snd (snd st)) + 2"
    with d(2,3) show "bc_Tokens c \<noteq> None"
      "\<exists>rawBody st1 used e v1. attempt lib c method url rawBody out [] st = (st1, used, e, v1) \<and> is_401 e"
      by auto
  qed
qed

text \<open>A server that answers every request with 503, counting them.\<close>

definition busy_net :: "nat net" where
  "busy_net = \<lparr>nt_env = (\<lambda>req. \<lparr>en_base = (\<lambda>(t, n). ((t, Suc n), RtResp (busy []))), en_getBody = (\<lambda>w. None),
       en_httpdate = (\<lambda>s. None), en_rnd = (\<lambda>n. 0), en_ctx_done = None, en_ctx_err = Sentinel ctx_canceled, en_tie = (\<lambda>n. True)\<rparr>),
     nt_redirect = (\<lambda>req resp. None)\<rparr>"

definition house_options :: http_options where
  "house_options = \<lparr>ho_Timeout = 0, ho_Retry = None, ho_Tracing = False\<rparr>"

definition clock_lib :: "(instant \<times> nat, unit) lib" where
  "clock_lib = \<lparr>lb_clock = fst, lb_parse = (\<lambda>s. None), lb_print = (\<lambda>u. []), lb_text = (\<lambda>e. []),
     lb_build = (\<lambda>m u. None), lb_decode = (\<lambda>s e. Inr ())\<rparr>"

theorem wire_bound_witness:
  "\<exists>st' err v. DoJSON clock_lib (stack_client ''http://h/'' ''svc'' None house_options busy_net) ''POST'' ''http://h/x'' None False
     (None, (0, 0)) = (st', err, v) \<and> snd (snd st') \<le> 2"
proof -
  let ?c = "stack_client ''http://h/'' ''svc'' None house_options busy_net"
  obtain st' err v where run: "DoJSON clock_lib ?c ''POST'' ''http://h/x'' None False (None, (0, 0)) = (st', err, v)"
    by (metis prod_cases3)
  have "wire_counts id busy_net" by (simp add: wire_counts_def busy_net_def)
  from wire_bound [OF this _ _ run, of house_options] have "snd (snd st') \<le> 2"
    by (simp add: stack_client_def NewBaseClient_def idempotentMethod_def busy_net_def)
  with run show ?thesis by blast
qed

text \<open>The bound for writes is met: a server that rejects every token gets the write twice.\<close>

definition rejecting :: "nat net" where
  "rejecting = busy_net\<lparr>nt_env := (\<lambda>req. (nt_env busy_net req)\<lparr>en_base := (\<lambda>(t, n). ((t, Suc n), RtResp (busy []\<lparr>rp_status := 401\<rparr>)))\<rparr>)\<rparr>"

lemma write_sent_twice:
  "\<exists>st' err v. DoJSON clock_lib ((stack_client ''http://h'' ''svc'' None house_options rejecting)
       \<lparr>bc_Tokens := Some (\<lambda>stale w. (w, Inr ''t''))\<rparr>) ''POST'' ''http://h/x'' None False (None, (0, 0)) = (st', err, v) \<and>
     snd (snd st') = 2"
  by (simp add: DoJSON_def attempt_def send_req_def stack_client_def NewBaseClient_def client_Do_def NewHTTPClient_def
      house_options_def follow.simps transport_def RoundTrip_def idempotentMethod_def retry_req_def rejecting_def busy_net_def
      busy_def clock_lib_def is_401_def newAPIError_def errors_as_def read_limited_def Let_def DefaultHTTPTimeout_def
      with_deadline_def second_def)

end
