(* ===== verification/Lifecycle.thy ===== *)
theory Lifecycle
  imports GoErr
begin

text \<open>
  lifecycle/lifecycle.go and \<open>safe.Do\<close>: the stack of teardown steps.

  A step is a Go function of a context. It is modelled by what it does to the world, at the time
  it starts and with the deadline its context carries: it returns nil or an error, panics, or
  never returns (None). The stack keeps the steps in push order, the \<open>done\<close> flag and the lines
  it logs. \<open>Shutdown\<close> is the section under the mutex, which takes the steps and sets \<open>done\<close>,
  followed by the sweep without the mutex.
\<close>

section \<open>Steps\<close>

datatype outcome = Done | Failed gerr | Panicked

type_synonym 'w step_fn = "instant option \<Rightarrow> instant \<times> 'w \<Rightarrow> ((instant \<times> 'w) \<times> outcome) option"

record 'w teardown =
  td_name :: string
  td_fn :: "'w step_fn"

datatype log_line =
    LogLate string              \<comment> \<open>registered after shutdown\<close>
  | LogComplete string duration
  | LogFailed string duration gerr

fun logged_name :: "log_line \<Rightarrow> string" where
  "logged_name (LogLate n) = n"
| "logged_name (LogComplete n d) = n"
| "logged_name (LogFailed n d e) = n"

record 'w stack =
  sk_steps :: "'w teardown list"
  sk_done :: bool
  sk_log :: "log_line list"

definition empty_stack :: "'w stack" where
  "empty_stack = \<lparr>sk_steps = [], sk_done = False, sk_log = []\<rparr>"

definition Push :: "string \<Rightarrow> 'w step_fn option \<Rightarrow> 'w stack \<Rightarrow> 'w stack" where
  "Push name fn s =
     (case fn of
        None \<Rightarrow> s
      | Some f \<Rightarrow>
          if sk_done s then s\<lparr>sk_log := sk_log s @ [LogLate name]\<rparr>
          else s\<lparr>sk_steps := sk_steps s @ [\<lparr>td_name = name, td_fn = f\<rparr>]\<rparr>)"

text \<open>A \<open>Close() error\<close> method: no context, so no deadline.\<close>

type_synonym 'w closer = "instant \<times> 'w \<Rightarrow> ((instant \<times> 'w) \<times> outcome) option"

definition Closer :: "'w closer option \<Rightarrow> 'w step_fn option" where
  "Closer c = (case c of None \<Rightarrow> None | Some close \<Rightarrow> Some (\<lambda>ctx. close))"

definition PushCloser :: "string \<Rightarrow> 'w closer option \<Rightarrow> 'w stack \<Rightarrow> 'w stack" where
  "PushCloser name c s =
     (case c of None \<Rightarrow> s | Some close \<Rightarrow> Push name (Some (\<lambda>ctx. close)) s)"

definition stack_Len :: "'w stack \<Rightarrow> nat" where
  "stack_Len s = length (sk_steps s)"

definition Names :: "'w stack \<Rightarrow> string list" where
  "Names s = map td_name (sk_steps s)"

section \<open>Shutdown\<close>

text \<open>\<open>safe.Do\<close>: the panic is contained and reported.\<close>

definition Do :: "'w closer \<Rightarrow> instant \<times> 'w \<Rightarrow> ((instant \<times> 'w) \<times> outcome \<times> bool) option" where
  "Do f w = (case f w of None \<Rightarrow> None | Some (w', r) \<Rightarrow> Some (w', r, r = Panicked))"

definition with_timeout :: "instant option \<Rightarrow> duration \<Rightarrow> instant \<Rightarrow> instant option" where
  "with_timeout ctx each now =
     Some (case ctx of None \<Rightarrow> now + each | Some d \<Rightarrow> min d (now + each))"

definition panicked_error :: gerr where
  "panicked_error = Text ''panicked during shutdown''"

definition runStep ::
    "instant option \<Rightarrow> 'w teardown \<Rightarrow> duration \<Rightarrow> instant \<times> 'w \<Rightarrow>
     ((instant \<times> 'w) \<times> gerr option) option" where
  "runStep ctx st each w =
     (let ctx' = (if 0 < each then with_timeout ctx each (fst w) else ctx) in
      case Do (td_fn st ctx') w of
        None \<Rightarrow> None
      | Some (w', r, panicked) \<Rightarrow>
          Some (w', if panicked then Some panicked_error
                    else case r of Failed e \<Rightarrow> Some e | _ \<Rightarrow> None))"

definition step_error :: "string \<Rightarrow> gerr \<Rightarrow> gerr" where
  "step_error name e = Wrap (name @ '': '') e []"

fun sweep ::
    "instant option \<Rightarrow> duration \<Rightarrow> 'w teardown list \<Rightarrow> gerr list \<Rightarrow> log_line list \<Rightarrow> instant \<times> 'w \<Rightarrow>
     ((instant \<times> 'w) \<times> gerr list \<times> log_line list) option" where
  "sweep ctx each [] errs log w = Some (w, errs, log)"
| "sweep ctx each (st # sts) errs log w =
     (case runStep ctx st each w of
        None \<Rightarrow> None
      | Some (w', err) \<Rightarrow>
          (let took = time_sub (fst w') (fst w) in
           case err of
             Some e \<Rightarrow> sweep ctx each sts (errs @ [step_error (td_name st) e])
                        (log @ [LogFailed (td_name st) took e]) w'
           | None \<Rightarrow> sweep ctx each sts errs (log @ [LogComplete (td_name st) took]) w'))"

definition take_steps :: "'w stack \<Rightarrow> 'w stack \<times> 'w teardown list option" where
  "take_steps s =
     (if sk_done s then (s, None)
      else (s\<lparr>sk_done := True, sk_steps := []\<rparr>, Some (sk_steps s)))"

definition Shutdown ::
    "instant option \<Rightarrow> duration \<Rightarrow> 'w stack \<Rightarrow> instant \<times> 'w \<Rightarrow>
     ('w stack \<times> (instant \<times> 'w) \<times> gerr option) option" where
  "Shutdown ctx each s w =
     (case take_steps s of
        (s', None) \<Rightarrow> Some (s', w, None)
      | (s', Some steps) \<Rightarrow>
          (case sweep ctx each (rev steps) [] (sk_log s') w of
             None \<Rightarrow> None
           | Some (w', errs, log) \<Rightarrow> Some (s'\<lparr>sk_log := log\<rparr>, w', errors_join errs)))"

section \<open>Lemmas\<close>

lemma Push_not_done [simp]:
  "\<not> sk_done s \<Longrightarrow> Names (Push n (Some f) s) = Names s @ [n]"
  "\<not> sk_done s \<Longrightarrow> \<not> sk_done (Push n (Some f) s)"
  "\<not> sk_done s \<Longrightarrow> sk_steps (Push n (Some f) s) = sk_steps s @ [\<lparr>td_name = n, td_fn = f\<rparr>]"
  "\<not> sk_done s \<Longrightarrow> sk_log (Push n (Some f) s) = sk_log s"
  by (simp_all add: Push_def Names_def)

lemma Push_None [simp]: "Push n None s = s"
  by (simp add: Push_def)

lemma Push_done_flag [simp]: "sk_done (Push n f s) = sk_done s"
  by (simp add: Push_def split: option.split)

lemma Shutdown_done [simp]: "sk_done s \<Longrightarrow> Shutdown ctx each s w = Some (s, w, None)"
  by (simp add: Shutdown_def take_steps_def)

lemma Shutdown_first:
  "\<not> sk_done s \<Longrightarrow> Shutdown ctx each s w =
     (case sweep ctx each (rev (sk_steps s)) [] (sk_log s) w of
        None \<Rightarrow> None
      | Some (w', errs, log) \<Rightarrow>
          Some (s\<lparr>sk_done := True, sk_steps := [], sk_log := log\<rparr>, w', errors_join errs))"
  by (simp add: Shutdown_def take_steps_def split: option.split)

text \<open>A step that always returns, whatever it does and however late.\<close>

definition step_returns :: "'w step_fn \<Rightarrow> bool" where
  "step_returns f \<longleftrightarrow> (\<forall>ctx w. f ctx w \<noteq> None)"

text \<open>A step that honours its context: it is back by the deadline (at once when that has passed),
  and the clock does not run backwards.\<close>

definition honours :: "'w step_fn \<Rightarrow> bool" where
  "honours f \<longleftrightarrow> (\<forall>d t w. \<exists>t' w' r. f (Some d) (t, w) = Some ((t', w'), r) \<and> t \<le> t' \<and> t' \<le> max t d)"

lemma runStep_returns:
  "step_returns (td_fn st) \<Longrightarrow> \<exists>w' err. runStep ctx st each w = Some (w', err)"
  unfolding step_returns_def runStep_def Do_def Let_def
  by (metis (no_types, lifting) not_None_eq option.simps(5) surj_pair case_prod_conv)

definition line_errors :: "log_line list \<Rightarrow> gerr list" where
  "line_errors ls = concat (map (\<lambda>l. case l of LogFailed n d e \<Rightarrow> [step_error n e] | _ \<Rightarrow> []) ls)"

lemma line_errors_simps [simp]:
  "line_errors [] = []"
  "line_errors (LogComplete n d # ls) = line_errors ls"
  "line_errors (LogFailed n d e # ls) = step_error n e # line_errors ls"
  by (simp_all add: line_errors_def)

lemma sweep_logs:
  "sweep ctx each sts errs log w = Some (w', errs', log') \<Longrightarrow>
   \<exists>ls. log' = log @ ls \<and> map logged_name ls = map td_name sts \<and> errs' = errs @ line_errors ls"
proof (induction sts arbitrary: errs log w)
  case Nil
  then show ?case by simp
next
  case (Cons st sts)
  then obtain w1 err where r: "runStep ctx st each w = Some (w1, err)"
    by (auto split: option.splits)
  show ?case
  proof (cases err)
    case None
    with Cons.prems r have "sweep ctx each sts errs
        (log @ [LogComplete (td_name st) (time_sub (fst w1) (fst w))]) w1 = Some (w', errs', log')"
      by (simp add: Let_def)
    from Cons.IH [OF this] obtain ls where
      "log' = log @ (LogComplete (td_name st) (time_sub (fst w1) (fst w)) # ls)"
      "map logged_name ls = map td_name sts" "errs' = errs @ line_errors ls" by auto
    then show ?thesis
      by (intro exI [of _ "LogComplete (td_name st) (time_sub (fst w1) (fst w)) # ls"]) simp
  next
    case (Some e)
    with Cons.prems r have "sweep ctx each sts (errs @ [step_error (td_name st) e])
        (log @ [LogFailed (td_name st) (time_sub (fst w1) (fst w)) e]) w1 = Some (w', errs', log')"
      by (simp add: Let_def)
    from Cons.IH [OF this] obtain ls where
      "log' = log @ (LogFailed (td_name st) (time_sub (fst w1) (fst w)) e # ls)"
      "map logged_name ls = map td_name sts"
      "errs' = errs @ step_error (td_name st) e # line_errors ls" by auto
    then show ?thesis
      by (intro exI [of _ "LogFailed (td_name st) (time_sub (fst w1) (fst w)) e # ls"]) simp
  qed
qed

lemma sweep_returns:
  "\<forall>st\<in>set sts. step_returns (td_fn st) \<Longrightarrow> \<exists>r. sweep ctx each sts errs log w = Some r"
proof (induction sts arbitrary: errs log w)
  case (Cons st sts)
  then obtain w' err where "runStep ctx st each w = Some (w', err)"
    using runStep_returns by (metis list.set_intros(1))
  with Cons show ?case by (cases err) (auto simp: Let_def)
qed simp

lemma runStep_honours:
  assumes "honours (td_fn st)" and "0 < each"
  shows "\<exists>t' w' err. runStep (Some d) st each (t, w) = Some ((t', w'), err) \<and>
    t \<le> t' \<and> t' \<le> max t (min d (t + each))"
proof -
  obtain t' w' r where "td_fn st (Some (min d (t + each))) (t, w) = Some ((t', w'), r)"
    and "t \<le> t'" "t' \<le> max t (min d (t + each))"
    using assms(1) unfolding honours_def by meson
  with assms(2) show ?thesis by (simp add: runStep_def Do_def with_timeout_def)
qed

lemma sweep_bounded:
  assumes "\<forall>st\<in>set sts. honours (td_fn st)" and each: "0 < each"
  shows "\<exists>t' w' errs' log'. sweep (Some d) each sts errs log (t, w) = Some ((t', w'), errs', log') \<and>
    t' \<le> max t d \<and> t' \<le> t + int (length sts) * each"
  using assms(1)
proof (induction sts arbitrary: errs log t w)
  case (Cons st sts)
  then obtain t1 w1 err where r: "runStep (Some d) st each (t, w) = Some ((t1, w1), err)"
    and b: "t \<le> t1" "t1 \<le> max t (min d (t + each))"
    using runStep_honours [OF _ each] by (metis list.set_intros(1))
  obtain errs1 log1 where eq: "sweep (Some d) each (st # sts) errs log (t, w) =
      sweep (Some d) each sts errs1 log1 (t1, w1)"
    using r by (cases err) (simp_all add: Let_def)
  from Cons obtain t' w' errs' log' where
    run: "sweep (Some d) each sts errs1 log1 (t1, w1) = Some ((t', w'), errs', log')"
    and b': "t' \<le> max t1 d" "t' \<le> t1 + int (length sts) * each"
    by (metis list.set_intros(2))
  have "int (length (st # sts)) * each = each + int (length sts) * each"
    by (simp add: algebra_simps)
  with b b' each have "t' \<le> max t d" "t' \<le> t + int (length (st # sts)) * each"
    by linarith+
  with eq run show ?case by metis
qed simp

section \<open>What the steps were given and what they answered\<close>

text \<open>The reference: the steps called one after the other, each in the world the previous one left and
  with the deadline of the sweep cut to the budget, and their answers, with how long each took.\<close>

inductive answered ::
    "instant option \<Rightarrow> duration \<Rightarrow> 'w teardown list \<Rightarrow> instant \<times> 'w \<Rightarrow>
     (string \<times> outcome \<times> duration) list \<Rightarrow> instant \<times> 'w \<Rightarrow> bool" for ctx each where
  none_left: "answered ctx each [] w [] w"
| one_more: "td_fn st (if 0 < each then with_timeout ctx each (fst w) else ctx) w = Some (w1, r) \<Longrightarrow>
    answered ctx each sts w1 rs w2 \<Longrightarrow>
    answered ctx each (st # sts) w ((td_name st, r, time_sub (fst w1) (fst w)) # rs) w2"

inductive_simps answered_simps:
  "answered ctx each [] w rs w'" "answered ctx each (st # sts) w rs w'"

fun answer_errors :: "string \<times> outcome \<times> duration \<Rightarrow> gerr list" where
  "answer_errors (n, Done, d) = []"
| "answer_errors (n, Failed e, d) = [Wrap (n @ '': '') e []]"
| "answer_errors (n, Panicked, d) = [Wrap (n @ '': '') (Text ''panicked during shutdown'') []]"

fun answer_line :: "string \<times> outcome \<times> duration \<Rightarrow> log_line" where
  "answer_line (n, Done, d) = LogComplete n d"
| "answer_line (n, Failed e, d) = LogFailed n d e"
| "answer_line (n, Panicked, d) = LogFailed n d (Text ''panicked during shutdown'')"

lemma runStep_answer:
  "td_fn st (if 0 < each then with_timeout ctx each (fst w) else ctx) w = Some (w1, r) \<Longrightarrow>
   runStep ctx st each w = Some (w1, case r of Done \<Rightarrow> None | Failed e \<Rightarrow> Some e | Panicked \<Rightarrow> Some panicked_error)"
  by (cases r) (simp_all add: runStep_def Do_def Let_def)

lemma sweep_answered:
  "answered ctx each sts w rs w' \<Longrightarrow>
   sweep ctx each sts errs log w =
     Some (w', errs @ concat (map answer_errors rs), log @ map answer_line rs)"
proof (induction arbitrary: errs log rule: answered.induct)
  case (one_more st w w1 r sts rs w2)
  from runStep_answer [OF one_more.hyps(1)] one_more.IH show ?case
    by (cases r) (simp_all add: Let_def step_error_def panicked_error_def)
qed simp

lemma answered_names: "answered ctx each sts w rs w' \<Longrightarrow> map fst rs = map td_name sts"
  by (induction rule: answered.induct) simp_all

lemma answered_exists:
  "\<forall>st\<in>set sts. step_returns (td_fn st) \<Longrightarrow> \<exists>rs w'. answered ctx each sts w rs w'"
proof (induction sts arbitrary: w)
  case Nil
  show ?case by (intro exI) (rule none_left)
next
  case (Cons st sts)
  let ?c = "if 0 < each then with_timeout ctx each (fst w) else ctx"
  have "step_returns (td_fn st)" using Cons.prems by simp
  then have "td_fn st ?c w \<noteq> None" unfolding step_returns_def by blast
  then obtain w1 r where 1: "td_fn st ?c w = Some (w1, r)" by fast
  obtain rs w' where 2: "answered ctx each sts w1 rs w'" using Cons.IH [of w1] Cons.prems by (meson list.set_intros(2))
  show ?case by (intro exI, rule one_more [OF 1 2])
qed

section \<open>Properties\<close>

text \<open>
  C7: when every step returns (with nil, with an error or by panicking), Shutdown returns. It has
  called every registered step once, the last registered first, each in the world the previous one
  left and with its deadline cut to the budget; its error joins the error of every step that
  answered one and a fixed error for every step that panicked, each under its step's name and in
  the order they ran, and nothing else (nil when none failed); it has logged one line for each,
  a failure exactly for those; and a second Shutdown does nothing and returns nil.
\<close>

theorem shutdown_lifo:
  assumes "\<not> sk_done s" and "\<forall>st\<in>set (sk_steps s). step_returns (td_fn st)"
  shows "\<exists>s' w' rs. Shutdown ctx each s w = Some (s', w', errors_join (concat (map answer_errors rs))) \<and>
      answered ctx each (rev (sk_steps s)) w rs w' \<and> map fst rs = rev (Names s) \<and>
      sk_log s' = sk_log s @ map answer_line rs \<and>
      Shutdown ctx' each' s' w' = Some (s', w', None)"
proof -
  obtain rs w' where rs: "answered ctx each (rev (sk_steps s)) w rs w'"
    using answered_exists [of "rev (sk_steps s)" ctx each w] assms(2) by (metis set_rev)
  show ?thesis
    using rs answered_names [OF rs]
    by (intro exI conjI, subst Shutdown_first [OF assms(1)])
       (auto simp: sweep_answered [OF rs] Names_def rev_map)
qed

definition demo_step :: "outcome \<Rightarrow> unit step_fn" where
  "demo_step r = (\<lambda>ctx w. Some (w, r))"

definition demo_stack :: "unit stack" where
  "demo_stack = Push ''http'' (Some (demo_step Panicked)) (Push ''db'' (Some (demo_step Done)) empty_stack)"

definition demo_failing :: "unit stack" where
  "demo_failing = Push ''jobs'' (Some (demo_step (Failed (Text ''late'')))) demo_stack"

theorem shutdown_lifo_witness:
  "\<exists>s' w' rs. Shutdown None 0 demo_failing (5, ()) = Some (s', w', errors_join (concat (map answer_errors rs))) \<and>
     rs = [(''jobs'', Failed (Text ''late''), 0), (''http'', Panicked, 0), (''db'', Done, 0)] \<and>
     map fst rs = rev (Names demo_failing)"
proof -
  have st: "\<not> sk_done demo_failing" "\<forall>st\<in>set (sk_steps demo_failing). step_returns (td_fn st)"
    by (simp_all add: demo_failing_def demo_stack_def empty_stack_def Push_def step_returns_def demo_step_def)
  have "answered None 0 (rev (sk_steps demo_failing)) (5, ()) rs w \<Longrightarrow>
      rs = [(''jobs'', Failed (Text ''late''), 0), (''http'', Panicked, 0), (''db'', Done, 0)]" for rs w
    by (simp add: demo_failing_def demo_stack_def empty_stack_def Push_def demo_step_def answered_simps time_sub_exact min_i64_def max_i64_def)
  with shutdown_lifo [OF st, of None 0 "(5, ())" None 0] show ?thesis by metis
qed

text \<open>
  When every step honours its context, a Shutdown bounded by a deadline and a budget per step
  returns by the deadline (at once if it has passed), and no later than one budget per step.
\<close>

theorem shutdown_bounded:
  assumes "\<not> sk_done s" and "\<forall>st\<in>set (sk_steps s). honours (td_fn st)" and "0 < each"
  shows "\<exists>s' t' w' err. Shutdown (Some d) each s (t, w) = Some (s', (t', w'), err) \<and>
    t' \<le> max t d \<and> t' \<le> t + int (stack_Len s) * each"
  using sweep_bounded [of "rev (sk_steps s)" each d "[]" "sk_log s" t w] assms
  by (auto simp: Shutdown_first stack_Len_def)

theorem shutdown_bounded_witness:
  "\<exists>s' t' w' err. Shutdown (Some 100) 15 demo_stack (5, ()) = Some (s', (t', w'), err) \<and>
     t' \<le> max 5 100 \<and> t' \<le> 5 + int (stack_Len demo_stack) * 15"
  by (rule shutdown_bounded)
     (simp_all add: demo_stack_def empty_stack_def Push_def honours_def demo_step_def)

lemma sweep_append:
  "sweep ctx each (xs @ ys) errs log w =
     (case sweep ctx each xs errs log w of
        None \<Rightarrow> None | Some (w', errs', log') \<Rightarrow> sweep ctx each ys errs' log' w')"
  by (induction ctx each xs errs log w rule: sweep.induct) (auto simp: Let_def split: option.splits)

lemma fold_Push:
  fixes s :: "'w stack"
  assumes "\<not> sk_done s"
  shows "\<not> sk_done (fold (\<lambda>(n, f). Push n (Some f)) upper s) \<and>
    sk_steps (fold (\<lambda>(n, f). Push n (Some f)) upper s) =
      sk_steps s @ map (\<lambda>(n, f). \<lparr>td_name = n, td_fn = f\<rparr>) upper"
  using assms
proof (induction upper arbitrary: s)
  case (Cons x upper)
  obtain n f where x: "x = (n, f)" by fastforce
  from Cons.IH [of "Push n (Some f) s"] Cons.prems show ?case by (simp add: x)
qed simp

text \<open>
  A step pushed with \<open>PushCloser\<close> gets no context, so nothing bounds it. When its \<open>Close\<close>
  never returns, Shutdown never returns, whatever the deadline and the budget, although the
  steps upper it have all run; the steps below it are never reached.
\<close>

theorem wedged_closer:
  fixes s :: "'w stack"
  assumes "\<not> sk_done s" and "\<And>w. close w = None"
  shows "Shutdown ctx each (fold (\<lambda>(n, f). Push n (Some f)) upper (PushCloser name (Some close) s)) w = None"
proof -
  define s1 where "s1 = fold (\<lambda>(n, f). Push n (Some f)) upper (PushCloser name (Some close) s)"
  have "\<not> sk_done (PushCloser name (Some close) s)" using assms(1) by (simp add: PushCloser_def)
  from fold_Push [OF this, of upper] assms(1) have nd: "\<not> sk_done s1"
    and steps: "sk_steps s1 = sk_steps s @ \<lparr>td_name = name, td_fn = (\<lambda>ctx. close)\<rparr> #
        map (\<lambda>(n, f). \<lparr>td_name = n, td_fn = f\<rparr>) upper"
    by (simp_all add: s1_def PushCloser_def)
  have "runStep ctx \<lparr>td_name = name, td_fn = (\<lambda>ctx. close)\<rparr> each w = None" for w
    by (simp add: runStep_def Do_def assms(2) Let_def)
  then show ?thesis
    unfolding s1_def [symmetric]
    by (simp add: Shutdown_first [OF nd] steps sweep_append split: option.split)
qed

theorem wedged_closer_witness:
  "Shutdown (Some 30) 15 (PushCloser ''api'' (Some (\<lambda>w. None)) demo_stack) (0, ()) = None"
  using wedged_closer [of demo_stack "\<lambda>w. None" "Some 30" 15 "[]" "''api''" "(0, ())"]
  by (simp add: demo_stack_def empty_stack_def Push_def)

text \<open>Concurrent callers: \<open>Push\<close> and \<open>take_steps\<close> are the sections under the mutex.\<close>

datatype 'w stack_call = CallPush string "'w step_fn option" | CallShutdown

fun call_stack :: "'w stack_call \<Rightarrow> 'w stack \<times> 'w teardown list list \<Rightarrow> 'w stack \<times> 'w teardown list list" where
  "call_stack (CallPush n f) (s, taken) = (Push n f s, taken)"
| "call_stack CallShutdown (s, taken) =
     (case take_steps s of (s', None) \<Rightarrow> (s', taken) | (s', Some sts) \<Rightarrow> (s', taken @ [sts]))"

fun pushed_before :: "'w stack_call list \<Rightarrow> 'w teardown list" where
  "pushed_before [] = []"
| "pushed_before (CallShutdown # cs) = []"
| "pushed_before (CallPush n None # cs) = pushed_before cs"
| "pushed_before (CallPush n (Some f) # cs) = \<lparr>td_name = n, td_fn = f\<rparr> # pushed_before cs"

lemma calls_done: "sk_done s \<Longrightarrow> snd (fold call_stack cs (s, taken)) = taken"
proof (induction cs arbitrary: s)
  case (Cons c cs)
  then show ?case by (cases c) (simp_all add: take_steps_def)
qed simp

lemma calls_open:
  "\<not> sk_done s \<Longrightarrow> snd (fold call_stack cs (s, [])) =
     (if CallShutdown \<in> set cs then [sk_steps s @ pushed_before cs] else [])"
proof (induction cs arbitrary: s rule: pushed_before.induct)
  case (2 cs)
  then show ?case by (simp add: take_steps_def calls_done)
qed simp_all

text \<open>
  However calls of \<open>Push\<close> and \<open>Shutdown\<close> interleave, exactly one Shutdown sweeps, the first
  to get the mutex, and it takes exactly the steps pushed before it; a step pushed later is never
  run and no step is run twice.
\<close>

theorem one_sweep:
  "snd (fold call_stack cs (empty_stack, [])) =
     (if CallShutdown \<in> set cs then [pushed_before cs] else [])"
  by (simp add: calls_open empty_stack_def)

end
