(* ===== verification/Netx.thy ===== *)
theory Netx
  imports GoErr Strconv
begin

text \<open>
  netx: the hint added to "address already in use", and the reading of lsof's output. What lsof
  prints is a parameter of \<open>LsofLookup\<close> (None when it cannot be run). \<open>isAddrInUse\<close> is the
  version of every platform but Plan 9. The dash of the messages is its UTF-8 encoding.
\<close>

definition EADDRINUSE :: string where
  "EADDRINUSE = ''address already in use''"

type_synonym lookup = "int \<Rightarrow> string \<times> int"

definition NoLookup :: lookup where
  "NoLookup port = ([], 0)"

fun isAddrInUse :: "gerr option \<Rightarrow> bool" where
  "isAddrInUse None = False"
| "isAddrInUse (Some e) = errors_is e EADDRINUSE"

definition em_dash :: string where
  "em_dash = [CHR 0xE2, CHR 0x80, CHR 0x94]"

definition pick_lookup :: "lookup option list \<Rightarrow> lookup" where
  "pick_lookup ls = (case ls of Some f # _ \<Rightarrow> f | _ \<Rightarrow> NoLookup)"

definition AddrInUseHint :: "gerr option \<Rightarrow> int \<Rightarrow> string \<Rightarrow> lookup option list \<Rightarrow> gerr option" where
  "AddrInUseHint err port envVar ls =
     (case err of
        None \<Rightarrow> None
      | Some e \<Rightarrow>
          if \<not> isAddrInUse err then err
          else
            (let (holder, pid) = pick_lookup ls port in
             if holder \<noteq> [] then
               Some (Wrap (''port '' @ itoa port @ '' is already in use by '' @ holder @ '' '' @ em_dash @
                 '' stop it with `kill '' @ itoa pid @ ''`, or set '' @ envVar @ '' to a free port: '') e [])
             else
               Some (Wrap (''port '' @ itoa port @ '' is already in use '' @ em_dash @
                 '' stop whatever is listening on it, or set '' @ envVar @ '' to a free port: '') e [])))"

fun lsof_scan :: "int \<Rightarrow> string \<Rightarrow> string list \<Rightarrow> string \<times> int" where
  "lsof_scan pid name [] = ([], 0)"
| "lsof_scan pid name (line # ls) =
     (if length line < 2 then lsof_scan pid name ls
      else
        case (if hd line = CHR ''p''
              then (case atoi (tl line) of None \<Rightarrow> None | Some p \<Rightarrow> Some (p, name))
              else if hd line = CHR ''c'' then Some (pid, tl line)
              else Some (pid, name)) of
          None \<Rightarrow> ([], 0)
        | Some (pid', name') \<Rightarrow>
            if pid' \<noteq> 0 \<and> name' \<noteq> [] then (name' @ '' (pid '' @ itoa pid' @ '')'', pid')
            else lsof_scan pid' name' ls)"

definition LsofLookup :: "(int \<Rightarrow> string option) \<Rightarrow> lookup" where
  "LsofLookup lsof port =
     (case lsof port of None \<Rightarrow> ([], 0) | Some out \<Rightarrow> lsof_scan 0 [] (split_on (CHR 0x0A) out))"

lemma lsof_scan_label:
  "lsof_scan pid name ls = (label, p) \<Longrightarrow>
   (label = [] \<and> p = 0) \<or> (\<exists>n. n \<noteq> [] \<and> p \<noteq> 0 \<and> label = n @ '' (pid '' @ itoa p @ '')'')"
proof (induction ls arbitrary: pid name)
  case (Cons line ls)
  then show ?case by (fastforce split: if_splits option.splits prod.splits)
qed simp

text \<open>What lsof prints for one listener: a line with the pid, a line with the command.\<close>

lemma lsof_scan_record:
  assumes "p \<noteq> 0" "min_i64 \<le> p" "p \<le> max_i64" "n \<noteq> []"
  shows "lsof_scan 0 [] ((CHR ''p'' # itoa p) # (CHR ''c'' # n) # ls) =
    (n @ '' (pid '' @ itoa p @ '')'', p)"
proof -
  have "itoa p \<noteq> []" by (simp add: itoa_def)
  then have "\<not> length (CHR ''p'' # itoa p) < 2" by (cases "itoa p") simp_all
  moreover have "\<not> length (CHR ''c'' # n) < 2" using assms(4) by (cases n) simp_all
  ultimately show ?thesis using assms by (simp add: atoi_itoa)
qed

section \<open>Properties\<close>

text \<open>
  The hint is transparent: an error that is not EADDRINUSE comes back untouched without the
  lookup, and whatever the lookup finds, \<open>errors.Is\<close> answers for the hinted error exactly as for
  the original one; nil stays nil.
\<close>

theorem hint_transparent:
  "(AddrInUseHint err port envVar ls = None \<longleftrightarrow> err = None) \<and>
   (\<not> isAddrInUse err \<longrightarrow> AddrInUseHint err port envVar ls = err) \<and>
   (\<forall>e e' s. err = Some e \<and> AddrInUseHint err port envVar ls = Some e' \<longrightarrow>
      errors_is e' s = errors_is e s)"
  by (cases err) (auto simp: AddrInUseHint_def split: prod.splits if_splits)

theorem hint_transparent_witness:
  "\<exists>e'. AddrInUseHint (Some (Wrap ''listen: '' (Sentinel EADDRINUSE) [])) 8080 ''PORT'' [None] = Some e' \<and>
     errors_is e' EADDRINUSE"
  using hint_transparent [of "Some (Wrap ''listen: '' (Sentinel EADDRINUSE) [])" 8080 "''PORT''" "[None]"]
  by (metis errors_is_Sentinel errors_is_Wrap not_Some_eq)

end
