(* ===== verification/Buildinfo.thy ===== *)
theory Buildinfo
  imports Prelude
begin

text \<open>
  buildinfo/buildinfo.go: the identity of the binary. The toolchain's facts and the settings of
  \<open>debug.ReadBuildInfo\<close> (None when it has none) are parameters.
\<close>

record info =
  bi_Version :: string
  bi_Commit :: string
  bi_Date :: string
  bi_Dirty :: bool
  bi_GoVersion :: string
  bi_OS :: string
  bi_Arch :: string

definition DevVersion :: string where
  "DevVersion = ''dev''"

definition fill_setting :: "string \<times> string \<Rightarrow> info \<Rightarrow> info" where
  "fill_setting kv i =
     (let (key, v) = kv in
      if key = ''vcs.revision'' then (if bi_Commit i = [] then i\<lparr>bi_Commit := v\<rparr> else i)
      else if key = ''vcs.time'' then (if bi_Date i = [] then i\<lparr>bi_Date := v\<rparr> else i)
      else if key = ''vcs.modified'' then i\<lparr>bi_Dirty := (v = ''true'')\<rparr>
      else i)"

definition Get_info ::
    "string \<times> string \<times> string \<Rightarrow> (string \<times> string) list option \<Rightarrow> string \<Rightarrow> string \<Rightarrow> string \<Rightarrow> info" where
  "Get_info runtime settings version commit date =
     (let (gover, os, arch) = runtime;
          i0 = \<lparr>bi_Version = trim_space version, bi_Commit = trim_space commit,
                bi_Date = trim_space date, bi_Dirty = False, bi_GoVersion = gover, bi_OS = os,
                bi_Arch = arch\<rparr>;
          i = (if bi_Version i0 = [] then i0\<lparr>bi_Version := DevVersion\<rparr> else i0)
      in case settings of None \<Rightarrow> i | Some kvs \<Rightarrow> fold fill_setting kvs i)"

definition ShortCommit :: "info \<Rightarrow> string" where
  "ShortCommit i = (if length (bi_Commit i) \<le> 7 then bi_Commit i else take 7 (bi_Commit i))"

definition info_String :: "info \<Rightarrow> string" where
  "info_String i =
     (let c = ShortCommit i in
      bi_Version i @
      (if c \<noteq> [] then '' ('' @ c @ (if bi_Dirty i then '', dirty'' else []) @ '')''
       else if bi_Dirty i then '' (dirty)'' else []))"

section \<open>Lemmas\<close>

lemma ShortCommit_take: "ShortCommit i = take 7 (bi_Commit i)"
  by (simp add: ShortCommit_def)

lemma fill_setting_keeps:
  "bi_Version (fill_setting kv i) = bi_Version i"
  "bi_Commit i \<noteq> [] \<Longrightarrow> bi_Commit (fill_setting kv i) = bi_Commit i"
  "bi_Date i \<noteq> [] \<Longrightarrow> bi_Date (fill_setting kv i) = bi_Date i"
  by (simp_all add: fill_setting_def split: prod.split)

lemma fill_settings_keep:
  "bi_Version (fold fill_setting kvs i) = bi_Version i"
  "bi_Commit i \<noteq> [] \<Longrightarrow> bi_Commit (fold fill_setting kvs i) = bi_Commit i"
  "bi_Date i \<noteq> [] \<Longrightarrow> bi_Date (fold fill_setting kvs i) = bi_Date i"
  by (induction kvs arbitrary: i) (simp_all add: fill_setting_keeps)

lemma Get_info_fills:
  "bi_Version (Get_info rt st v c d) = (if trim_space v = [] then DevVersion else trim_space v)"
  "trim_space c \<noteq> [] \<Longrightarrow> bi_Commit (Get_info rt st v c d) = trim_space c"
  "trim_space d \<noteq> [] \<Longrightarrow> bi_Date (Get_info rt st v c d) = trim_space d"
  by (simp_all add: Get_info_def Let_def fill_settings_keep split: option.split prod.split)

lemma Get_info_version_set: "bi_Version (Get_info rt st v c d) \<noteq> []"
  by (simp add: Get_info_fills DevVersion_def)

lemma info_String_nonempty: "bi_Version i \<noteq> [] \<Longrightarrow> info_String i \<noteq> []"
  by (simp add: info_String_def Let_def)

end
