(* ===== verification/App.thy ===== *)
theory App
  imports Lifecycle Netx Buildinfo
begin

text \<open>
  app/app.go and app/run.go: the boot sequence and the teardown.

  The world the teardown steps act on has the two signals an application owns, the cancelled
  application context and the released stream signal, and a rest the application's own steps act
  on. Fiber's drain (\<open>HTTP.ShutdownWithTimeout\<close>), \<open>safe.WaitGo\<close> and the shutdown functions of
  \<open>tracing.Init\<close> and \<open>metrics.Init\<close> are parameters, as are the failures of these two. The HTTP
  server is the configuration and the list of handlers \<open>newFiber\<close> registers, in order. Fiber itself
  is a parameter: which configurations \<open>fiber.New\<close> takes and which origins \<open>cors.New\<close> takes. Both
  panic on the others, as \<open>Options.Fiber\<close> may, and \<open>newFiber\<close> and \<open>New\<close> panic with them (None).
\<close>

section \<open>Options and configuration\<close>

definition shutdownGraceTimeout :: duration where "shutdownGraceTimeout = 30 * second"
definition shutdownStepTimeout :: duration where "shutdownStepTimeout = 15 * second"
definition httpDrainTimeout :: duration where "httpDrainTimeout = 10 * second"

definition defaultBodyLimit :: int where "defaultBodyLimit = 2 ^ 20"
definition defaultReadTimeout :: duration where "defaultReadTimeout = 15 * second"
definition defaultIdleTimeout :: duration where "defaultIdleTimeout = 120 * second"

definition LivePath :: string where "LivePath = ''/healthz''"
definition MetricsPath :: string where "MetricsPath = ''/metrics''"
definition DefaultAPIBase :: string where "DefaultAPIBase = ''/api/v1''"
definition DefaultAuthBase :: string where "DefaultAuthBase = ''/api/auth''"

definition orDefault :: "string \<Rightarrow> string \<Rightarrow> string" where
  "orDefault v def = (if trim_space v = [] then def else trim_space v)"

record fiber_config =
  fc_AppName :: string
  fc_BodyLimit :: int
  fc_ReadTimeout :: duration
  fc_IdleTimeout :: duration

record options =
  o_Name :: string
  o_Version :: string
  o_MetricsToken :: string
  o_CorsOrigins :: "string list"
  o_Fiber :: "(fiber_config \<Rightarrow> fiber_config option) option"
  o_APIBase :: string
  o_AuthBase :: string

section \<open>The HTTP server\<close>

datatype handler =
    HRecover
  | HLive string
  | HMetrics string string  \<comment> \<open>path, bearer token\<close>
  | HRequestID
  | HTracing
  | HMetricsAndLogger
  | HCompress
  | HCors "string list" "string list" "string list"

definition bearerGuard :: "string \<Rightarrow> string \<Rightarrow> gerr option" where
  "bearerGuard token authorization =
     (if token = [] then None
      else if authorization \<noteq> ''Bearer '' @ token then Some (FiberErr 401 ''unauthorized'')
      else None)"

definition compress_skips :: "string \<Rightarrow> bool" where
  "compress_skips accept = contains_sub accept ''text/event-stream''"

text \<open>Fiber: the configurations \<open>fiber.New\<close> does not panic on, and the origins \<open>cors.New\<close> does not.\<close>

record fiber_lib =
  fl_config :: "fiber_config \<Rightarrow> bool"
  fl_cors :: "string list \<Rightarrow> bool"

definition default_config :: "options \<Rightarrow> fiber_config" where
  "default_config opts = \<lparr>fc_AppName = o_Name opts, fc_BodyLimit = defaultBodyLimit,
     fc_ReadTimeout = defaultReadTimeout, fc_IdleTimeout = defaultIdleTimeout\<rparr>"

text \<open>\<open>Options.Fiber\<close> adjusts the defaults; None is its panic.\<close>

definition adjusted_config :: "options \<Rightarrow> fiber_config option" where
  "adjusted_config opts =
     (case o_Fiber opts of None \<Rightarrow> Some (default_config opts) | Some f \<Rightarrow> f (default_config opts))"

definition newFiber :: "fiber_lib \<Rightarrow> options \<Rightarrow> bool \<Rightarrow> (fiber_config \<times> handler list) option" where
  "newFiber lib opts scrape =
     (case adjusted_config opts of
        None \<Rightarrow> None
      | Some cfg \<Rightarrow>
          if \<not> fl_config lib cfg then None
          else if \<not> fl_cors lib (o_CorsOrigins opts) then None
          else Some (cfg,
            [HRecover, HLive LivePath] @
            (if scrape then [HMetrics MetricsPath (o_MetricsToken opts)] else []) @
            [HRequestID, HTracing, HMetricsAndLogger, HCompress,
             HCors (o_CorsOrigins opts) [''Origin'', ''Content-Type'', ''Accept'']
               [''GET'', ''POST'', ''PATCH'', ''PUT'', ''DELETE'', ''OPTIONS'']]))"

section \<open>New\<close>

record 'r aworld =
  aw_cancelled :: bool
  aw_released :: bool
  aw_rest :: 'r

record 'r app =
  a_Name :: string
  a_Version :: string
  a_Shutdown :: "'r aworld stack"
  a_APIBase :: string
  a_AuthBase :: string
  a_HTTP :: "fiber_config \<times> handler list"

text \<open>None: New panics, after the telemetry is up.\<close>

definition New_app ::
    "fiber_lib \<Rightarrow> info \<Rightarrow> gerr + 'r aworld step_fn \<Rightarrow> gerr + ('r aworld step_fn \<times> bool) \<Rightarrow> options \<Rightarrow>
     (gerr + 'r app) option" where
  "New_app lib build tracing metrics opts =
     (if trim_space (o_Name opts) = [] then Some (Inl (Text ''app: Options.Name is required''))
      else
        (let version = (if trim_space (o_Version opts) = [] then info_String build
                        else o_Version opts) in
         case tracing of
           Inl err \<Rightarrow> Some (Inl err)
         | Inr traceShutdown \<Rightarrow>
             (case metrics of
                Inl err \<Rightarrow> Some (Inl err)
              | Inr (metricsShutdown, scrape) \<Rightarrow>
                  (case newFiber lib opts scrape of
                     None \<Rightarrow> None
                   | Some http \<Rightarrow>
                       Some (Inr \<lparr>a_Name = o_Name opts, a_Version = version,
                         a_Shutdown = Push ''metrics-export'' (Some metricsShutdown)
                                        (Push ''tracing'' (Some traceShutdown) empty_stack),
                         a_APIBase = orDefault (o_APIBase opts) DefaultAPIBase,
                         a_AuthBase = orDefault (o_AuthBase opts) DefaultAuthBase,
                         a_HTTP = http\<rparr>)))))"

text \<open>The context \<open>App.Context\<close> returns, as a test of the world: whether it is done.\<close>

definition Context :: "'r app \<Rightarrow> 'r aworld \<Rightarrow> bool" where
  "Context a w = aw_cancelled w"

section \<open>Run and Close\<close>

definition app_cancel :: "'r aworld closer" where
  "app_cancel tw = Some ((fst tw, (snd tw)\<lparr>aw_cancelled := True\<rparr>), Done)"

definition signalShutdown :: "'r aworld closer" where
  "signalShutdown tw = Some ((fst tw, (snd tw)\<lparr>aw_released := True\<rparr>), Done)"

definition pushRunSteps ::
    "(duration \<Rightarrow> 'r aworld closer) \<Rightarrow> 'r aworld step_fn \<Rightarrow> 'r app \<Rightarrow> 'r app" where
  "pushRunSteps drain waitGo a =
     (let s1 = Push ''background-work'' (Some waitGo) (a_Shutdown a);
          s2 = Push ''background-context'' (Some (\<lambda>ctx. app_cancel)) s1;
          s3 = Push ''api'' (Some (\<lambda>ctx. drain httpDrainTimeout)) s2;
          s4 = Push ''streams'' (Some (\<lambda>ctx. signalShutdown)) s3
      in a\<lparr>a_Shutdown := s4\<rparr>)"

definition Close_app ::
    "'r app \<Rightarrow> instant \<times> 'r aworld \<Rightarrow> ('r app \<times> (instant \<times> 'r aworld) \<times> gerr option) option" where
  "Close_app a tw =
     (case Shutdown (Some (fst tw + shutdownGraceTimeout)) shutdownStepTimeout (a_Shutdown a) tw of
        None \<Rightarrow> None
      | Some (s, (t, w), err) \<Rightarrow>
          Some (a\<lparr>a_Shutdown := s\<rparr>, (t, w\<lparr>aw_cancelled := True, aw_released := True\<rparr>), err))"

text \<open>What ends the wait of \<open>Run\<close>: a signal, or the listener's error.\<close>

datatype quit_event = GotSignal | ListenFailed gerr

definition Run_app ::
    "(duration \<Rightarrow> 'r aworld closer) \<Rightarrow> 'r aworld step_fn \<Rightarrow> int \<Rightarrow> quit_event \<Rightarrow> 'r app \<Rightarrow>
     instant \<times> 'r aworld \<Rightarrow> ('r app \<times> (instant \<times> 'r aworld) \<times> gerr option) option" where
  "Run_app drain waitGo port ev a tw =
     (let fatal = (case ev of
            GotSignal \<Rightarrow> None
          | ListenFailed e \<Rightarrow>
              (case AddrInUseHint (Some e) port ''PORT'' [] of
                 None \<Rightarrow> None | Some h \<Rightarrow> Some (Wrap ''api server: '' h [])))
      in case Close_app (pushRunSteps drain waitGo a) tw of
           None \<Rightarrow> None
         | Some (a', tw', shutdownErr) \<Rightarrow>
             Some (a', tw', case fatal of Some e \<Rightarrow> Some e | None \<Rightarrow> shutdownErr))"

text \<open>\<open>StreamContext\<close>: a stream ends with its request, with its own cancel, or with the release.\<close>

record stream_ctx =
  sc_request_done :: bool
  sc_cancelled :: bool
  sc_registered :: bool  \<comment> \<open>the AfterFunc registration on the shutdown signal\<close>

definition StreamContext :: "bool \<Rightarrow> bool \<Rightarrow> stream_ctx" where
  "StreamContext request_done released =
     \<lparr>sc_request_done = request_done, sc_cancelled = released, sc_registered = \<not> released\<rparr>"

definition stream_released :: "stream_ctx \<Rightarrow> stream_ctx" where
  "stream_released s =
     (if sc_registered s then s\<lparr>sc_cancelled := True, sc_registered := False\<rparr> else s)"

definition stream_cancel :: "stream_ctx \<Rightarrow> stream_ctx" where
  "stream_cancel s = s\<lparr>sc_registered := False, sc_cancelled := True\<rparr>"

definition stream_done :: "stream_ctx \<Rightarrow> bool" where
  "stream_done s = (sc_request_done s \<or> sc_cancelled s)"

section \<open>listenAddress\<close>

definition JoinHostPort :: "string \<Rightarrow> string \<Rightarrow> string" where
  "JoinHostPort host port =
     (if CHR '':'' \<in> set host then ''['' @ host @ '']:'' @ port else host @ '':'' @ port)"

definition listenAddress :: "string \<Rightarrow> int \<Rightarrow> string \<times> string" where
  "listenAddress bindAddr port =
     (let host0 = trim_space bindAddr;
          host = (if length host0 \<ge> 2 \<and> hd host0 = CHR ''['' \<and> last host0 = CHR '']''
                  then butlast (tl host0) else host0);
          network = (if host \<noteq> [] then ''tcp'' else ''tcp4'')
      in (JoinHostPort host (itoa port), network))"

section \<open>Lemmas\<close>

lemma StreamContext_ends [simp]:
  "stream_done (stream_cancel s)" "\<not> sc_registered (stream_cancel s)"
  "stream_done (stream_released (StreamContext r b))"
  by (simp_all add: stream_done_def stream_cancel_def stream_released_def StreamContext_def)

lemma listenAddress_brackets:
  assumes "trim_space a = a" "CHR '':'' \<in> set a" "hd a \<noteq> CHR ''[''" "trim_space (''['' @ a @ '']'') = ''['' @ a @ '']''"
  shows "listenAddress (''['' @ a @ '']'') p = listenAddress a p"
  using assms by (simp add: listenAddress_def Let_def butlast_append)

lemma bearerGuard_iff: "bearerGuard token auth = None \<longleftrightarrow> token = [] \<or> auth = ''Bearer '' @ token"
  by (simp add: bearerGuard_def)

lemma pushRunSteps_steps:
  "\<not> sk_done (a_Shutdown a) \<Longrightarrow>
   sk_steps (a_Shutdown (pushRunSteps drain waitGo a)) = sk_steps (a_Shutdown a) @
     [\<lparr>td_name = ''background-work'', td_fn = waitGo\<rparr>,
      \<lparr>td_name = ''background-context'', td_fn = (\<lambda>ctx. app_cancel)\<rparr>,
      \<lparr>td_name = ''api'', td_fn = (\<lambda>ctx. drain httpDrainTimeout)\<rparr>,
      \<lparr>td_name = ''streams'', td_fn = (\<lambda>ctx. signalShutdown)\<rparr>] \<and>
   \<not> sk_done (a_Shutdown (pushRunSteps drain waitGo a)) \<and>
   sk_log (a_Shutdown (pushRunSteps drain waitGo a)) = sk_log (a_Shutdown a)"
  by (simp add: pushRunSteps_def Let_def)

lemma runStep_ok:
  "f (with_timeout (Some d) each t) (t, w) = Some (tw', r) \<Longrightarrow> 0 < each \<Longrightarrow>
   \<exists>err. runStep (Some d) \<lparr>td_name = n, td_fn = f\<rparr> each (t, w) = Some (tw', err)"
  by (simp add: runStep_def Do_def)

lemma sweep_step:
  assumes "runStep ctx st each w = Some (w', err)"
    and "\<And>errs log. \<exists>r. sweep ctx each sts errs log w' = Some r"
  shows "\<exists>r. sweep ctx each (st # sts) errs log w = Some r"
  using assms by (cases err) (simp_all add: Let_def)

lemma run_steps_return:
  assumes drain: "\<And>t w. aw_released w \<Longrightarrow> drain httpDrainTimeout (t, w) \<noteq> None"
    and wait: "\<And>ctx t w. aw_cancelled w \<Longrightarrow> waitGo ctx (t, w) \<noteq> None"
    and own: "\<forall>st\<in>set own. step_returns (td_fn st)" and each: "0 < each"
  shows "\<exists>r. sweep (Some d) each
     (\<lparr>td_name = ''streams'', td_fn = (\<lambda>ctx. signalShutdown)\<rparr> #
      \<lparr>td_name = ''api'', td_fn = (\<lambda>ctx. drain httpDrainTimeout)\<rparr> #
      \<lparr>td_name = ''background-context'', td_fn = (\<lambda>ctx. app_cancel)\<rparr> #
      \<lparr>td_name = ''background-work'', td_fn = waitGo\<rparr> # own) errs log (t, w) = Some r"
proof -
  obtain e1 where s1: "runStep (Some d) \<lparr>td_name = ''streams'', td_fn = (\<lambda>ctx. signalShutdown)\<rparr>
      each (t, w) = Some ((t, w\<lparr>aw_released := True\<rparr>), e1)"
    using runStep_ok [of "\<lambda>ctx. signalShutdown", OF _ each] by (metis signalShutdown_def fst_conv snd_conv)
  obtain t2 w2 r2 where "drain httpDrainTimeout (t, w\<lparr>aw_released := True\<rparr>) = Some ((t2, w2), r2)"
    using drain [of "w\<lparr>aw_released := True\<rparr>" t] by auto
  then obtain e2 where s2: "runStep (Some d) \<lparr>td_name = ''api'', td_fn = (\<lambda>ctx. drain httpDrainTimeout)\<rparr>
      each (t, w\<lparr>aw_released := True\<rparr>) = Some ((t2, w2), e2)"
    using runStep_ok [of "\<lambda>ctx. drain httpDrainTimeout", OF _ each] by blast
  obtain e3 where s3: "runStep (Some d) \<lparr>td_name = ''background-context'', td_fn = (\<lambda>ctx. app_cancel)\<rparr>
      each (t2, w2) = Some ((t2, w2\<lparr>aw_cancelled := True\<rparr>), e3)"
    using runStep_ok [of "\<lambda>ctx. app_cancel", OF _ each] by (metis app_cancel_def fst_conv snd_conv)
  obtain tw4 r4 where "waitGo (with_timeout (Some d) each t2) (t2, w2\<lparr>aw_cancelled := True\<rparr>) = Some (tw4, r4)"
    using wait [of "w2\<lparr>aw_cancelled := True\<rparr>"] by fastforce
  then obtain e4 where s4: "runStep (Some d) \<lparr>td_name = ''background-work'', td_fn = waitGo\<rparr>
      each (t2, w2\<lparr>aw_cancelled := True\<rparr>) = Some (tw4, e4)"
    using runStep_ok [of waitGo, OF _ each] by blast
  show ?thesis
    by (rule sweep_step [OF s1], rule sweep_step [OF s2], rule sweep_step [OF s3],
        rule sweep_step [OF s4], rule sweep_returns [OF own])
qed

section \<open>Properties\<close>

text \<open>
  C5: the teardown of a running application returns even though the drain may hang while event
  streams are open and the join of background work may hang while its context is live: when the
  drain returns once the streams are released, the join returns once the application context is
  cancelled, and the application's own steps return, then Close returns, with both signals given.
\<close>

theorem close_returns:
  assumes "\<not> sk_done (a_Shutdown a)"
    and "\<And>t w. aw_released w \<Longrightarrow> drain httpDrainTimeout (t, w) \<noteq> None"
    and "\<And>ctx t w. aw_cancelled w \<Longrightarrow> waitGo ctx (t, w) \<noteq> None"
    and "\<forall>st\<in>set (sk_steps (a_Shutdown a)). step_returns (td_fn st)"
  shows "\<exists>a' t' w' err. Close_app (pushRunSteps drain waitGo a) (t, w) = Some (a', (t', w'), err) \<and>
    aw_cancelled w' \<and> aw_released w' \<and> sk_done (a_Shutdown a') \<and>
    Close_app a' (t'', w') = Some (a', (t'', w'), None)"
proof -
  note steps = pushRunSteps_steps [OF assms(1), of drain waitGo]
  have own: "\<forall>st\<in>set (rev (sk_steps (a_Shutdown a))). step_returns (td_fn st)" using assms(4) by simp
  have each: "0 < shutdownStepTimeout" by (simp add: shutdownStepTimeout_def second_def)
  have rv: "rev (sk_steps (a_Shutdown (pushRunSteps drain waitGo a))) =
     \<lparr>td_name = ''streams'', td_fn = (\<lambda>ctx. signalShutdown)\<rparr> #
     \<lparr>td_name = ''api'', td_fn = (\<lambda>ctx. drain httpDrainTimeout)\<rparr> #
     \<lparr>td_name = ''background-context'', td_fn = (\<lambda>ctx. app_cancel)\<rparr> #
     \<lparr>td_name = ''background-work'', td_fn = waitGo\<rparr> # rev (sk_steps (a_Shutdown a))"
    by (simp add: steps)
  obtain r where r: "sweep (Some (t + shutdownGraceTimeout)) shutdownStepTimeout
      (rev (sk_steps (a_Shutdown (pushRunSteps drain waitGo a)))) [] (sk_log (a_Shutdown a)) (t, w) = Some r"
    using run_steps_return [of drain waitGo, OF assms(2,3) own each] unfolding rv by blast
  obtain t' w' errs log where "r = ((t', w'), errs, log)" by (cases r) auto
  with r steps show ?thesis
    by (simp add: Close_app_def Shutdown_first)
qed

text \<open>Whatever is registered, Close logs every step, the last registered first.\<close>

lemma Close_logs:
  assumes "\<not> sk_done (a_Shutdown a)" "sk_log (a_Shutdown a) = []"
    and "Close_app a tw = Some (a', tw', err)"
  shows "map logged_name (sk_log (a_Shutdown a')) = rev (Names (a_Shutdown a))"
proof -
  obtain w' errs log where run: "sweep (Some (fst tw + shutdownGraceTimeout)) shutdownStepTimeout
      (rev (sk_steps (a_Shutdown a))) [] [] tw = Some (w', errs, log)"
    and a': "sk_log (a_Shutdown a') = log"
    using assms by (auto simp: Close_app_def Shutdown_first split: option.splits)
  from sweep_logs [OF run] a' show ?thesis by (auto simp: Names_def rev_map)
qed

definition demo_app :: "unit app" where
  "demo_app = \<lparr>a_Name = ''x'', a_Version = ''1'', a_Shutdown = empty_stack, a_APIBase = [],
     a_AuthBase = [], a_HTTP = (\<lparr>fc_AppName = [], fc_BodyLimit = 0, fc_ReadTimeout = 0, fc_IdleTimeout = 0\<rparr>, [])\<rparr>"

theorem close_returns_witness:
  "\<exists>a' t' w' err. Close_app (pushRunSteps
       (\<lambda>d (t, w). if aw_released w then Some ((t + 1, w), Done) else None)
       (\<lambda>ctx (t, w). if aw_cancelled w then Some ((t + 1, w), Done) else None) demo_app)
     (0, \<lparr>aw_cancelled = False, aw_released = False, aw_rest = ()\<rparr>) = Some (a', (t', w'), err) \<and>
     aw_cancelled w' \<and> aw_released w'"
  using close_returns [of demo_app "\<lambda>d (t, w). if aw_released w then Some ((t + 1, w), Done) else None"
      "\<lambda>ctx (t, w). if aw_cancelled w then Some ((t + 1, w), Done) else None" 0
      "\<lparr>aw_cancelled = False, aw_released = False, aw_rest = ()\<rparr>" 0]
  by (fastforce simp: demo_app_def empty_stack_def)

text \<open>
  The order of the teardown: for an application made by New, with the application's own steps
  pushed between New and Run, Close runs streams, api, background-context, background-work, the
  application's steps in reverse, metrics-export and tracing, in that order.
\<close>

theorem close_order:
  assumes "New_app lib build (Inr trace) (Inr (metr, scrape)) opts = Some (Inr a)"
    and "a1 = a\<lparr>a_Shutdown := fold (\<lambda>(n, f). Push n (Some f)) own (a_Shutdown a)\<rparr>"
    and "Close_app (pushRunSteps drain waitGo a1) tw = Some (a', tw', err)"
  shows "map logged_name (sk_log (a_Shutdown a')) =
    [''streams'', ''api'', ''background-context'', ''background-work''] @ rev (map fst own) @
    [''metrics-export'', ''tracing'']"
proof -
  have nd: "\<not> sk_done (a_Shutdown a)" "sk_log (a_Shutdown a) = []"
    "Names (a_Shutdown a) = [''tracing'', ''metrics-export'']"
    using assms(1) by (auto simp: New_app_def empty_stack_def Names_def split: if_splits option.splits)
  have fold: "\<not> sk_done s \<Longrightarrow> sk_log (fold (\<lambda>(n, f). Push n (Some f)) own s) = sk_log s"
    for s :: "'a aworld stack"
    by (induction own arbitrary: s) auto
  have a1: "\<not> sk_done (a_Shutdown a1)" "sk_log (a_Shutdown a1) = []"
    "map td_name (sk_steps (a_Shutdown a1)) = [''tracing'', ''metrics-export''] @ map fst own"
    using fold_Push [OF nd(1), of own] fold [OF nd(1)] nd
    by (auto simp: assms(2) Names_def case_prod_unfold)
  note steps = pushRunSteps_steps [OF a1(1), of drain waitGo]
  then have "map logged_name (sk_log (a_Shutdown a')) = rev (Names (a_Shutdown (pushRunSteps drain waitGo a1)))"
    using Close_logs [OF _ _ assms(3)] a1(2) by simp
  then show ?thesis by (simp add: Names_def steps a1(3))
qed

lemma trim_svc: "trim_space ''svc'' = ''svc''"
proof (rule trim_space_id)
  show "leading_space ''svc'' = 0" "trailing_space ''svc'' = 0" by code_simp+
qed

definition any_fiber :: fiber_lib where
  "any_fiber = \<lparr>fl_config = \<lambda>_. True, fl_cors = \<lambda>_. True\<rparr>"

theorem close_order_witness:
  "\<exists>(a :: unit app) (a' :: unit app). New_app any_fiber (Get_info ([], [], []) None [] [] []) (Inr (\<lambda>ctx w. Some (w, Done)))
       (Inr (\<lambda>ctx w. Some (w, Failed (Text ''x'')), True))
       \<lparr>o_Name = ''svc'', o_Version = [], o_MetricsToken = [], o_CorsOrigins = [], o_Fiber = None,
        o_APIBase = [], o_AuthBase = []\<rparr> = Some (Inr a) \<and>
     map logged_name (sk_log (a_Shutdown a')) = [''streams'', ''api'', ''background-context'',
       ''background-work'', ''database'', ''metrics-export'', ''tracing'']"
proof -
  let ?New = "New_app any_fiber (Get_info ([], [], []) None [] [] []) (Inr (\<lambda>ctx w. Some (w, Done)))
       (Inr (\<lambda>ctx w. Some (w, Failed (Text ''x'')), True))
       \<lparr>o_Name = ''svc'', o_Version = [], o_MetricsToken = [], o_CorsOrigins = [], o_Fiber = None,
        o_APIBase = [], o_AuthBase = []\<rparr> :: (gerr + unit app) option"
  obtain a where a: "?New = Some (Inr a)"
    by (simp add: New_app_def newFiber_def adjusted_config_def any_fiber_def trim_svc)
  let ?own = "[(''database'', \<lambda>ctx w. Some (w, Panicked))] :: (string \<times> unit aworld step_fn) list"
  let ?a1 = "a\<lparr>a_Shutdown := fold (\<lambda>(n, f). Push n (Some f)) ?own (a_Shutdown a)\<rparr>"
  have nd: "\<not> sk_done (a_Shutdown ?a1)"
    and ret: "\<forall>st\<in>set (sk_steps (a_Shutdown ?a1)). step_returns (td_fn st)"
    using a by (auto simp: New_app_def newFiber_def adjusted_config_def any_fiber_def trim_svc empty_stack_def
        Push_def step_returns_def)
  obtain a' t' w' err where "Close_app (pushRunSteps (\<lambda>d w. Some (w, Done)) (\<lambda>ctx w. Some (w, Done)) ?a1)
      (0, \<lparr>aw_cancelled = False, aw_released = False, aw_rest = ()\<rparr>) = Some (a', (t', w'), err)"
    using run_steps_return [of "\<lambda>d w. Some (w, Done)" "\<lambda>ctx w. Some (w, Done)" "rev (sk_steps (a_Shutdown ?a1))"
        shutdownStepTimeout "0 + shutdownGraceTimeout" "[]" "sk_log (a_Shutdown ?a1)" 0
        "\<lparr>aw_cancelled = False, aw_released = False, aw_rest = ()\<rparr>"]
      ret pushRunSteps_steps [OF nd, of "\<lambda>d w. Some (w, Done)" "\<lambda>ctx w. Some (w, Done)"]
    by (auto simp: Close_app_def Shutdown_first shutdownStepTimeout_def second_def)
  from close_order [OF a refl this] have "map logged_name (sk_log (a_Shutdown a')) =
      [''streams'', ''api'', ''background-context'', ''background-work'', ''database'',
       ''metrics-export'', ''tracing'']" by simp
  with a show ?thesis
    by - (rule exI [of _ a], rule exI [of _ a'], rule conjI)
qed

end
