(* ===== verification/Calendar.thy ===== *)
theory Calendar
  imports Strconv
begin

text \<open>
  The proleptic Gregorian calendar of package time, on instants counted from 0001-01-01T00:00:00Z,
  and its RFC 3339 layout: \<open>stamp\<close> is \<open>t.UTC().Format("2006-01-02T15:04:05Z07:00")\<close>,
  \<open>rfc3339\<close> is \<open>time.Parse\<close> with that layout (None for its error), with what Parse tolerates: an
  hour of one digit, a fraction of a second after a point or a comma, an offset from UTC.

  The lemmas: days and dates are inverse to each other; \<open>rfc3339\<close> reads back what \<open>stamp\<close> wrote,
  cut to the second; for the years 1 to 9999 the strings sort as the instants do.
\<close>

section \<open>Days and dates\<close>

definition leap :: "int \<Rightarrow> bool" where
  "leap y \<longleftrightarrow> 4 dvd y \<and> (\<not> 100 dvd y \<or> 400 dvd y)"

definition leap_day :: "int \<Rightarrow> int" where
  "leap_day y = (if leap y then 1 else 0)"

definition days_before_year :: "int \<Rightarrow> int" where
  "days_before_year y = 365 * (y - 1) + (y - 1) div 4 - (y - 1) div 100 + (y - 1) div 400"

definition civil_year :: "int \<Rightarrow> int" where
  "civil_year d =
     (let r = d mod 146097; b = min 3 (r div 36524); r1 = r - b * 36524; c = r1 div 1461;
          r2 = r1 - c * 1461; e = min 3 (r2 div 365)
      in 400 * (d div 146097) + 100 * b + 4 * c + e + 1)"

definition days_before_month :: "int \<Rightarrow> int \<Rightarrow> int" where
  "days_before_month lp m =
     (if m \<le> 1 then 0 else if m = 2 then 31 else if m = 3 then 59 + lp else if m = 4 then 90 + lp
      else if m = 5 then 120 + lp else if m = 6 then 151 + lp else if m = 7 then 181 + lp
      else if m = 8 then 212 + lp else if m = 9 then 243 + lp else if m = 10 then 273 + lp
      else if m = 11 then 304 + lp else if m = 12 then 334 + lp else 365 + lp)"

definition month_of :: "int \<Rightarrow> int \<Rightarrow> int" where
  "month_of lp yd =
     (if yd < 31 then 1 else if yd < 59 + lp then 2 else if yd < 90 + lp then 3
      else if yd < 120 + lp then 4 else if yd < 151 + lp then 5 else if yd < 181 + lp then 6
      else if yd < 212 + lp then 7 else if yd < 243 + lp then 8 else if yd < 273 + lp then 9
      else if yd < 304 + lp then 10 else if yd < 334 + lp then 11 else 12)"

definition year_day :: "int \<Rightarrow> int" where
  "year_day d = d - days_before_year (civil_year d)"

definition civil_month :: "int \<Rightarrow> int" where
  "civil_month d = month_of (leap_day (civil_year d)) (year_day d)"

definition civil_day :: "int \<Rightarrow> int" where
  "civil_day d = year_day d - days_before_month (leap_day (civil_year d)) (civil_month d) + 1"

definition days_of :: "int \<Rightarrow> int \<Rightarrow> int \<Rightarrow> int" where
  "days_of y m d = days_before_year y + days_before_month (leap_day y) m + d - 1"

definition days_in :: "int \<Rightarrow> int \<Rightarrow> int" where
  "days_in y m = days_before_month (leap_day y) (m + 1) - days_before_month (leap_day y) m"

lemma leap_day_range [simp]: "0 \<le> leap_day y" "leap_day y \<le> 1"
  by (simp_all add: leap_day_def)

lemma div_pred: "0 < n \<Longrightarrow> (y - 1) div n = y div n - (if n dvd y then 1 else 0)" for n y :: int
proof -
  assume n: "0 < n"
  show ?thesis
  proof (cases "n dvd y")
    case True
    then obtain k where k: "y = n * k" by blast
    have "(y - 1) div n = k - 1"
      by (rule int_div_pos_eq [where r = "n - 1"]) (use n in \<open>simp_all add: k algebra_simps\<close>)
    with True k n show ?thesis by simp
  next
    case False
    then have "y mod n \<noteq> 0" by (simp add: dvd_eq_mod_eq_0)
    moreover have "0 \<le> y mod n" "y mod n < n" using n by simp_all
    moreover have "n * (y div n) + y mod n = y" by simp
    ultimately have "(y - 1) div n = y div n"
      by (intro int_div_pos_eq [where r = "y mod n - 1"]) linarith+
    with False show ?thesis by simp
  qed
qed

lemma days_before_year_step: "days_before_year (y + 1) = days_before_year y + 365 + leap_day y"
  by (auto simp: days_before_year_def leap_day_def leap_def div_pred)

lemma days_before_year_mono: "y < z \<Longrightarrow> days_before_year (y + 1) \<le> days_before_year z"
proof -
  assume "y < z"
  then have "y + 1 \<le> z" by simp
  then show ?thesis
  proof (induction z rule: int_ge_induct)
    case (step i)
    have "0 \<le> leap_day i" by simp
    with step show ?case using days_before_year_step [of i] by linarith
  qed simp
qed

lemma year_unique:
  assumes "days_before_year y \<le> d" "d < days_before_year (y + 1)"
    and "days_before_year z \<le> d" "d < days_before_year (z + 1)"
  shows "y = z"
  using days_before_year_mono [of y z] days_before_year_mono [of z y] assms by linarith

lemma days_before_year_digits:
  assumes "0 \<le> b" "b \<le> 3" "0 \<le> c" "c \<le> 24" "0 \<le> e" "e \<le> (3::int)"
  shows "days_before_year (400 * a + 100 * b + 4 * c + e + 1) = 146097 * a + 36524 * b + 1461 * c + 365 * e"
proof -
  let ?p = "400 * a + 100 * b + 4 * c + e"
  have "?p div 4 = 100 * a + 25 * b + c"
    by (rule int_div_pos_eq [where r = e]) (use assms in auto)
  moreover have "?p div 100 = 4 * a + b"
    by (rule int_div_pos_eq [where r = "4 * c + e"]) (use assms in auto)
  moreover have "?p div 400 = a"
    by (rule int_div_pos_eq [where r = "100 * b + 4 * c + e"]) (use assms in auto)
  ultimately show ?thesis by (simp add: days_before_year_def)
qed

lemma civil_year_bounds:
  "days_before_year (civil_year d) \<le> d \<and> d < days_before_year (civil_year d + 1)"
proof -
  define a where "a = d div 146097"
  define r where "r = d mod 146097"
  define b where "b = min 3 (r div 36524)"
  define r1 where "r1 = r - b * 36524"
  define c where "c = r1 div 1461"
  define r2 where "r2 = r1 - c * 1461"
  define e where "e = min 3 (r2 div 365)"
  have y: "civil_year d = 400 * a + 100 * b + 4 * c + e + 1"
    by (simp add: civil_year_def Let_def a_def r_def b_def r1_def c_def r2_def e_def)
  have r: "0 \<le> r" "r < 146097" "d = 146097 * a + r" by (simp_all add: r_def a_def)
  have b: "0 \<le> b" "b \<le> 3" using r by (auto simp: b_def pos_imp_zdiv_nonneg_iff)
  have r1: "0 \<le> r1" "r1 < 36525" "b < 3 \<Longrightarrow> r1 < 36524"
    using r by (auto simp: r1_def b_def min_def)
  have c: "0 \<le> c" "c \<le> 24" using r1 by (auto simp: c_def pos_imp_zdiv_nonneg_iff)
  have r2: "0 \<le> r2" "r2 < 1461" "c = 24 \<Longrightarrow> b < 3 \<Longrightarrow> r2 < 1460"
    using r1 minus_div_mult_eq_mod [of r1 1461] c
    by (auto simp: r2_def c_def)
  have e: "0 \<le> e" "e \<le> 3" using r2 by (auto simp: e_def pos_imp_zdiv_nonneg_iff)
  have f: "0 \<le> r2 - 365 * e" "e < 3 \<Longrightarrow> r2 - 365 * e < 365" "e = 3 \<Longrightarrow> r2 - 365 * e \<le> 365"
    using r2 by (auto simp: e_def min_def)
  have dby: "days_before_year (civil_year d) = 146097 * a + 36524 * b + 1461 * c + 365 * e"
    unfolding y by (rule days_before_year_digits [OF b c e])
  have d: "d = days_before_year (civil_year d) + (r2 - 365 * e)"
    unfolding dby r2_def r1_def using r by simp
  have "e = 3 \<Longrightarrow> \<not> (c = 24 \<and> b < 3) \<Longrightarrow> leap (civil_year d)"
  proof -
    assume "e = 3" and "\<not> (c = 24 \<and> b < 3)"
    then have y': "civil_year d = 4 * (100 * a + 25 * b + c + 1)" and "c < 24 \<or> b = 3"
      using y b c by auto
    moreover have "\<not> 100 dvd civil_year d" if "c < 24"
    proof
      assume "100 dvd civil_year d"
      moreover have "civil_year d = 100 * (4 * a + b) + 4 * (c + 1)" by (simp add: y')
      ultimately have "100 dvd 4 * (c + 1)" by (metis dvd_add_right_iff dvd_triv_left)
      then have "100 \<le> 4 * (c + 1)" using c by (intro zdvd_imp_le) auto
      with that show False by simp
    qed
    moreover have "400 dvd civil_year d" if "c = 24" "b = 3"
      unfolding y' that by (rule dvdI [where k = "a + 1"]) simp
    moreover have "4 dvd civil_year d" unfolding y' by simp
    ultimately show ?thesis using c by (metis leap_def order_le_less)
  qed
  then have "r2 - 365 * e < 365 + leap_day (civil_year d)"
    using f r2 e by (cases "e = 3") (auto simp: leap_day_def)
  with d f show ?thesis using days_before_year_step [of "civil_year d"] by linarith
qed

lemma year_day_range: "0 \<le> year_day d \<and> year_day d < 365 + leap_day (civil_year d)"
  using civil_year_bounds [of d] days_before_year_step [of "civil_year d"]
  by (simp add: year_day_def)

lemma month_of_range: "1 \<le> month_of lp yd \<and> month_of lp yd \<le> 12"
  by (simp add: month_of_def)

lemma month_of_bounds:
  assumes "0 \<le> lp" "lp \<le> 1" "0 \<le> yd" "yd < 365 + lp"
  shows "days_before_month lp (month_of lp yd) \<le> yd \<and> yd < days_before_month lp (month_of lp yd + 1)"
  using assms by (simp add: month_of_def days_before_month_def)

lemma month_cases: "1 \<le> m \<Longrightarrow> m \<le> 12 \<Longrightarrow> m \<in> {1,2,3,4,5,6,7,8,9,10,11,12}" for m :: int
proof -
  assume "1 \<le> m" "m \<le> 12"
  then have "m \<in> set [1..12]" by simp
  then show ?thesis by (simp add: upto.simps)
qed

lemma month_of_unique:
  assumes "0 \<le> lp" "lp \<le> 1" "1 \<le> m" "m \<le> 12"
    and "days_before_month lp m \<le> yd" "yd < days_before_month lp (m + 1)"
  shows "month_of lp yd = m"
proof -
  from assms(3,4) have "m \<in> {1,2,3,4,5,6,7,8,9,10,11,12}" by (rule month_cases)
  then show ?thesis using assms by (auto simp: month_of_def days_before_month_def)
qed

lemma civil_ranges:
  "1 \<le> civil_month d" "civil_month d \<le> 12" "1 \<le> civil_day d"
  "civil_day d \<le> days_in (civil_year d) (civil_month d)"
  using month_of_range year_day_range [of d]
    month_of_bounds [of "leap_day (civil_year d)" "year_day d"]
  by (auto simp: civil_month_def civil_day_def days_in_def)

lemma days_in_le: "1 \<le> m \<Longrightarrow> m \<le> 12 \<Longrightarrow> days_in y m \<le> 31"
proof -
  assume "1 \<le> m" "m \<le> 12"
  then have "m \<in> {1,2,3,4,5,6,7,8,9,10,11,12}" by (rule month_cases)
  then show ?thesis
    using leap_day_range [of y] by (auto simp: days_in_def days_before_month_def leap_day_def)
qed

theorem days_of_civil: "days_of (civil_year d) (civil_month d) (civil_day d) = d"
  by (simp add: days_of_def civil_day_def year_day_def)

lemma days_before_month_le_year:
  assumes "1 \<le> m" "m \<le> 12" "0 \<le> lp" "lp \<le> 1"
  shows "0 \<le> days_before_month lp m \<and> days_before_month lp (m + 1) \<le> 365 + lp"
proof -
  from assms(1,2) have "m \<in> {1,2,3,4,5,6,7,8,9,10,11,12}" by (rule month_cases)
  then show ?thesis using assms by (auto simp: days_before_month_def)
qed

theorem civil_days_of:
  assumes "1 \<le> m" "m \<le> 12" "1 \<le> d" "d \<le> days_in y m"
  shows "civil_year (days_of y m d) = y \<and> civil_month (days_of y m d) = m \<and>
    civil_day (days_of y m d) = d"
proof -
  let ?n = "days_of y m d" and ?lp = "leap_day y"
  have b: "0 \<le> days_before_month ?lp m" "days_before_month ?lp (m + 1) \<le> 365 + ?lp"
    using days_before_month_le_year [OF assms(1,2) leap_day_range] by simp_all
  have "days_before_year y \<le> ?n" "?n < days_before_year (y + 1)"
    using assms(3,4) b unfolding days_of_def days_in_def days_before_year_step by linarith+
  with civil_year_bounds [of ?n] have y: "civil_year ?n = y"
    using year_unique by blast
  have yd: "year_day ?n = days_before_month ?lp m + d - 1"
    by (simp add: year_day_def y) (simp add: days_of_def)
  have "month_of ?lp (year_day ?n) = m"
    by (rule month_of_unique [OF leap_day_range assms(1,2)])
       (use assms(3,4) in \<open>simp_all add: yd days_in_def\<close>)
  then show ?thesis by (simp add: civil_month_def civil_day_def y yd)
qed

lemma days_of_order:
  assumes "1 \<le> m" "m \<le> 12" "1 \<le> d" "d \<le> days_in y m" "1 \<le> m'" "m' \<le> 12" "1 \<le> d'" "d' \<le> days_in y' m'"
    and "y < y' \<or> y = y' \<and> (m < m' \<or> m = m' \<and> d < d')"
  shows "days_of y m d < days_of y' m' d'"
proof -
  have b: "0 \<le> days_before_month (leap_day y) m" "days_before_month (leap_day y) (m + 1) \<le> 365 + leap_day y"
    "0 \<le> days_before_month (leap_day y') m'"
    using days_before_month_le_year [OF assms(1,2) leap_day_range]
      days_before_month_le_year [OF assms(5,6) leap_day_range] by simp_all
  consider "y < y'" | "y = y'" "m < m'" | "y = y'" "m = m'" "d < d'" using assms(9) by blast
  then show ?thesis
  proof cases
    case 1
    from days_before_year_mono [OF this] days_before_year_step [of y] b assms show ?thesis
      by (simp add: days_of_def days_in_def)
  next
    case 2
    have "m \<in> {1,2,3,4,5,6,7,8,9,10,11,12}" "m' \<in> {1,2,3,4,5,6,7,8,9,10,11,12}"
      using assms by (simp_all only: month_cases)
    then have "days_before_month (leap_day y) (m + 1) \<le> days_before_month (leap_day y) m'"
      using 2(2) leap_day_range [of y] by (auto simp: days_before_month_def)
    with 2 assms show ?thesis by (simp add: days_of_def days_in_def)
  qed (simp add: days_of_def)
qed

section \<open>Format and Parse\<close>

definition day_secs :: int where "day_secs = 86400"

definition unix_secs :: "instant \<Rightarrow> int" where
  "unix_secs t = t div second"

definition fmt_year :: "int \<Rightarrow> string" where
  "fmt_year y =
     (let n = nat \<bar>y\<bar>; s = (if n < 10000 then pad_dec 4 n else dec_nat n)
      in if y < 0 then CHR ''-'' # s else s)"

definition pad2 :: "int \<Rightarrow> string" where
  "pad2 n = pad_dec 2 (nat n)"

definition fmt_date :: "int \<Rightarrow> string" where
  "fmt_date d = fmt_year (civil_year d) @ ''-'' @ pad2 (civil_month d) @ ''-'' @ pad2 (civil_day d)"

definition stamp :: "instant \<Rightarrow> string" where
  "stamp t =
     (let s = unix_secs t; k = s mod day_secs in
      fmt_date (s div day_secs) @ ''T'' @ pad2 (k div 3600) @ '':'' @ pad2 (k div 60 mod 60) @ '':'' @
      pad2 (k mod 60) @ ''Z'')"

text \<open>Reading. A field of exactly two digits; an hour of one or two; a fraction; a zone.\<close>

fun get2 :: "string \<Rightarrow> (int \<times> string) option" where
  "get2 (a # b # s) =
     (if is_digit a \<and> is_digit b then Some (int (10 * digit_val a + digit_val b), s) else None)"
| "get2 _ = None"

fun get12 :: "string \<Rightarrow> (int \<times> string) option" where
  "get12 [] = None"
| "get12 [a] = (if is_digit a then Some (int (digit_val a), []) else None)"
| "get12 (a # b # s) =
     (if \<not> is_digit a then None
      else if is_digit b then Some (int (10 * digit_val a + digit_val b), s)
      else Some (int (digit_val a), b # s))"

fun expect :: "char \<Rightarrow> string \<Rightarrow> string option" where
  "expect c [] = None"
| "expect c (x # s) = (if x = c then Some s else None)"

fun get4 :: "string \<Rightarrow> (int \<times> string) option" where
  "get4 (a # b # c # d # s) =
     (if list_all is_digit [a, b, c, d] then Some (int (num_of [a, b, c, d]), s) else None)"
| "get4 _ = None"

definition in_range :: "int \<Rightarrow> int \<Rightarrow> (int \<times> string) option \<Rightarrow> (int \<times> string) option" where
  "in_range lo hi r = Option.bind r (\<lambda>(n, s). if lo \<le> n \<and> n \<le> hi then Some (n, s) else None)"

text \<open>At most nine digits of a fraction count; the rest is dropped.\<close>

definition get_frac :: "string \<Rightarrow> int \<times> string" where
  "get_frac s =
     (case s of
        p # a # s' \<Rightarrow>
          if (p = CHR ''.'' \<or> p = CHR '','') \<and> is_digit a
          then (let ds = take 9 (takeWhile is_digit (a # s'))
                in (int (num_of ds * 10 ^ (9 - length ds)), dropWhile is_digit (a # s')))
          else (0, s)
      | _ \<Rightarrow> (0, s))"

text \<open>The offset from UTC in seconds.\<close>

definition get_zone :: "string \<Rightarrow> (int \<times> string) option" where
  "get_zone s =
     (case s of
        [] \<Rightarrow> None
      | z # s' \<Rightarrow>
          if z = CHR ''Z'' then Some (0, s')
          else if z \<noteq> CHR ''+'' \<and> z \<noteq> CHR ''-'' then None
          else Option.bind (in_range 0 24 (get2 s')) (\<lambda>(hh, s1).
               Option.bind (expect CHR '':'' s1) (\<lambda>s2.
               Option.bind (in_range 0 60 (get2 s2)) (\<lambda>(mm, s3).
               Some ((hh * 60 + mm) * 60 * (if z = CHR ''-'' then - 1 else 1), s3)))))"

definition rfc3339 :: "string \<Rightarrow> instant option" where
  "rfc3339 s =
     Option.bind (get4 s) (\<lambda>(y, s). Option.bind (expect CHR ''-'' s) (\<lambda>s.
     Option.bind (in_range 1 12 (get2 s)) (\<lambda>(m, s). Option.bind (expect CHR ''-'' s) (\<lambda>s.
     Option.bind (get2 s) (\<lambda>(d, s). Option.bind (expect CHR ''T'' s) (\<lambda>s.
     Option.bind (in_range 0 23 (get12 s)) (\<lambda>(hh, s). Option.bind (expect CHR '':'' s) (\<lambda>s.
     Option.bind (in_range 0 59 (get2 s)) (\<lambda>(mm, s). Option.bind (expect CHR '':'' s) (\<lambda>s.
     Option.bind (in_range 0 59 (get2 s)) (\<lambda>(ss, s).
     (case get_frac s of (ns, s) \<Rightarrow>
     Option.bind (get_zone s) (\<lambda>(off, s).
       if s \<noteq> [] \<or> d < 1 \<or> days_in y m < d then None
       else Some ((days_of y m d * day_secs + hh * 3600 + mm * 60 + ss - off) * second + ns)
     )))))))))))))"

lemma second_pos [simp]: "0 < second" "second \<noteq> 0"
  by (simp_all add: second_def)

lemma pad2_digits: "0 \<le> n \<Longrightarrow> n < 100 \<Longrightarrow> pad2 n = [digit (nat n div 10), digit (nat n mod 10)]"
  by (simp add: pad2_def numeral_2_eq_2)

lemma get2_pad2 [simp]: "0 \<le> n \<Longrightarrow> n < 100 \<Longrightarrow> get2 (pad2 n @ s) = Some (n, s)"
  by (simp add: pad2_digits is_digit_digit)

lemma get12_pad2 [simp]: "0 \<le> n \<Longrightarrow> n < 100 \<Longrightarrow> get12 (pad2 n @ s) = Some (n, s)"
  by (simp add: pad2_digits)

lemma get4_append:
  "length w = 4 \<Longrightarrow> list_all is_digit w \<Longrightarrow> get4 (w @ s) = Some (int (num_of w), s)"
  by (cases w rule: list.exhaust) (auto simp: length_Suc_conv numeral_eq_Suc)

lemma get4_year [simp]: "0 \<le> y \<Longrightarrow> y < 10000 \<Longrightarrow> get4 (fmt_year y @ s) = Some (y, s)"
  by (simp add: fmt_year_def Let_def get4_append pad_dec_digits num_of_pad_dec nat_less_iff)

text \<open>The first instant of the year 10000.\<close>

definition year_10000 :: instant where
  "year_10000 = 3652059 * day_secs * second"

lemma civil_year_range: "0 \<le> d \<Longrightarrow> d < 3652059 \<Longrightarrow> 1 \<le> civil_year d \<and> civil_year d < 10000"
proof -
  assume d: "0 \<le> d" "d < 3652059"
  have c: "days_before_year 1 = 0" "days_before_year 10000 = 3652059" by (simp_all add: days_before_year_def)
  have "\<not> civil_year d < 1"
    using days_before_year_mono [of "civil_year d" 1] civil_year_bounds [of d] d c by linarith
  moreover have "\<not> 9999 < civil_year d"
    using days_before_year_mono [of 9999 "civil_year d"] civil_year_bounds [of d] d c(2) by force
  ultimately show ?thesis by simp
qed

lemma clock_fields:
  assumes "0 \<le> k" "k < day_secs"
  shows "0 \<le> k div 3600" "k div 3600 \<le> 23" "0 \<le> k div 60 mod 60" "k div 60 mod 60 \<le> 59"
    "0 \<le> k mod 60" "k mod 60 \<le> 59" "k = k div 3600 * 3600 + k div 60 mod 60 * 60 + k mod 60"
proof -
  show "k div 3600 \<le> 23" using assms by (simp add: day_secs_def)
  show "0 \<le> k div 3600" using assms by (simp add: pos_imp_zdiv_nonneg_iff)
  have "0 \<le> k div 60 mod 60" "k div 60 mod 60 < 60" "0 \<le> k mod 60" "k mod 60 < 60" by simp_all
  then show "0 \<le> k div 60 mod 60" "k div 60 mod 60 \<le> 59" "0 \<le> k mod 60" "k mod 60 \<le> 59" by simp_all
  have "k div 3600 = k div 60 div 60" by (simp add: zdiv_zmult2_eq [symmetric])
  then show "k = k div 3600 * 3600 + k div 60 mod 60 * 60 + k mod 60"
    by (metis two_digits div_mult_mod_eq)
qed

lemma secs_range:
  assumes "0 \<le> t" "t < year_10000"
  shows "0 \<le> unix_secs t div day_secs" "unix_secs t div day_secs < 3652059"
    "0 \<le> unix_secs t mod day_secs" "unix_secs t mod day_secs < day_secs"
proof -
  have "0 \<le> unix_secs t" "unix_secs t < 3652059 * day_secs"
    using assms by (simp_all add: unix_secs_def year_10000_def pos_imp_zdiv_nonneg_iff int_div_less_iff)
  then show "0 \<le> unix_secs t div day_secs" "unix_secs t div day_secs < 3652059"
    by (simp_all add: day_secs_def pos_imp_zdiv_nonneg_iff int_div_less_iff)
qed (simp_all add: day_secs_def)

lemma rfc3339_fields:
  assumes "0 \<le> y" "y < 10000" "1 \<le> m" "m \<le> 12" "1 \<le> d" "d \<le> days_in y m" "0 \<le> hh" "hh \<le> 23"
    "0 \<le> mm" "mm \<le> 59" "0 \<le> ss" "ss \<le> 59"
  shows "rfc3339 (fmt_year y @ CHR ''-'' # pad2 m @ CHR ''-'' # pad2 d @ CHR ''T'' # pad2 hh @ CHR '':'' #
      pad2 mm @ CHR '':'' # pad2 ss @ ''Z'') =
    Some ((days_of y m d * day_secs + hh * 3600 + mm * 60 + ss) * second)"
proof -
  have "d < 100" using days_in_le [OF assms(3,4), of y] assms(6) by simp
  moreover have "get_frac ''Z'' = (0, ''Z'')" "get_zone ''Z'' = Some (0, [])"
    by (simp_all add: get_frac_def get_zone_def)
  ultimately show ?thesis using assms by (simp add: rfc3339_def in_range_def)
qed

theorem rfc3339_stamp:
  assumes "0 \<le> t" "t < year_10000"
  shows "rfc3339 (stamp t) = Some (unix_secs t * second)"
proof -
  define d where "d = unix_secs t div day_secs"
  define k where "k = unix_secs t mod day_secs"
  have d: "0 \<le> d" "d < 3652059" and k: "0 \<le> k" "k < day_secs"
    using secs_range [OF assms] by (simp_all add: d_def k_def)
  note y = civil_year_range [OF d] and m = civil_ranges [of d] and c = clock_fields [OF k]
  have num: "days_of (civil_year d) (civil_month d) (civil_day d) * day_secs + k div 3600 * 3600 +
      k div 60 mod 60 * 60 + k mod 60 = unix_secs t"
    unfolding days_of_civil
    by (rule sum_of_three [OF c(7)]) (simp add: d_def k_def)
  have "stamp t = fmt_year (civil_year d) @ CHR ''-'' # pad2 (civil_month d) @ CHR ''-'' #
      pad2 (civil_day d) @ CHR ''T'' # pad2 (k div 3600) @ CHR '':'' # pad2 (k div 60 mod 60) @
      CHR '':'' # pad2 (k mod 60) @ ''Z''"
    by (simp add: stamp_def Let_def d_def k_def fmt_date_def)
  moreover have "0 \<le> civil_year d" using y by simp
  ultimately show ?thesis
    using rfc3339_fields [OF _ _ m c(1-6)] y by (simp only: num)
qed

section \<open>Order\<close>

lemma lex_append:
  fixes a b u v :: string
  shows "length a = length b \<Longrightarrow> a @ u \<le> b @ v \<longleftrightarrow> a < b \<or> a = b \<and> u \<le> v"
  by (induction a b rule: list_induct2) auto

lemma digit_less: "m < 10 \<Longrightarrow> n < 10 \<Longrightarrow> digit m < digit n \<longleftrightarrow> m < n"
  by (simp add: less_char_def digit_def)

lemma lex_append_less:
  fixes a b u v :: string
  shows "length a = length b \<Longrightarrow> a @ u < b @ v \<longleftrightarrow> a < b \<or> a = b \<and> u < v"
  by (induction a b rule: list_induct2) auto

lemma pad_dec_less:
  "m < 10 ^ w \<Longrightarrow> n < 10 ^ w \<Longrightarrow> pad_dec w m < pad_dec w n \<longleftrightarrow> m < n"
proof (induction w m arbitrary: n rule: pad_dec.induct)
  case (2 w m)
  have "m div 10 < 10 ^ w" "n div 10 < 10 ^ w" using "2.prems" by (simp_all add: less_mult_imp_div_less)
  with "2.IH" have "pad_dec w (m div 10) < pad_dec w (n div 10) \<longleftrightarrow> m div 10 < n div 10"
    "pad_dec w (m div 10) = pad_dec w (n div 10) \<longleftrightarrow> m div 10 = n div 10"
    by (simp_all add: pad_dec_inj)
  moreover have "m < n \<longleftrightarrow> m div 10 < n div 10 \<or> m div 10 = n div 10 \<and> m mod 10 < n mod 10"
    by (rule div_mod_less_nat) simp
  ultimately show ?case by (simp add: lex_append_less digit_less)
qed simp

lemma pad2_length [simp]: "length (pad2 n) = 2"
  by (simp add: pad2_def)

lemma pad2_less: "0 \<le> m \<Longrightarrow> m < 100 \<Longrightarrow> 0 \<le> n \<Longrightarrow> n < 100 \<Longrightarrow> pad2 m < pad2 n \<longleftrightarrow> m < n"
  by (simp add: pad2_def pad_dec_less nat_less_iff) linarith

lemma pad2_inj: "0 \<le> m \<Longrightarrow> m < 100 \<Longrightarrow> 0 \<le> n \<Longrightarrow> n < 100 \<Longrightarrow> pad2 m = pad2 n \<longleftrightarrow> m = n"
  using pad2_less [of m n] pad2_less [of n m] by (metis less_irrefl linorder_neqE)

lemma fmt_year_small: "0 \<le> y \<Longrightarrow> y < 10000 \<Longrightarrow> fmt_year y = pad_dec 4 (nat y)"
  by (simp add: fmt_year_def Let_def nat_less_iff)

lemma fmt_year_length: "0 \<le> y \<Longrightarrow> y < 10000 \<Longrightarrow> length (fmt_year y) = 4"
  by (simp add: fmt_year_small)

lemma fmt_year_less:
  "0 \<le> y \<Longrightarrow> y < 10000 \<Longrightarrow> 0 \<le> z \<Longrightarrow> z < 10000 \<Longrightarrow> fmt_year y < fmt_year z \<longleftrightarrow> y < z"
  by (simp add: fmt_year_small pad_dec_less nat_less_iff) linarith

lemma fmt_year_inj:
  "0 \<le> y \<Longrightarrow> y < 10000 \<Longrightarrow> 0 \<le> z \<Longrightarrow> z < 10000 \<Longrightarrow> fmt_year y = fmt_year z \<longleftrightarrow> y = z"
  using fmt_year_less [of y z] fmt_year_less [of z y] by (metis less_irrefl linorder_neqE)

text \<open>The days of the years 1 to 9999.\<close>

definition day_ok :: "int \<Rightarrow> bool" where
  "day_ok d \<longleftrightarrow> 0 \<le> d \<and> d < 3652059"

lemma day_ok_fields:
  assumes "day_ok d"
  shows "0 \<le> civil_year d" "civil_year d < 10000" "0 \<le> civil_month d" "civil_month d < 100"
    "0 \<le> civil_day d" "civil_day d < 100"
  using civil_year_range [of d] civil_ranges [of d] days_in_le [of "civil_month d" "civil_year d"] assms
  by (simp_all add: day_ok_def)

lemma fmt_date_length: "day_ok d \<Longrightarrow> length (fmt_date d) = 10"
  by (simp add: fmt_date_def fmt_year_small day_ok_fields)

lemma fmt_date_fields_less:
  assumes "day_ok d" "day_ok e"
  shows "fmt_date d < fmt_date e \<longleftrightarrow> civil_year d < civil_year e \<or> civil_year d = civil_year e \<and>
    (civil_month d < civil_month e \<or> civil_month d = civil_month e \<and> civil_day d < civil_day e)"
  using lex_append_less [of "pad2 (civil_day d)" "pad2 (civil_day e)" "[]" "[]"]
  by (simp add: fmt_date_def lex_append_less pad2_less pad2_inj fmt_year_less fmt_year_inj
      fmt_year_length day_ok_fields [OF assms(1)] day_ok_fields [OF assms(2)])

lemma civil_eq_days:
  "civil_year d = civil_year e \<Longrightarrow> civil_month d = civil_month e \<Longrightarrow> civil_day d = civil_day e \<Longrightarrow> d = e"
  by (metis days_of_civil)

theorem fmt_date_less:
  assumes "day_ok d" "day_ok e"
  shows "fmt_date d < fmt_date e \<longleftrightarrow> d < e"
proof -
  have less: "x < y" if "civil_year x < civil_year y \<or> civil_year x = civil_year y \<and>
      (civil_month x < civil_month y \<or> civil_month x = civil_month y \<and> civil_day x < civil_day y)" for x y
    using days_of_order [OF civil_ranges [of x] civil_ranges [of y] that] by (simp only: days_of_civil)
  show ?thesis
  proof
    show "fmt_date d < fmt_date e \<Longrightarrow> d < e" 
      unfolding fmt_date_fields_less [OF assms] by (rule less)
    assume "d < e"
    with less [of e d] civil_eq_days [of d e] show "fmt_date d < fmt_date e"
      unfolding fmt_date_fields_less [OF assms] by linarith
  qed
qed

lemma fmt_date_inj: "day_ok d \<Longrightarrow> day_ok e \<Longrightarrow> fmt_date d = fmt_date e \<longleftrightarrow> d = e"
  using fmt_date_less [of d e] fmt_date_less [of e d] by (metis less_irrefl linorder_neqE)

definition clock :: "int \<Rightarrow> string" where
  "clock k = pad2 (k div 3600) @ '':'' @ pad2 (k div 60 mod 60) @ '':'' @ pad2 (k mod 60) @ ''Z''"

lemma three_fields_le:
  assumes "0 \<le> a" "a \<le> 23" "0 \<le> b" "b \<le> 59" "0 \<le> c" "c \<le> 59"
    and "0 \<le> a'" "a' \<le> 23" "0 \<le> b'" "b' \<le> 59" "0 \<le> c'" "c' \<le> 59"
  shows "pad2 a @ '':'' @ pad2 b @ '':'' @ pad2 c @ ''Z'' \<le> pad2 a' @ '':'' @ pad2 b' @ '':'' @ pad2 c' @ ''Z''
    \<longleftrightarrow> a < a' \<or> a = a' \<and> (b < b' \<or> b = b' \<and> c \<le> c')"
  using assms by (simp add: lex_append pad2_less pad2_inj) linarith

lemma clock_le:
  assumes "0 \<le> k" "k < day_secs" "0 \<le> l" "l < day_secs"
  shows "clock k \<le> clock l \<longleftrightarrow> k \<le> l"
proof -
  note a = clock_fields [OF assms(1,2)] and b = clock_fields [OF assms(3,4)]
  have "clock k \<le> clock l \<longleftrightarrow> k div 3600 < l div 3600 \<or> k div 3600 = l div 3600 \<and>
      (k div 60 mod 60 < l div 60 mod 60 \<or> k div 60 mod 60 = l div 60 mod 60 \<and> k mod 60 \<le> l mod 60)"
    unfolding clock_def by (rule three_fields_le [OF a(1-6) b(1-6)])
  also have "\<dots> \<longleftrightarrow> k div 60 < l div 60 \<or> k div 60 = l div 60 \<and> k mod 60 \<le> l mod 60"
  proof -
    have e: "k div 3600 = k div 60 div 60" "l div 3600 = l div 60 div 60"
      by (simp_all add: zdiv_zmult2_eq [symmetric])
    have eq: "k div 60 = l div 60 \<longleftrightarrow> k div 60 div 60 = l div 60 div 60 \<and> k div 60 mod 60 = l div 60 mod 60"
      by (metis div_mult_mod_eq)
    have lt: "k div 60 < l div 60 \<longleftrightarrow> k div 60 div 60 < l div 60 div 60 \<or>
        k div 60 div 60 = l div 60 div 60 \<and> k div 60 mod 60 < l div 60 mod 60"
      by (rule div_mod_less) simp
    show ?thesis by (simp only: e eq lt) blast
  qed
  also have "\<dots> \<longleftrightarrow> k \<le> l" by (rule div_mod_le [symmetric]) simp
  finally show ?thesis .
qed

theorem stamp_le:
  assumes "0 \<le> t" "t < year_10000" "0 \<le> u" "u < year_10000"
  shows "stamp t \<le> stamp u \<longleftrightarrow> unix_secs t \<le> unix_secs u"
proof -
  let ?d = "unix_secs t div day_secs" and ?e = "unix_secs u div day_secs"
  let ?k = "unix_secs t mod day_secs" and ?l = "unix_secs u mod day_secs"
  note t = secs_range [OF assms(1,2)] and u = secs_range [OF assms(3,4)]
  have ok: "day_ok ?d" "day_ok ?e" using t u by (simp_all add: day_ok_def)
  have st: "stamp x = fmt_date (unix_secs x div day_secs) @ ''T'' @ clock (unix_secs x mod day_secs)" for x
    by (simp add: stamp_def clock_def Let_def)
  have "stamp t \<le> stamp u \<longleftrightarrow> ?d < ?e \<or> ?d = ?e \<and> ?k \<le> ?l"
    using ok t(3,4) u(3,4) unfolding st
    by (simp add: lex_append fmt_date_length fmt_date_less fmt_date_inj clock_le)
  also have "\<dots> \<longleftrightarrow> unix_secs t \<le> unix_secs u"
    by (rule div_mod_le [symmetric]) (simp add: day_secs_def)
  finally show ?thesis .
qed

lemma stamp_inj:
  "0 \<le> t \<Longrightarrow> t < year_10000 \<Longrightarrow> 0 \<le> u \<Longrightarrow> u < year_10000 \<Longrightarrow> stamp t = stamp u \<longleftrightarrow> unix_secs t = unix_secs u"
  using stamp_le [of t u] stamp_le [of u t] by (metis antisym order_refl)

end
