(* ===== verification/Session.thy ===== *)
theory Session
  imports Calendar GoErr "HOL-Library.Multiset"
begin

text \<open>
  session/policy.go and session/session.go: the lifetime rules and the vocabulary, and
  session/sqlite.go: the store over SQLite.

  The table is the list of its rows, in insertion order; every column is kept in its stored form,
  so instants are RFC 3339 text and are compared as text, as SQLite does. The driver is what each
  call takes besides: \<open>fault\<close> is the error it returns instead of executing the statement, and
  \<open>uniq\<close> the one it returns for a violated UNIQUE constraint. \<open>enc\<close> and \<open>dec\<close> are
  \<open>json.Marshal\<close> and \<open>json.Unmarshal\<close> on a list of strings.

  The interface \<open>Store\<close> is the locale \<open>session_store\<close>; its laws are proved for the SQLite model.
\<close>

section \<open>Policy\<close>

record policy =
  p_TTL :: duration
  p_MaxLifetime :: duration
  p_TouchInterval :: duration

definition DefaultPolicy :: policy where
  "DefaultPolicy = \<lparr>p_TTL = 30 * 24 * hour, p_MaxLifetime = 30 * 24 * hour, p_TouchInterval = hour\<rparr>"

definition withDefaults :: "policy \<Rightarrow> policy" where
  "withDefaults p =
     \<lparr>p_TTL = (if p_TTL p \<le> 0 then p_TTL DefaultPolicy else p_TTL p),
      p_MaxLifetime = (if p_MaxLifetime p \<le> 0 then p_MaxLifetime DefaultPolicy else p_MaxLifetime p),
      p_TouchInterval = (if p_TouchInterval p \<le> 0 then p_TouchInterval DefaultPolicy
                         else p_TouchInterval p)\<rparr>"

definition ExpiryFor :: "policy \<Rightarrow> instant \<Rightarrow> instant \<Rightarrow> instant" where
  "ExpiryFor p0 createdAt now =
     (let p = withDefaults p0; expires = now + p_TTL p in
      if time_is_zero createdAt then expires
      else let hard = createdAt + p_MaxLifetime p in if hard < expires then hard else expires)"

section \<open>Identity and session\<close>

record identity =
  id_Subject :: string
  id_Name :: string
  id_Email :: string
  id_Groups :: "string list"
  id_Owner :: bool

definition anonymous :: identity where
  "anonymous = \<lparr>id_Subject = [], id_Name = [], id_Email = [], id_Groups = [], id_Owner = False\<rparr>"

definition Authenticated :: "identity \<Rightarrow> bool" where
  "Authenticated i \<longleftrightarrow> id_Subject i \<noteq> []"

record session =
  s_ID :: string
  s_Subject :: string
  s_Name :: string
  s_Email :: string
  s_Groups :: "string list"
  s_Owner :: bool
  s_UserAgent :: string
  s_CreatedAt :: instant
  s_LastSeenAt :: instant
  s_ExpiresAt :: instant

definition session_Identity :: "session \<Rightarrow> identity" where
  "session_Identity s = \<lparr>id_Subject = s_Subject s, id_Name = s_Name s, id_Email = s_Email s,
     id_Groups = s_Groups s, id_Owner = s_Owner s\<rparr>"

definition Live :: "policy \<Rightarrow> session \<Rightarrow> instant \<Rightarrow> bool" where
  "Live p0 s now =
     (let p = withDefaults p0 in
      if \<not> time_is_zero (s_ExpiresAt s) \<and> \<not> now < s_ExpiresAt s then False
      else if \<not> time_is_zero (s_CreatedAt s) \<and> p_MaxLifetime p \<le> time_sub now (s_CreatedAt s) then False
      else True)"

definition NeedsTouch :: "policy \<Rightarrow> session \<Rightarrow> instant \<Rightarrow> bool" where
  "NeedsTouch p s now \<longleftrightarrow> p_TouchInterval (withDefaults p) \<le> time_sub now (s_LastSeenAt s)"

text \<open>The policies an int64 holds.\<close>

definition policy_ok :: "policy \<Rightarrow> bool" where
  "policy_ok p \<longleftrightarrow> p_TTL p \<le> max_i64 \<and> p_MaxLifetime p \<le> max_i64 \<and> p_TouchInterval p \<le> max_i64"

lemma withDefaults_pos:
  "0 < p_TTL (withDefaults p)" "0 < p_MaxLifetime (withDefaults p)" "0 < p_TouchInterval (withDefaults p)"
  by (simp_all add: withDefaults_def DefaultPolicy_def duration_units)

lemma withDefaults_idem [simp]: "withDefaults (withDefaults p) = withDefaults p"
  using withDefaults_pos [of p] by (subst withDefaults_def) (simp add: not_le)

lemma withDefaults_ok: "policy_ok p \<Longrightarrow> policy_ok (withDefaults p)"
  by (simp add: policy_ok_def withDefaults_def DefaultPolicy_def duration_units max_i64_def)

lemma max_lifetime_cmp:
  assumes "policy_ok p"
  shows "p_MaxLifetime (withDefaults p) \<le> time_sub now t \<longleftrightarrow> t + p_MaxLifetime (withDefaults p) \<le> now"
proof (rule time_sub_ge_iff)
  show "min_i64 < p_MaxLifetime (withDefaults p)"
    using withDefaults_pos [of p] by (simp add: min_i64_def)
  show "p_MaxLifetime (withDefaults p) \<le> max_i64"
    using withDefaults_ok [OF assms] by (simp add: policy_ok_def)
qed

lemma Live_iff:
  "policy_ok p \<Longrightarrow> Live p s now \<longleftrightarrow>
     (s_ExpiresAt s \<noteq> 0 \<longrightarrow> now < s_ExpiresAt s) \<and>
     (s_CreatedAt s \<noteq> 0 \<longrightarrow> now < s_CreatedAt s + p_MaxLifetime (withDefaults p))"
  by (auto simp: Live_def Let_def max_lifetime_cmp time_is_zero_def not_le)

lemma ExpiryFor_eq:
  "ExpiryFor p c now = (if c = 0 then now + p_TTL (withDefaults p)
     else min (now + p_TTL (withDefaults p)) (c + p_MaxLifetime (withDefaults p)))"
  by (auto simp: ExpiryFor_def Let_def time_is_zero_def)

section \<open>Rows\<close>

record row =
  r_id :: string
  r_token_hash :: string
  r_subject :: string
  r_name :: string
  r_email :: string
  r_groups_json :: string
  r_owner :: bool
  r_user_agent :: string
  r_created_at :: string
  r_last_seen_at :: string
  r_expires_at :: string

definition parse_time :: "string \<Rightarrow> instant" where
  "parse_time s = (case rfc3339 s of None \<Rightarrow> 0 | Some t \<Rightarrow> t)"

definition row_of :: "(string list \<Rightarrow> string) \<Rightarrow> session \<Rightarrow> string \<Rightarrow> row" where
  "row_of enc s h = \<lparr>r_id = s_ID s, r_token_hash = h, r_subject = s_Subject s, r_name = s_Name s,
     r_email = s_Email s, r_groups_json = enc (s_Groups s), r_owner = s_Owner s,
     r_user_agent = s_UserAgent s, r_created_at = stamp (s_CreatedAt s),
     r_last_seen_at = stamp (s_LastSeenAt s), r_expires_at = stamp (s_ExpiresAt s)\<rparr>"

definition scan :: "(string \<Rightarrow> string list option) \<Rightarrow> row \<Rightarrow> session" where
  "scan dec r = \<lparr>s_ID = r_id r, s_Subject = r_subject r, s_Name = r_name r, s_Email = r_email r,
     s_Groups = (case dec (r_groups_json r) of None \<Rightarrow> [] | Some gs \<Rightarrow> gs), s_Owner = r_owner r,
     s_UserAgent = r_user_agent r, s_CreatedAt = parse_time (r_created_at r),
     s_LastSeenAt = parse_time (r_last_seen_at r), s_ExpiresAt = parse_time (r_expires_at r)\<rparr>"

section \<open>The store\<close>

type_synonym fault = "gerr option"

definition wrap_err :: "string \<Rightarrow> gerr \<Rightarrow> gerr" where
  "wrap_err pre e = Wrap pre e []"

definition CreateSession ::
    "(string list \<Rightarrow> string) \<Rightarrow> gerr \<Rightarrow> fault \<Rightarrow> session \<Rightarrow> string \<Rightarrow> row list \<Rightarrow> row list \<times> gerr option" where
  "CreateSession enc uniq fault s h rows =
     (case fault of
        Some e \<Rightarrow> (rows, Some (wrap_err ''session: create: '' e))
      | None \<Rightarrow>
          if \<exists>r\<in>set rows. r_id r = s_ID s \<or> r_token_hash r = h
          then (rows, Some (wrap_err ''session: create: '' uniq))
          else (rows @ [row_of enc s h], None))"

definition SessionByToken ::
    "(string \<Rightarrow> string list option) \<Rightarrow> fault \<Rightarrow> string \<Rightarrow> row list \<Rightarrow> gerr + session option" where
  "SessionByToken dec fault h rows =
     (case fault of
        Some e \<Rightarrow> Inl (wrap_err ''session: read: '' e)
      | None \<Rightarrow> Inr (map_option (scan dec) (find (\<lambda>r. r_token_hash r = h) rows)))"

definition TouchSession ::
    "fault \<Rightarrow> string \<Rightarrow> instant \<Rightarrow> instant \<Rightarrow> row list \<Rightarrow> row list \<times> gerr option" where
  "TouchSession fault i lastSeen expires rows =
     (case fault of
        Some e \<Rightarrow> (rows, Some (wrap_err ''session: touch: '' e))
      | None \<Rightarrow>
          (map (\<lambda>r. if r_id r = i
                    then r\<lparr>r_last_seen_at := stamp lastSeen, r_expires_at := stamp expires\<rparr> else r)
             rows, None))"

definition DeleteSession :: "fault \<Rightarrow> string \<Rightarrow> row list \<Rightarrow> row list \<times> gerr option" where
  "DeleteSession fault i rows =
     (case fault of
        Some e \<Rightarrow> (rows, Some (wrap_err ''session: delete: '' e))
      | None \<Rightarrow> (filter (\<lambda>r. r_id r \<noteq> i) rows, None))"

definition DeleteSessionByToken :: "fault \<Rightarrow> string \<Rightarrow> row list \<Rightarrow> row list \<times> gerr option" where
  "DeleteSessionByToken fault h rows =
     (case fault of
        Some e \<Rightarrow> (rows, Some (wrap_err ''session: delete by token: '' e))
      | None \<Rightarrow> (filter (\<lambda>r. r_token_hash r \<noteq> h) rows, None))"

text \<open>The two statements of the schema keep an existing table: \<open>db\<close> is None for a nil
  database, else the rows it already has.\<close>

definition NewSQLite :: "row list option \<Rightarrow> fault \<Rightarrow> fault \<Rightarrow> gerr + row list" where
  "NewSQLite db fault1 fault2 =
     (case db of
        None \<Rightarrow> Inl (Text ''session: NewSQLite needs a database'')
      | Some rows \<Rightarrow>
          (case fault1 of
             Some e \<Rightarrow> Inl (wrap_err ''session: create schema: '' e)
           | None \<Rightarrow>
               (case fault2 of
                  Some e \<Rightarrow> Inl (wrap_err ''session: create schema: '' e)
                | None \<Rightarrow> Inr rows)))"

text \<open>\<open>ORDER BY created_at DESC\<close>; rows with equal text stay in insertion order here, SQL leaves
  their order open.\<close>

fun insert_desc :: "row \<Rightarrow> row list \<Rightarrow> row list" where
  "insert_desc r [] = [r]"
| "insert_desc r (x # xs) = (if r_created_at x \<le> r_created_at r then r # x # xs else x # insert_desc r xs)"

definition sort_desc :: "row list \<Rightarrow> row list" where
  "sort_desc rows = foldr insert_desc rows []"

definition ListSessions ::
    "(string \<Rightarrow> string list option) \<Rightarrow> fault \<Rightarrow> row list \<Rightarrow> gerr + session list" where
  "ListSessions dec fault rows =
     (case fault of
        Some e \<Rightarrow> Inl (wrap_err ''session: list: '' e)
      | None \<Rightarrow> Inr (map (scan dec) (sort_desc rows)))"

text \<open>\<open>cnt\<close>: the error of \<open>RowsAffected\<close>, which comes after the rows are gone.\<close>

definition DeleteExpiredSessions :: "fault \<Rightarrow> fault \<Rightarrow> instant \<Rightarrow> row list \<Rightarrow> row list \<times> (gerr + int)" where
  "DeleteExpiredSessions fault cnt now rows =
     (case fault of
        Some e \<Rightarrow> (rows, Inl (wrap_err ''session: sweep: '' e))
      | None \<Rightarrow>
          (filter (\<lambda>r. \<not> r_expires_at r \<le> stamp now) rows,
           case cnt of
             Some e \<Rightarrow> Inl (wrap_err ''session: sweep count: '' e)
           | None \<Rightarrow> Inr (int (length (filter (\<lambda>r. r_expires_at r \<le> stamp now) rows)))))"

section \<open>Stored instants\<close>

definition storable :: "instant \<Rightarrow> bool" where
  "storable t \<longleftrightarrow> 0 \<le> t \<and> t < year_10000"

definition whole_seconds :: "instant \<Rightarrow> instant" where
  "whole_seconds t = unix_secs t * second"

lemma parse_stamp [simp]: "storable t \<Longrightarrow> parse_time (stamp t) = whole_seconds t"
  by (simp add: parse_time_def storable_def rfc3339_stamp whole_seconds_def)

lemma whole_seconds_le_iff: "whole_seconds t \<le> u \<longleftrightarrow> unix_secs t \<le> unix_secs u"
  using int_le_div_iff [of second "unix_secs t" u] by (simp add: whole_seconds_def unix_secs_def)

lemma whole_seconds_le: "whole_seconds t \<le> t"
  by (simp add: whole_seconds_le_iff)

lemma whole_seconds_pos: "second \<le> t \<Longrightarrow> 0 < whole_seconds t"
  using int_le_div_iff [of second 1 t] by (simp add: whole_seconds_def unix_secs_def)

text \<open>What a session is after one trip through the table.\<close>

definition stored :: "session \<Rightarrow> session" where
  "stored s = s\<lparr>s_CreatedAt := whole_seconds (s_CreatedAt s),
     s_LastSeenAt := whole_seconds (s_LastSeenAt s), s_ExpiresAt := whole_seconds (s_ExpiresAt s)\<rparr>"

definition session_storable :: "session \<Rightarrow> bool" where
  "session_storable s \<longleftrightarrow> storable (s_CreatedAt s) \<and> storable (s_LastSeenAt s) \<and> storable (s_ExpiresAt s)"

lemma scan_row_of:
  "session_storable s \<Longrightarrow> dec (enc (s_Groups s)) = Some (s_Groups s) \<Longrightarrow> scan dec (row_of enc s h) = stored s"
  by (simp add: scan_def row_of_def stored_def session_storable_def)

text \<open>Rows as the operations write them.\<close>

definition row_wf :: "row \<Rightarrow> bool" where
  "row_wf r \<longleftrightarrow> (\<exists>t. storable t \<and> r_expires_at r = stamp t)"

lemma row_expired:
  assumes "row_wf r" "storable now"
  shows "r_expires_at r \<le> stamp now \<longleftrightarrow> s_ExpiresAt (scan dec r) \<le> now"
proof -
  obtain t where t: "storable t" "r_expires_at r = stamp t" using assms(1) by (auto simp: row_wf_def)
  then show ?thesis using assms(2)
    by (simp add: stamp_le storable_def scan_def parse_time_def rfc3339_stamp
        whole_seconds_def [symmetric] whole_seconds_le_iff)
qed

section \<open>The interface Store\<close>

text \<open>What a gate relies on: what a lookup by token hash returns after each operation, whether or
  not the operation failed.\<close>

datatype store_op =
    OpCreate fault session string
  | OpTouch fault string instant instant
  | OpDelete fault string
  | OpDeleteToken fault string
  | OpSweep fault instant

locale session_store =
  fixes ins :: "fault \<Rightarrow> session \<Rightarrow> string \<Rightarrow> 's \<Rightarrow> 's"
    and lookup :: "string \<Rightarrow> 's \<Rightarrow> session option"
    and touch :: "fault \<Rightarrow> string \<Rightarrow> instant \<Rightarrow> instant \<Rightarrow> 's \<Rightarrow> 's"
    and del :: "fault \<Rightarrow> string \<Rightarrow> 's \<Rightarrow> 's"
    and del_token :: "fault \<Rightarrow> string \<Rightarrow> 's \<Rightarrow> 's"
    and purge :: "fault \<Rightarrow> instant \<Rightarrow> 's \<Rightarrow> 's"
    and ids :: "'s \<Rightarrow> string set"
    and ok :: "'s \<Rightarrow> bool"
    and good :: "session \<Rightarrow> bool"
    and norm :: "session \<Rightarrow> session"
  assumes lookup_ins_new:
      "good s \<Longrightarrow> lookup h st = None \<Longrightarrow> s_ID s \<notin> ids st \<Longrightarrow> lookup h (ins None s h st) = Some (norm s)"
    and lookup_ins_other: "h \<noteq> h' \<Longrightarrow> lookup h (ins f s h' st) = lookup h st"
    and lookup_touch_other:
      "lookup h st = Some s \<Longrightarrow> s_ID s \<noteq> i \<Longrightarrow> lookup h (touch f i a b st) = Some s"
    and lookup_touch_none: "lookup h st = None \<Longrightarrow> lookup h (touch f i a b st) = None"
    and lookup_del_other: "lookup h st = Some s \<Longrightarrow> s_ID s \<noteq> i \<Longrightarrow> lookup h (del f i st) = Some s"
    and lookup_del_none: "lookup h st = None \<Longrightarrow> lookup h (del f i st) = None"
    and lookup_del: "ok st \<Longrightarrow> lookup h st = Some s \<Longrightarrow> lookup h (del None (s_ID s) st) = None"
    and lookup_del_token_other: "h \<noteq> h' \<Longrightarrow> lookup h (del_token f h' st) = lookup h st"
    and lookup_del_token_none: "lookup h st = None \<Longrightarrow> lookup h (del_token f h st) = None"
    and lookup_del_token: "lookup h (del_token None h st) = None"
    and lookup_purge_none: "lookup h st = None \<Longrightarrow> lookup h (purge f now st) = None"
    and norm_id: "s_ID (norm s) = s_ID s"
    and keeps: "ok st \<Longrightarrow> ok (ins f s h st)" "ok st \<Longrightarrow> ok (touch f i a b st)" "ok st \<Longrightarrow> ok (del f i st)"
      "ok st \<Longrightarrow> ok (del_token f h st)" "ok st \<Longrightarrow> ok (purge f now st)"
begin

fun run :: "store_op \<Rightarrow> 's \<Rightarrow> 's" where
  "run (OpCreate f s h) st = ins f s h st"
| "run (OpTouch f i a b) st = touch f i a b st"
| "run (OpDelete f i) st = del f i st"
| "run (OpDeleteToken f h) st = del_token f h st"
| "run (OpSweep f now) st = purge f now st"

fun creates :: "string \<Rightarrow> store_op \<Rightarrow> bool" where
  "creates h (OpCreate f s h') = (h = h')"
| "creates h _ = False"

fun concerns :: "string \<Rightarrow> string \<Rightarrow> store_op \<Rightarrow> bool" where
  "concerns h i (OpCreate f s h') = (h = h')"
| "concerns h i (OpTouch f j a b) = (i = j)"
| "concerns h i (OpDelete f j) = (i = j)"
| "concerns h i (OpDeleteToken f h') = (h = h')"
| "concerns h i (OpSweep f now) = True"

lemma run_absent: "lookup h st = None \<Longrightarrow> \<not> creates h op \<Longrightarrow> lookup h (run op st) = None"
  by (cases op)
     (auto simp: lookup_ins_other lookup_touch_none lookup_del_none lookup_del_token_none
        lookup_purge_none lookup_del_token_other, metis lookup_del_token_none lookup_del_token_other)

lemma runs_absent:
  "lookup h st = None \<Longrightarrow> \<forall>op\<in>set ops. \<not> creates h op \<Longrightarrow> lookup h (fold run ops st) = None"
  by (induction ops arbitrary: st) (simp_all add: run_absent)

lemma logout_final:
  "\<forall>op\<in>set ops. \<not> creates h op \<Longrightarrow> lookup h (fold run ops (del_token None h st)) = None"
  by (rule runs_absent [OF lookup_del_token])

lemma runs_ok: "ok st \<Longrightarrow> ok (fold run ops st)"
proof (induction ops arbitrary: st)
  case (Cons op ops)
  from Cons.prems have "ok (run op st)" by (cases op) (simp_all add: keeps)
  from Cons.IH [OF this] show ?case by simp
qed simp

lemma revoke_final:
  "ok st \<Longrightarrow> lookup h st = Some s \<Longrightarrow> \<forall>op\<in>set ops. \<not> creates h op \<Longrightarrow>
   lookup h (fold run ops (del None (s_ID s) st)) = None"
  by (rule runs_absent [OF lookup_del])

lemma run_isolated:
  "lookup h st = Some s \<Longrightarrow> \<not> concerns h (s_ID s) op \<Longrightarrow> lookup h (run op st) = Some s"
  by (cases op)
     (auto simp: lookup_ins_other lookup_touch_other lookup_del_other lookup_del_token_other)

lemma runs_isolated:
  "lookup h st = Some s \<Longrightarrow> \<forall>op\<in>set ops. \<not> concerns h (s_ID s) op \<Longrightarrow>
   lookup h (fold run ops st) = Some s"
  by (induction ops arbitrary: st) (simp_all add: run_isolated)

lemma created_stays:
  assumes "good s" "lookup h st = None" "s_ID s \<notin> ids st" "\<forall>op\<in>set ops. \<not> concerns h (s_ID s) op"
  shows "lookup h (fold run ops (ins None s h st)) = Some (norm s)"
  by (rule runs_isolated [OF lookup_ins_new [OF assms(1-3)]]) (simp add: norm_id assms(4))

end

definition lookup_row :: "(string \<Rightarrow> string list option) \<Rightarrow> string \<Rightarrow> row list \<Rightarrow> session option" where
  "lookup_row dec h rows = map_option (scan dec) (find (\<lambda>r. r_token_hash r = h) rows)"

lemma SessionByToken_lookup: "SessionByToken dec None h rows = Inr (lookup_row dec h rows)"
  by (simp add: SessionByToken_def lookup_row_def)

lemma find_map_same: "(\<And>x. P (f x) = P x) \<Longrightarrow> find P (map f xs) = map_option f (find P xs)"
  by (induction xs) auto

lemma find_filter_other:
  "find P xs = Some x \<Longrightarrow> Q x \<Longrightarrow> (\<And>y. y \<in> set xs \<Longrightarrow> P y \<Longrightarrow> Q y \<or> y \<noteq> x) \<Longrightarrow> find P (filter Q xs) = Some x"
  by (induction xs) (auto split: if_splits)

lemma find_filter_none: "find P xs = None \<Longrightarrow> find P (filter Q xs) = None"
  by (induction xs) (auto split: if_splits)

lemma find_filter_keep: "(\<And>y. P y \<Longrightarrow> Q y) \<Longrightarrow> find P (filter Q xs) = find P xs"
  by (induction xs) auto

lemma scan_id [simp]: "s_ID (scan dec r) = r_id r"
  by (simp add: scan_def)

text \<open>The keys of the table: no two rows share an id or a token hash.\<close>

definition keys_ok :: "row list \<Rightarrow> bool" where
  "keys_ok rows \<longleftrightarrow> distinct (map r_id rows) \<and> distinct (map r_token_hash rows)"

lemma find_key:
  assumes "distinct (map f xs)" "find (\<lambda>x. f x = k) xs = Some y" "x \<in> set xs" "f x = k"
  shows "x = y"
proof -
  have "y \<in> set xs" "f y = k" using assms(2) by (auto simp: find_Some_iff)
  with assms show ?thesis by (metis distinct_map inj_onD)
qed

lemma keys_ok_filter: "keys_ok rows \<Longrightarrow> keys_ok (filter P rows)"
  by (simp add: keys_ok_def distinct_map_filter)

definition touch_row :: "string \<Rightarrow> instant \<Rightarrow> instant \<Rightarrow> row \<Rightarrow> row" where
  "touch_row i a b r = (if r_id r = i then r\<lparr>r_last_seen_at := stamp a, r_expires_at := stamp b\<rparr> else r)"

lemma touch_row_keys [simp]: "r_id (touch_row i a b r) = r_id r" "r_token_hash (touch_row i a b r) = r_token_hash r"
  by (simp_all add: touch_row_def)

lemma TouchSession_rows:
  "fst (TouchSession f i a b rows) = (if f = None then map (touch_row i a b) rows else rows)"
  by (simp add: TouchSession_def touch_row_def split: option.split)

lemma DeleteSession_rows:
  "fst (DeleteSession f i rows) = (if f = None then filter (\<lambda>r. r_id r \<noteq> i) rows else rows)"
  by (simp add: DeleteSession_def split: option.split)

lemma DeleteSessionByToken_rows:
  "fst (DeleteSessionByToken f h rows) = (if f = None then filter (\<lambda>r. r_token_hash r \<noteq> h) rows else rows)"
  by (simp add: DeleteSessionByToken_def split: option.split)

lemma DeleteExpiredSessions_rows:
  "fst (DeleteExpiredSessions f cnt now rows) =
     (if f = None then filter (\<lambda>r. \<not> r_expires_at r \<le> stamp now) rows else rows)"
  by (simp add: DeleteExpiredSessions_def split: option.split)

lemma CreateSession_rows:
  "fst (CreateSession enc uniq f s h rows) =
     (if f = None \<and> \<not> (\<exists>r\<in>set rows. r_id r = s_ID s \<or> r_token_hash r = h) then rows @ [row_of enc s h] else rows)"
  by (simp add: CreateSession_def split: option.split)

lemma row_of_keys [simp]: "r_id (row_of enc s h) = s_ID s" "r_token_hash (row_of enc s h) = h"
  by (simp_all add: row_of_def)

lemma CreateSession_keys: "keys_ok rows \<Longrightarrow> keys_ok (fst (CreateSession enc uniq f s h rows))"
  by (auto simp: CreateSession_rows keys_ok_def)

lemma TouchSession_keys: "keys_ok rows \<Longrightarrow> keys_ok (fst (TouchSession f i a b rows))"
  by (simp add: TouchSession_rows keys_ok_def comp_def)

definition good_session :: "(string list \<Rightarrow> string) \<Rightarrow> (string \<Rightarrow> string list option) \<Rightarrow> session \<Rightarrow> bool" where
  "good_session enc dec s \<longleftrightarrow> session_storable s \<and> dec (enc (s_Groups s)) = Some (s_Groups s)"

interpretation sqlite: session_store
  "\<lambda>f s h rows. fst (CreateSession enc uniq f s h rows)" "lookup_row dec"
  "\<lambda>f i a b rows. fst (TouchSession f i a b rows)" "\<lambda>f i rows. fst (DeleteSession f i rows)"
  "\<lambda>f h rows. fst (DeleteSessionByToken f h rows)" "\<lambda>f now rows. fst (DeleteExpiredSessions f None now rows)"
  "\<lambda>rows. r_id ` set rows" keys_ok "good_session enc dec" stored
proof unfold_locales
  fix s h and st :: "row list"
  assume "good_session enc dec s" "lookup_row dec h st = None" "s_ID s \<notin> r_id ` set st"
  then have "find (\<lambda>r. r_token_hash r = h) st = None" "\<forall>r\<in>set st. r_id r \<noteq> s_ID s \<and> r_token_hash r \<noteq> h"
    and "scan dec (row_of enc s h) = stored s"
    by (auto simp: lookup_row_def find_None_iff image_iff good_session_def scan_row_of)
  then show "lookup_row dec h (fst (CreateSession enc uniq None s h st)) = Some (stored s)"
    by (simp add: CreateSession_rows lookup_row_def find_append)
next
  fix h h' :: string and f s and st :: "row list"
  assume "h \<noteq> h'"
  then show "lookup_row dec h (fst (CreateSession enc uniq f s h' st)) = lookup_row dec h st"
    "lookup_row dec h (fst (DeleteSessionByToken f h' st)) = lookup_row dec h st"
    by (auto simp: CreateSession_rows DeleteSessionByToken_rows lookup_row_def find_append find_filter_keep
        split: option.split)
next
  fix h s i f a b and st :: "row list"
  assume l: "lookup_row dec h st = Some s" and "s_ID s \<noteq> i"
  then obtain r where r: "find (\<lambda>r. r_token_hash r = h) st = Some r" "scan dec r = s" "r_id r \<noteq> i"
    by (auto simp: lookup_row_def)
  then show "lookup_row dec h (fst (TouchSession f i a b st)) = Some s"
    by (simp add: TouchSession_rows lookup_row_def find_map_same touch_row_def)
  have "find (\<lambda>r. r_token_hash r = h) (filter (\<lambda>r. r_id r \<noteq> i) st) = Some r"
    by (rule find_filter_other [OF r(1)]) (use r(3) in auto)
  with l r show "lookup_row dec h (fst (DeleteSession f i st)) = Some s"
    by (simp add: DeleteSession_rows lookup_row_def)
next
  fix h f i a b now and st :: "row list"
  assume "lookup_row dec h st = None"
  then have n: "find (\<lambda>r. r_token_hash r = h) st = None" by (simp add: lookup_row_def)
  then show "lookup_row dec h (fst (TouchSession f i a b st)) = None"
    by (simp add: TouchSession_rows lookup_row_def find_map_same)
  from n show "lookup_row dec h (fst (DeleteSession f i st)) = None"
    "lookup_row dec h (fst (DeleteSessionByToken f h st)) = None"
    "lookup_row dec h (fst (DeleteExpiredSessions f None now st)) = None"
    by (simp_all add: DeleteSession_rows DeleteSessionByToken_rows DeleteExpiredSessions_rows
        lookup_row_def find_filter_none)
next
  fix h s and st :: "row list"
  assume "keys_ok st" "lookup_row dec h st = Some s"
  then show "lookup_row dec h (fst (DeleteSession None (s_ID s) st)) = None"
    by (auto simp: lookup_row_def DeleteSession_rows find_None_iff keys_ok_def dest: find_key)
next
  fix h and st :: "row list"
  show "lookup_row dec h (fst (DeleteSessionByToken None h st)) = None"
    by (simp add: lookup_row_def DeleteSessionByToken_rows find_None_iff)
next
  fix s show "s_ID (stored s) = s_ID s" by (simp add: stored_def)
next
  fix f s h i a b now and st :: "row list"
  assume "keys_ok st"
  then show "keys_ok (fst (CreateSession enc uniq f s h st))" "keys_ok (fst (TouchSession f i a b st))"
    "keys_ok (fst (DeleteSession f i st))" "keys_ok (fst (DeleteSessionByToken f h st))"
    "keys_ok (fst (DeleteExpiredSessions f None now st))"
    by (simp_all add: CreateSession_keys TouchSession_keys DeleteSession_rows DeleteSessionByToken_rows
        DeleteExpiredSessions_rows keys_ok_filter)
qed

section \<open>The table as the operations leave it\<close>

definition table_wf :: "row list \<Rightarrow> bool" where
  "table_wf rows \<longleftrightarrow> keys_ok rows \<and> (\<forall>r\<in>set rows. row_wf r)"

lemma sort_desc_mset: "mset (sort_desc rows) = mset rows"
proof -
  have "mset (insert_desc r xs) = add_mset r (mset xs)" for r xs
    by (induction xs) auto
  then show ?thesis by (induction rows) (simp_all add: sort_desc_def)
qed

lemma sort_desc_sorted: "sorted_wrt (\<lambda>a b. r_created_at b \<le> r_created_at a) (sort_desc rows)"
proof -
  have ins: "set (insert_desc r xs) = insert r (set xs)" for r xs
    by (induction xs) auto
  have "sorted_wrt (\<lambda>a b. r_created_at b \<le> r_created_at a) (insert_desc r xs)"
    if "sorted_wrt (\<lambda>a b. r_created_at b \<le> r_created_at a) xs" for r xs
    using that by (induction xs) (auto simp: ins)
  then show ?thesis by (induction rows) (simp_all add: sort_desc_def)
qed

section \<open>Properties\<close>

text \<open>
  C8: signing out is final: once a session is deleted, by its token or by its id, its token
  resolves to no session whatever operations follow, failing ones, touches and sweeps included,
  unless a session is created again under the very same token hash.
\<close>

theorem sign_out_final:
  assumes "keys_ok rows" and "lookup_row dec h rows = Some s"
    and "\<forall>op\<in>set ops. \<not> sqlite.creates h op"
  shows "SessionByToken dec None h (fold (sqlite.run enc uniq) ops
      (fst (DeleteSessionByToken None h rows))) = Inr None \<and>
    SessionByToken dec None h (fold (sqlite.run enc uniq) ops
      (fst (DeleteSession None (s_ID s) rows))) = Inr None"
  using sqlite.logout_final [OF assms(3)] sqlite.revoke_final [OF assms]
  by (simp add: SessionByToken_lookup)

text \<open>A session and codec for the concrete instances.\<close>

definition demo_session :: session where
  "demo_session = \<lparr>s_ID = ''1'', s_Subject = ''u'', s_Name = ''u'', s_Email = [], s_Groups = [],
     s_Owner = False, s_UserAgent = [], s_CreatedAt = 5 * second, s_LastSeenAt = 5 * second,
     s_ExpiresAt = 90 * second\<rparr>"

definition demo_rows :: "row list" where
  "demo_rows = [row_of (\<lambda>_. ''[]'') demo_session ''h'']"

lemma demo_storable: "session_storable demo_session"
  by (simp add: demo_session_def session_storable_def storable_def year_10000_def second_def day_secs_def)

lemma demo_keys: "keys_ok demo_rows"
  by (simp add: demo_rows_def keys_ok_def)

lemma demo_scan: "scan (\<lambda>_. Some []) (row_of (\<lambda>_. ''[]'') demo_session ''h'') = stored demo_session"
  by (rule scan_row_of [OF demo_storable]) (simp add: demo_session_def)

lemma demo_expires: "s_ExpiresAt (stored demo_session) = 90 * second"
  by (simp add: demo_session_def stored_def whole_seconds_def unix_secs_def)

lemma demo_lookup: "lookup_row (\<lambda>_. Some []) ''h'' demo_rows = Some (stored demo_session)"
  by (simp add: lookup_row_def demo_rows_def demo_scan)

theorem sign_out_final_witness:
  "SessionByToken (\<lambda>_. Some []) None ''h'' (fold (sqlite.run (\<lambda>_. ''[]'') (Text ''unique''))
      [OpTouch None ''1'' 7 8, OpSweep (Some (Text ''locked'')) 9]
      (fst (DeleteSessionByToken None ''h'' demo_rows))) = Inr None"
  using sign_out_final [OF demo_keys demo_lookup, of "[OpTouch None ''1'' 7 8, OpSweep (Some (Text ''locked'')) 9]"]
  by simp

text \<open>
  A created session resolves to itself, its instants cut to whole seconds, after any sequence
  of operations on other sessions; none of them, failing or not, touches it.
\<close>

theorem session_survives:
  assumes "session_storable s" and "dec (enc (s_Groups s)) = Some (s_Groups s)"
    and "SessionByToken dec None h rows = Inr None" and "s_ID s \<notin> r_id ` set rows"
    and "\<forall>op\<in>set ops. \<not> sqlite.concerns h (s_ID s) op"
  shows "snd (CreateSession enc uniq None s h rows) = None \<and>
    SessionByToken dec None h (fold (sqlite.run enc uniq) ops
      (fst (CreateSession enc uniq None s h rows))) = Inr (Some (stored s))"
proof
  have l: "lookup_row dec h rows = None" using assms(3) by (simp add: SessionByToken_lookup)
  then have "\<forall>r\<in>set rows. r_token_hash r \<noteq> h" by (auto simp: lookup_row_def find_None_iff)
  then show "snd (CreateSession enc uniq None s h rows) = None"
    using assms(4) by (force simp: CreateSession_def)
  show "SessionByToken dec None h (fold (sqlite.run enc uniq) ops
      (fst (CreateSession enc uniq None s h rows))) = Inr (Some (stored s))"
    unfolding SessionByToken_lookup
    using sqlite.created_stays [OF _ l assms(4,5), of enc uniq] assms(1,2) by (simp add: good_session_def)
qed

theorem session_survives_witness:
  "SessionByToken (\<lambda>_. Some []) None ''h'' (fold (sqlite.run (\<lambda>_. ''[]'') (Text ''unique''))
      [OpDelete None ''2'', OpTouch None ''3'' 1 2]
      (fst (CreateSession (\<lambda>_. ''[]'') (Text ''unique'') None demo_session ''h'' []))) =
    Inr (Some (stored demo_session))"
  using session_survives [OF demo_storable, of "\<lambda>_. Some []" "\<lambda>_. ''[]''" "''h''" "[]"
      "[OpDelete None ''2'', OpTouch None ''3'' 1 2]" "Text ''unique''"]
  by (simp add: demo_session_def SessionByToken_def)

text \<open>
  The sweep, which compares text, collects exactly the rows whose session, as it is read back,
  expires at or before now, and reports their number; no session with an expiry that the policy
  still accepts is lost.
\<close>

theorem sweep_exact:
  assumes "table_wf rows" and "storable now"
  shows "DeleteExpiredSessions None None now rows =
      (filter (\<lambda>r. now < s_ExpiresAt (scan dec r)) rows,
       Inr (int (length (filter (\<lambda>r. s_ExpiresAt (scan dec r) \<le> now) rows)))) \<and>
    (\<forall>r\<in>set rows. Live p (scan dec r) now \<and> s_ExpiresAt (scan dec r) \<noteq> 0 \<longrightarrow>
       r \<in> set (fst (DeleteExpiredSessions None None now rows)))"
proof -
  have eq: "r_expires_at r \<le> stamp now \<longleftrightarrow> s_ExpiresAt (scan dec r) \<le> now" if "r \<in> set rows" for r
    using row_expired [OF _ assms(2)] assms(1) that by (simp add: table_wf_def)
  have "filter (\<lambda>r. \<not> r_expires_at r \<le> stamp now) rows = filter (\<lambda>r. \<not> s_ExpiresAt (scan dec r) \<le> now) rows"
    "filter (\<lambda>r. r_expires_at r \<le> stamp now) rows = filter (\<lambda>r. s_ExpiresAt (scan dec r) \<le> now) rows"
    by (rule filter_cong; simp only: eq)+
  then have "DeleteExpiredSessions None None now rows =
      (filter (\<lambda>r. now < s_ExpiresAt (scan dec r)) rows,
       Inr (int (length (filter (\<lambda>r. s_ExpiresAt (scan dec r) \<le> now) rows))))"
    by (simp only: DeleteExpiredSessions_def option.case not_le)
  then show ?thesis by (auto simp: Live_def Let_def time_is_zero_def split: if_splits)
qed

lemma demo_now: "storable (90 * second)"
  by (simp add: storable_def year_10000_def second_def day_secs_def)

lemma demo_table: "table_wf demo_rows"
proof -
  have "row_wf (row_of (\<lambda>_. ''[]'') demo_session ''h'')"
    using demo_now by (auto simp: row_wf_def row_of_def demo_session_def)
  then show ?thesis using demo_keys by (simp add: table_wf_def demo_rows_def)
qed

theorem sweep_exact_witness:
  "fst (DeleteExpiredSessions None None (90 * second) demo_rows) = [] \<and>
   snd (DeleteExpiredSessions None None (90 * second) demo_rows) = Inr 1"
proof -
  from sweep_exact [OF demo_table demo_now, of "\<lambda>_. Some []"] show ?thesis
    by (simp add: demo_rows_def demo_scan demo_expires)
qed

text \<open>
  Clamping makes dead sessions collectable: for a session whose expiry the policy wrote, being
  live is exactly being before its expiry, so what the policy rejects, by idleness or by the
  absolute cap, is what a sweep at that instant deletes; and no session outlives creation by more
  than the maximal lifetime, however often it is renewed.
\<close>

theorem policy_collectable:
  assumes "policy_ok p" and "s_CreatedAt s \<noteq> 0" and "s_ExpiresAt s = ExpiryFor p (s_CreatedAt s) t"
    and "s_ExpiresAt s \<noteq> 0"
  shows "(Live p s now \<longleftrightarrow> now < s_ExpiresAt s) \<and>
    (Live p s now \<longrightarrow> now < s_CreatedAt s + p_MaxLifetime (withDefaults p)) \<and>
    (now < t + p_TTL (withDefaults p) \<and> now < s_CreatedAt s + p_MaxLifetime (withDefaults p) \<longrightarrow> Live p s now)"
  using assms(2-4) by (auto simp: Live_iff [OF assms(1)] ExpiryFor_eq)

theorem policy_collectable_witness:
  "Live DefaultPolicy (demo_session\<lparr>s_ExpiresAt := ExpiryFor DefaultPolicy (5 * second) (9 * second)\<rparr>) (100 * second)"
proof -
  have "policy_ok DefaultPolicy"
    by (simp add: policy_ok_def DefaultPolicy_def duration_units max_i64_def)
  from policy_collectable [OF this, of "demo_session\<lparr>s_ExpiresAt := ExpiryFor DefaultPolicy (5 * second) (9 * second)\<rparr>" "9 * second" "100 * second"]
  show ?thesis by (simp add: demo_session_def ExpiryFor_eq withDefaults_def DefaultPolicy_def duration_units)
qed

text \<open>
  Storing a session to the second never prolongs it: what the policy accepts of the session
  read back it accepts of the session created, and what it accepts of the session created one
  second later it accepts of the session read back.
\<close>

theorem stored_conservative:
  assumes "policy_ok p" and "second \<le> s_CreatedAt s" and "second \<le> s_ExpiresAt s"
  shows "(Live p (stored s) now \<longrightarrow> Live p s now) \<and> (Live p s (now + second) \<longrightarrow> Live p (stored s) now)"
proof -
  have up: "u < whole_seconds u + second" for u
    using int_div_less_iff [of second u "unix_secs u + 1"]
    by (simp add: unix_secs_def whole_seconds_def algebra_simps)
  note c = whole_seconds_pos [OF assms(2)] whole_seconds_le [of "s_CreatedAt s"] up [of "s_CreatedAt s"]
  note e = whole_seconds_pos [OF assms(3)] whole_seconds_le [of "s_ExpiresAt s"] up [of "s_ExpiresAt s"]
  show ?thesis
    using c e by (auto simp: Live_iff [OF assms(1)] stored_def)
qed

theorem stored_conservative_witness:
  "Live DefaultPolicy (stored demo_session) (89 * second)"
proof -
  have "policy_ok DefaultPolicy" "second \<le> s_CreatedAt demo_session" "second \<le> s_ExpiresAt demo_session"
    by (simp_all add: policy_ok_def DefaultPolicy_def duration_units max_i64_def demo_session_def)
  from stored_conservative [OF this, of "88 * second"] \<open>policy_ok DefaultPolicy\<close> show ?thesis
    by (simp add: Live_iff demo_session_def stored_def whole_seconds_def unix_secs_def
        withDefaults_def DefaultPolicy_def duration_units)
qed

end
