(* ===== verification/Token.thy ===== *)
theory Token
  imports Prelude
begin

text \<open>
  session/token.go and ids: the encodings of tokens and hashes. SHA-256 is a parameter of
  \<open>HashToken\<close>; the bytes read from crypto/rand are an argument of \<open>RandomToken\<close> and of the
  generators. Hexadecimal and unpadded base64url are written out, and shown injective: distinct
  bytes give distinct tokens.
\<close>

definition hex_alphabet :: string where
  "hex_alphabet = ''0123456789abcdef''"

definition hex_digit :: "nat \<Rightarrow> char" where
  "hex_digit n = hex_alphabet ! n"

definition hex_encode :: "string \<Rightarrow> string" where
  "hex_encode bs = concat (map (\<lambda>c. let n = of_char c :: nat in [hex_digit (n div 16), hex_digit (n mod 16)]) bs)"

definition HashToken :: "(string \<Rightarrow> string) \<Rightarrow> string \<Rightarrow> string" where
  "HashToken sha256 token = hex_encode (sha256 token)"

definition b64_alphabet :: string where
  "b64_alphabet = ''ABCDEFGHIJKLMNOPQRSTUVWXYZabcdefghijklmnopqrstuvwxyz0123456789-_''"

definition b64_char :: "nat \<Rightarrow> char" where
  "b64_char n = b64_alphabet ! n"

definition byte_of :: "char \<Rightarrow> nat" where
  "byte_of c = of_char c"

fun b64url :: "string \<Rightarrow> string" where
  "b64url [] = []"
| "b64url [a] = [b64_char (byte_of a div 4), b64_char (byte_of a mod 4 * 16)]"
| "b64url [a, b] =
     [b64_char (byte_of a div 4), b64_char (byte_of a mod 4 * 16 + byte_of b div 16),
      b64_char (byte_of b mod 16 * 4)]"
| "b64url (a # b # c # s) =
     [b64_char (byte_of a div 4), b64_char (byte_of a mod 4 * 16 + byte_of b div 16),
      b64_char (byte_of b mod 16 * 4 + byte_of c div 64), b64_char (byte_of c mod 64)] @ b64url s"

text \<open>\<open>random\<close> yields the bytes of one read of crypto/rand.\<close>

definition RandomToken :: "(nat \<Rightarrow> string) \<Rightarrow> nat \<Rightarrow> string" where
  "RandomToken random n = b64url (random n)"

definition NewToken :: "(nat \<Rightarrow> string) \<Rightarrow> string" where
  "NewToken random = b64url (random 32)"

definition GeneratePassword :: "(nat \<Rightarrow> string) \<Rightarrow> string" where
  "GeneratePassword random = b64url (random 16)"

section \<open>Lemmas\<close>

lemma byte_of_less: "byte_of c < 256"
  by (simp add: byte_of_def)

lemma byte_of_inj: "byte_of c = byte_of d \<longleftrightarrow> c = d"
  by (simp add: byte_of_def)

lemma alphabets: "distinct b64_alphabet" "length b64_alphabet = 64"
  "distinct hex_alphabet" "length hex_alphabet = 16"
  by code_simp+

lemma b64_char_inj: "m < 64 \<Longrightarrow> n < 64 \<Longrightarrow> b64_char m = b64_char n \<longleftrightarrow> m = n"
  by (simp add: b64_char_def nth_eq_iff_index_eq alphabets)

lemma hex_digit_inj: "m < 16 \<Longrightarrow> n < 16 \<Longrightarrow> hex_digit m = hex_digit n \<longleftrightarrow> m = n"
  by (simp add: hex_digit_def nth_eq_iff_index_eq alphabets)

lemma hex_encode_length: "length (hex_encode bs) = 2 * length bs"
  by (induction bs) (simp_all add: hex_encode_def Let_def)

theorem hex_encode_inj: "hex_encode a = hex_encode b \<longleftrightarrow> a = b"
proof
  assume "hex_encode a = hex_encode b"
  moreover from this have "length a = length b" by (metis hex_encode_length mult_cancel1 zero_neq_numeral)
  ultimately show "a = b"
  proof (induction a b rule: list_induct2')
    case (4 x xs y ys)
    have "byte_of x < 256" "byte_of y < 256" by (simp_all add: byte_of_less)
    then have "byte_of x div 16 < 16" "byte_of y div 16 < 16" by simp_all
    with 4 have "byte_of x div 16 = byte_of y div 16" "byte_of x mod 16 = byte_of y mod 16" "xs = ys"
      by (auto simp: hex_encode_def Let_def byte_of_def [symmetric] hex_digit_inj)
    then have "byte_of x = byte_of y" by (metis div_mult_mod_eq)
    with \<open>xs = ys\<close> show ?case by (simp add: byte_of_inj)
  qed simp_all
qed simp

lemma b64url_length: "length (b64url s) = (4 * length s + 2) div 3"
  by (induction s rule: b64url.induct) (simp_all add: algebra_simps)

lemma mult_add_inj:
  fixes c p q u v :: nat
  assumes "u < c" "v < c"
  shows "p * c + u = q * c + v \<longleftrightarrow> p = q \<and> u = v"
proof
  assume eq: "p * c + u = q * c + v"
  have "p = (p * c + u) div c" using assms by simp
  also have "\<dots> = q" unfolding eq using assms by simp
  finally show "p = q \<and> u = v" using eq by simp
qed simp

lemma byte_parts:
  "byte_of a div 4 < 64" "byte_of a mod 4 * 16 < 64" "byte_of a mod 4 * 16 + byte_of b div 16 < 64"
  "byte_of b mod 16 * 4 < 64" "byte_of b mod 16 * 4 + byte_of c div 64 < 64" "byte_of c mod 64 < 64"
  "byte_of b div 16 < 16" "byte_of c div 64 < 4"
  using byte_of_less [of a] byte_of_less [of b] byte_of_less [of c] by linarith+

lemma byte_eq_parts: "0 < n \<Longrightarrow> byte_of a = byte_of b \<longleftrightarrow> byte_of a div n = byte_of b div n \<and> byte_of a mod n = byte_of b mod n"
  by (metis div_mult_mod_eq)

lemma first_two:
  "[b64_char (byte_of a div 4), b64_char (byte_of a mod 4 * 16 + byte_of b div 16)] =
   [b64_char (byte_of c div 4), b64_char (byte_of c mod 4 * 16 + byte_of d div 16)] \<longleftrightarrow>
   a = c \<and> byte_of b div 16 = byte_of d div 16"
  using byte_eq_parts [of 4 a c]
  by (simp add: b64_char_inj byte_parts mult_add_inj byte_of_inj)

lemma b64url_inj: "length s = length t \<Longrightarrow> b64url s = b64url t \<Longrightarrow> s = t"
proof (induction s arbitrary: t rule: b64url.induct)
  case (2 a)
  then obtain a' where t: "t = [a']" by (cases t) auto
  from 2 have "byte_of a div 4 = byte_of a' div 4" "byte_of a mod 4 = byte_of a' mod 4"
    by (simp_all add: t b64_char_inj byte_parts)
  then show ?case using byte_eq_parts [of 4 a a'] by (simp add: t byte_of_inj)
next
  case (3 a b)
  then obtain a' b' where t: "t = [a', b']" by (cases t; cases "tl t") auto
  from 3 have "a = a'" "byte_of b div 16 = byte_of b' div 16" "byte_of b mod 16 = byte_of b' mod 16"
    using first_two [of a b a' b'] by (simp_all add: t b64_char_inj byte_parts)
  then show ?case using byte_eq_parts [of 16 b b'] by (simp add: t byte_of_inj)
next
  case (4 a b c s)
  then obtain a' b' c' s' where t: "t = a' # b' # c' # s'" "length s = length s'"
    by (cases t; cases "tl t"; cases "tl (tl t)") auto
  from 4 have ab: "a = a'" "byte_of b div 16 = byte_of b' div 16"
    using first_two [of a b a' b'] by (simp_all add: t)
  from 4 have "byte_of b mod 16 * 4 + byte_of c div 64 = byte_of b' mod 16 * 4 + byte_of c' div 64"
    "byte_of c mod 64 = byte_of c' mod 64" and s: "b64url s = b64url s'"
    by (simp_all add: t b64_char_inj byte_parts)
  then have "byte_of b mod 16 = byte_of b' mod 16" "byte_of c = byte_of c'"
    using byte_eq_parts [of 64 c c'] by (simp_all add: mult_add_inj byte_parts)
  then have "b = b'" "c = c'" using ab byte_eq_parts [of 16 b b'] by (simp_all add: byte_of_inj)
  with ab 4(1) [OF t(2) s] show ?case by (simp add: t)
qed simp

section \<open>Decoding\<close>

text \<open>\<open>base64.RawURLEncoding.DecodeString\<close>: line breaks are skipped, a character outside the
  alphabet and a lone last character are errors, and the unused bits of the last character are not
  looked at.\<close>

definition b64_val :: "char \<Rightarrow> nat option" where
  "b64_val c = (let i = length (takeWhile (\<lambda>d. d \<noteq> c) b64_alphabet) in if i < 64 then Some i else None)"

fun b64_bytes :: "nat list \<Rightarrow> string option" where
  "b64_bytes [] = Some []"
| "b64_bytes [p] = None"
| "b64_bytes [p, q] = Some [char_of (p * 4 + q div 16)]"
| "b64_bytes [p, q, r] = Some [char_of (p * 4 + q div 16), char_of (q mod 16 * 16 + r div 4)]"
| "b64_bytes (p # q # r # t # vs) =
     map_option (\<lambda>bs. [char_of (p * 4 + q div 16), char_of (q mod 16 * 16 + r div 4),
        char_of (r mod 4 * 64 + t)] @ bs) (b64_bytes vs)"

definition b64url_decode :: "string \<Rightarrow> string option" where
  "b64url_decode s =
     (case those (map b64_val (filter (\<lambda>c. c \<noteq> CHR 0x0A \<and> c \<noteq> CHR 0x0D) s)) of
        None \<Rightarrow> None
      | Some vs \<Rightarrow> b64_bytes vs)"

fun b64_vals :: "string \<Rightarrow> nat list" where
  "b64_vals [] = []"
| "b64_vals [a] = [byte_of a div 4, byte_of a mod 4 * 16]"
| "b64_vals [a, b] = [byte_of a div 4, byte_of a mod 4 * 16 + byte_of b div 16, byte_of b mod 16 * 4]"
| "b64_vals (a # b # c # s) =
     [byte_of a div 4, byte_of a mod 4 * 16 + byte_of b div 16,
      byte_of b mod 16 * 4 + byte_of c div 64, byte_of c mod 64] @ b64_vals s"

lemma b64url_vals: "b64url s = map b64_char (b64_vals s)"
  by (induction s rule: b64url.induct) simp_all

lemma b64_vals_less: "n \<in> set (b64_vals s) \<Longrightarrow> n < 64"
proof (induction s rule: b64_vals.induct)
  case (4 a b c s)
  then show ?case using byte_parts by auto
qed (use byte_parts in auto)

lemma b64_val_char: "n < 64 \<Longrightarrow> b64_val (b64_char n) = Some n"
proof -
  have "\<forall>n\<in>set [0..<64]. b64_val (b64_char n) = Some n" by code_simp
  then show "n < 64 \<Longrightarrow> b64_val (b64_char n) = Some n" by simp
qed

lemma b64_char_set: "n < 64 \<Longrightarrow> b64_char n \<in> set b64_alphabet"
  by (simp add: b64_char_def alphabets)

lemma b64url_set: "set (b64url s) \<subseteq> set b64_alphabet"
  using b64_char_set b64_vals_less [of _ s] by (auto simp: b64url_vals)

lemma b64_alphabet_free: "CHR 0x0A \<notin> set b64_alphabet" "CHR 0x0D \<notin> set b64_alphabet" "CHR 0x7C \<notin> set b64_alphabet"
  by code_simp+

lemma b64url_free: "CHR 0x0A \<notin> set (b64url s)" "CHR 0x0D \<notin> set (b64url s)" "CHR 0x7C \<notin> set (b64url s)"
  using b64url_set [of s] b64_alphabet_free by blast+

lemma those_map_Some: "(\<And>x. x \<in> set xs \<Longrightarrow> f x = Some (g x)) \<Longrightarrow> those (map f xs) = Some (map g xs)"
  by (induction xs) auto

lemma char_of_byte [simp]: "char_of (byte_of c) = c"
  by (simp add: byte_of_def)

lemma byte_join:
  "byte_of a div 4 * 4 + byte_of a mod 4 * 16 div 16 = byte_of a"
  "byte_of a div 4 * 4 + (byte_of a mod 4 * 16 + byte_of b div 16) div 16 = byte_of a"
  "(byte_of a mod 4 * 16 + byte_of b div 16) mod 16 * 16 + byte_of b mod 16 * 4 div 4 = byte_of b"
  "(byte_of a mod 4 * 16 + byte_of b div 16) mod 16 * 16 + (byte_of b mod 16 * 4 + byte_of c div 64) div 4 = byte_of b"
  "(byte_of b mod 16 * 4 + byte_of c div 64) mod 4 * 64 + byte_of c mod 64 = byte_of c"
  using byte_parts(7) [of b] byte_parts(8) [of c]
  by simp_all

lemma b64_bytes_vals: "b64_bytes (b64_vals s) = Some s"
  by (induction s rule: b64_vals.induct) (simp_all only: b64_vals.simps b64_bytes.simps byte_join char_of_byte append.simps option.map)

lemma b64url_decode_encode: "b64url_decode (b64url s) = Some s"
proof -
  have "filter (\<lambda>c. c \<noteq> CHR 0x0A \<and> c \<noteq> CHR 0x0D) (b64url s) = b64url s"
    using b64url_free [of s] by (intro filter_True) blast
  moreover have "those (map b64_val (b64url s)) = Some (map (\<lambda>n. n) (b64_vals s))"
    unfolding b64url_vals map_map by (rule those_map_Some) (simp add: b64_val_char b64_vals_less)
  ultimately show ?thesis by (simp add: b64url_decode_def b64_bytes_vals)
qed

section \<open>Properties\<close>

text \<open>
  The encoding of tokens loses nothing: draws of the same number of random bytes give equal
  tokens only when the bytes are equal, and the documented lengths hold: 43 characters for a
  token, 22 for a password, whatever the bytes.
\<close>

theorem token_injective:
  "(\<forall>r1 r2 n. length (r1 n) = length (r2 n) \<longrightarrow>
      RandomToken r1 n = RandomToken r2 n \<longleftrightarrow> r1 n = r2 n) \<and>
   (\<forall>r. (\<forall>n. length (r n) = n) \<longrightarrow> length (NewToken r) = 43 \<and> length (GeneratePassword r) = 22)"
  by (auto simp: RandomToken_def NewToken_def GeneratePassword_def b64url_length dest: b64url_inj)

theorem token_injective_witness:
  "RandomToken (\<lambda>n. replicate n CHR ''a'') 32 \<noteq> RandomToken (\<lambda>n. replicate n CHR ''b'') 32 \<and>
   length (NewToken (\<lambda>n. replicate n CHR ''a'')) = 43"
proof -
  let ?a = "\<lambda>n. replicate n CHR ''a''" and ?b = "\<lambda>n. replicate n CHR ''b''"
  have "?a 32 \<noteq> ?b 32" by (simp add: replicate_eq_replicate)
  with token_injective [THEN conjunct1] have "RandomToken ?a 32 \<noteq> RandomToken ?b 32"
    by (metis length_replicate)
  moreover have "length (NewToken ?a) = 43"
    using token_injective [THEN conjunct2] by (metis length_replicate)
  ultimately show ?thesis by simp
qed

end
