(* ===== verification/Oidc.thy ===== *)
theory Oidc
  imports Fault Session Token
begin

text \<open>
  oidcauth: the relying party. The configuration and its normal form (config.go), the sentinels
  (errors.go), the secrets of one login (identity.go), the provider (provider.go) and the job that
  sweeps expired sessions (sweep.go).

  The two libraries below it are the record \<open>idp\<close>: what one call of go-oidc or oauth2 answers at
  the moment it is made. Discovery, the token exchange and the verification of an id token are
  functions of exactly what the code hands over; \<open>url.Parse\<close>, \<open>URL.String\<close>, the rewriting of a
  query and \<open>strings.EqualFold\<close> are parameters too. The mutex of the discovery cache makes a call
  of \<open>discover\<close> one step, which is how it is modelled.
\<close>

section \<open>Configuration\<close>

definition DefaultScopes :: "string list" where
  "DefaultScopes = [''openid'', ''profile'', ''email'', ''groups'']"

definition DefaultCallbackPath :: string where "DefaultCallbackPath = ''/api/auth/callback''"
definition DefaultPostLogoutPath :: string where "DefaultPostLogoutPath = ''/''"
definition DefaultGroupsClaim :: string where "DefaultGroupsClaim = ''groups''"

definition OidcHTTPTimeout :: duration where "OidcHTTPTimeout = 15 * second"

record config =
  c_Issuer :: string
  c_ClientID :: string
  c_ClientSecret :: string
  c_BaseURL :: string
  c_OwnerGroup :: string
  c_Scopes :: "string list"
  c_GroupsClaim :: string
  c_CallbackPath :: string
  c_PostLogoutPath :: string
  c_HTTPClient :: "(duration \<times> layers) option"

text \<open>\<open>strings.TrimRight(s, "/")\<close>.\<close>

definition trim_slash :: "string \<Rightarrow> string" where
  "trim_slash s = rev (dropWhile (\<lambda>c. c = CHR 0x2F) (rev s))"

definition normalizePath :: "string \<Rightarrow> string \<Rightarrow> string" where
  "normalizePath p0 def =
     (let p = trim_space p0 in
      if p = [] then def
      else if \<not> has_prefix p ''/'' then ''/'' @ p
      else p)"

definition Normalize :: "config \<Rightarrow> config" where
  "Normalize c =
     c\<lparr>c_Issuer := trim_slash (trim_space (c_Issuer c)),
       c_ClientID := trim_space (c_ClientID c),
       c_ClientSecret := trim_space (c_ClientSecret c),
       c_BaseURL := trim_slash (trim_space (c_BaseURL c)),
       c_OwnerGroup := trim_space (c_OwnerGroup c),
       c_Scopes := (if c_Scopes c = [] then DefaultScopes else c_Scopes c),
       c_GroupsClaim := (if trim_space (c_GroupsClaim c) = [] then DefaultGroupsClaim
                         else trim_space (c_GroupsClaim c)),
       c_CallbackPath := normalizePath (c_CallbackPath c) DefaultCallbackPath,
       c_PostLogoutPath := normalizePath (c_PostLogoutPath c) DefaultPostLogoutPath\<rparr>"

definition Configured :: "config \<Rightarrow> bool" where
  "Configured c \<longleftrightarrow> trim_space (c_Issuer c) \<noteq> [] \<and> trim_space (c_ClientID c) \<noteq> [] \<and>
     trim_space (c_ClientSecret c) \<noteq> [] \<and> trim_space (c_BaseURL c) \<noteq> []"

section \<open>Sentinels\<close>

definition ErrUnresolved :: string where "ErrUnresolved = ''oidc: issuer host did not resolve''"
definition ErrUntrusted :: string where "ErrUntrusted = ''oidc: issuer certificate not trusted''"
definition ErrDiscoveryFailed :: string where "ErrDiscoveryFailed = ''oidc: provider discovery failed''"
definition ErrClientRejected :: string where
  "ErrClientRejected = ''oidc: provider rejected the client id or secret''"
definition ErrCodeRejected :: string where
  "ErrCodeRejected = ''oidc: provider rejected the authorization code''"
definition ErrTokenEndpointUnreachable :: string where
  "ErrTokenEndpointUnreachable = ''oidc: token endpoint could not be reached''"
definition ErrTokenInvalid :: string where "ErrTokenInvalid = ''oidc: id_token failed verification''"
definition ErrNotConfigured :: string where "ErrNotConfigured = ''oidc: provider is not configured''"

lemmas oidc_sentinels = ErrUnresolved_def ErrUntrusted_def ErrDiscoveryFailed_def ErrClientRejected_def
  ErrCodeRejected_def ErrTokenEndpointUnreachable_def ErrTokenInvalid_def ErrNotConfigured_def

section \<open>The secrets of one login\<close>

record handshake =
  h_State :: string
  h_Nonce :: string
  h_Verifier :: string

text \<open>\<open>random k n\<close>: the \<open>n\<close> bytes the \<open>k\<close>-th read of the random source returns.\<close>

definition NewHandshake :: "(nat \<Rightarrow> nat \<Rightarrow> string) \<Rightarrow> handshake" where
  "NewHandshake random =
     \<lparr>h_State = RandomToken (random 0) 32, h_Nonce = RandomToken (random 1) 32,
      h_Verifier = RandomToken (random 2) 32\<rparr>"

definition handshake_Valid :: "handshake \<Rightarrow> bool" where
  "handshake_Valid h \<longleftrightarrow> h_State h \<noteq> [] \<and> h_Nonce h \<noteq> [] \<and> h_Verifier h \<noteq> []"

section \<open>The libraries below\<close>

text \<open>A discovery document: the endpoint and what \<open>Claims\<close> reads as \<open>end_session_endpoint\<close> (None
  when it fails to decode).\<close>

record metadata =
  md_AuthURL :: string
  md_TokenURL :: string
  md_EndSession :: "string option"

record oauth_config =
  oc_ClientID :: string
  oc_ClientSecret :: string
  oc_AuthURL :: string
  oc_TokenURL :: string
  oc_RedirectURL :: string
  oc_Scopes :: "string list"

text \<open>A JSON value as \<open>any\<close>; \<open>AOther\<close> is a number, a boolean, null or an object.\<close>

datatype any = AStr string | AList "any list" | AStrings "string list" | AOther

record id_token =
  it_Nonce :: string
  it_claims :: "(string \<Rightarrow> any option) option"  \<comment> \<open>None when \<open>Claims\<close> fails\<close>

record idp =
  idp_discover :: "duration \<times> layers \<Rightarrow> string \<Rightarrow> gerr + metadata"
  idp_authurl :: "oauth_config \<Rightarrow> string \<Rightarrow> string \<Rightarrow> string \<Rightarrow> string"  \<comment> \<open>state, nonce, challenge\<close>
  idp_challenge :: "string \<Rightarrow> string"  \<comment> \<open>S256\<close>
  idp_exchange :: "duration \<times> layers \<Rightarrow> oauth_config \<Rightarrow> string \<Rightarrow> string option \<Rightarrow> gerr + any option"
      \<comment> \<open>code, verifier; the \<open>id_token\<close> among the extra fields\<close>
  idp_verify :: "duration \<times> layers \<Rightarrow> metadata \<Rightarrow> string \<Rightarrow> string \<Rightarrow> gerr + id_token"
      \<comment> \<open>client id, raw token\<close>
  idp_parse :: "string \<Rightarrow> url option"
  idp_str :: "url \<Rightarrow> string"
  idp_setq :: "string \<Rightarrow> (string \<times> string) list \<Rightarrow> string"  \<comment> \<open>\<open>Query\<close>, \<open>Set\<close> for each pair, \<open>Encode\<close>\<close>
  idp_fold :: "string \<Rightarrow> string \<Rightarrow> bool"  \<comment> \<open>\<open>strings.EqualFold\<close>\<close>

section \<open>Provider\<close>

record provider =
  pv_cfg :: config
  pv_http :: "duration \<times> layers"
  pv_provider :: "metadata option"

definition New_provider :: "config \<Rightarrow> provider option" where
  "New_provider cfg0 =
     (let cfg = Normalize cfg0 in
      if \<not> Configured cfg then None
      else Some \<lparr>pv_cfg = cfg,
                 pv_http = (case c_HTTPClient cfg of
                    None \<Rightarrow> NewHTTPClient \<lparr>ho_Timeout = OidcHTTPTimeout, ho_Retry = None, ho_Tracing = False\<rparr>
                  | Some c \<Rightarrow> c),
                 pv_provider = None\<rparr>)"

definition RedirectURI :: "provider \<Rightarrow> string" where
  "RedirectURI p = c_BaseURL (pv_cfg p) @ c_CallbackPath (pv_cfg p)"

definition PostLogoutURI :: "provider \<Rightarrow> string" where
  "PostLogoutURI p = c_BaseURL (pv_cfg p) @ c_PostLogoutPath (pv_cfg p)"

definition CookieSecure :: "idp \<Rightarrow> provider \<Rightarrow> bool" where
  "CookieSecure I p =
     (case idp_parse I (c_BaseURL (pv_cfg p)) of None \<Rightarrow> False | Some u \<Rightarrow> u_Scheme u = ''https'')"

definition tokenEndpointErrors :: "string list" where
  "tokenEndpointErrors = [''invalid_request'', ''invalid_client'', ''invalid_grant'',
     ''unauthorized_client'', ''unsupported_grant_type'', ''invalid_scope'']"

definition clientWasRejected :: "string \<times> int option \<Rightarrow> bool" where
  "clientWasRejected re =
     (if fst re \<noteq> [] then fst re = ''invalid_client'' else snd re = Some 401)"

definition discoveryErr :: "idp \<Rightarrow> gerr \<Rightarrow> gerr" where
  "discoveryErr I err =
     (if errors_is err ctx_canceled \<or> errors_is err ctx_deadline
      then Multi '': '' [Sentinel ErrDiscoveryFailed, err]
      else case errors_as as_dns err of
        Some d \<Rightarrow> Multi '': '' [Sentinel ErrUnresolved, DnsErr d]
      | None \<Rightarrow>
      case errors_as as_cert err of
        Some m \<Rightarrow> Multi '': '' [Sentinel ErrUntrusted, CertErr m]
      | None \<Rightarrow>
      case errors_as as_url err of
        Some _ \<Rightarrow> Multi '': '' [Sentinel ErrDiscoveryFailed, Redact (idp_parse I) (idp_str I) err]
      | None \<Rightarrow> Wrap [] (Sentinel ErrDiscoveryFailed)
          '': the provider did not return a valid discovery document'')"

definition exchangeErr :: "idp \<Rightarrow> gerr \<Rightarrow> gerr" where
  "exchangeErr I err =
     (case errors_as as_retrieve err of
        None \<Rightarrow>
          (case errors_as as_url err of
             Some _ \<Rightarrow> Multi '': '' [Sentinel ErrTokenEndpointUnreachable,
                                    Redact (idp_parse I) (idp_str I) err]
           | None \<Rightarrow> Wrap [] (Sentinel ErrTokenEndpointUnreachable)
               '': the token endpoint returned a response that could not be parsed'')
      | Some re \<Rightarrow>
          let answered = (if fst re \<in> set tokenEndpointErrors then fst re else ''an unrecognised error'')
          in if clientWasRejected re
             then Wrap [] (Sentinel ErrClientRejected) ('' (token endpoint answered '' @ answered @ '')'')
             else Wrap [] (Sentinel ErrCodeRejected) ('' (token endpoint answered '' @ answered @ '')''))"

definition discover :: "idp \<Rightarrow> provider \<Rightarrow> provider \<times> (gerr + metadata)" where
  "discover I p =
     (case pv_provider p of
        Some m \<Rightarrow> (p, Inr m)
      | None \<Rightarrow>
          (case idp_discover I (pv_http p) (c_Issuer (pv_cfg p)) of
             Inl e \<Rightarrow> (p, Inl (discoveryErr I e))
           | Inr m \<Rightarrow> (p\<lparr>pv_provider := Some m\<rparr>, Inr m)))"

definition oauthConfig :: "provider \<Rightarrow> metadata \<Rightarrow> oauth_config" where
  "oauthConfig p m =
     \<lparr>oc_ClientID = c_ClientID (pv_cfg p), oc_ClientSecret = c_ClientSecret (pv_cfg p),
      oc_AuthURL = md_AuthURL m, oc_TokenURL = md_TokenURL m,
      oc_RedirectURL = RedirectURI p, oc_Scopes = c_Scopes (pv_cfg p)\<rparr>"

definition AuthorizeURL ::
    "idp \<Rightarrow> provider \<Rightarrow> string \<Rightarrow> string \<Rightarrow> string \<Rightarrow> provider \<times> (gerr + string)" where
  "AuthorizeURL I p state nonce verifier =
     (case discover I p of
        (p', Inl e) \<Rightarrow> (p', Inl e)
      | (p', Inr m) \<Rightarrow>
          (p', Inr (idp_authurl I (oauthConfig p' m) state nonce (idp_challenge I verifier))))"

subsection \<open>Claims\<close>

definition stringClaim :: "(string \<Rightarrow> any option) \<Rightarrow> string \<Rightarrow> string" where
  "stringClaim claims key = (case claims key of Some (AStr s) \<Rightarrow> s | _ \<Rightarrow> [])"

fun any_string :: "any \<Rightarrow> string option" where
  "any_string (AStr s) = Some s"
| "any_string _ = None"

definition stringsClaim :: "(string \<Rightarrow> any option) \<Rightarrow> string \<Rightarrow> string list" where
  "stringsClaim claims key =
     (case claims key of
        Some (AList v) \<Rightarrow> List.map_filter any_string v
      | Some (AStrings v) \<Rightarrow> v
      | Some (AStr s) \<Rightarrow> (if s = [] then [] else [s])
      | _ \<Rightarrow> [])"

definition IsOwner :: "idp \<Rightarrow> provider \<Rightarrow> string list \<Rightarrow> bool" where
  "IsOwner I p groups =
     (if c_OwnerGroup (pv_cfg p) = [] then True
      else list_ex (\<lambda>g. idp_fold I (trim_space g) (c_OwnerGroup (pv_cfg p))) groups)"

definition identityFrom :: "idp \<Rightarrow> provider \<Rightarrow> id_token \<Rightarrow> gerr + identity" where
  "identityFrom I p tok =
     (case it_claims tok of
        None \<Rightarrow> Inl (Wrap [] (Sentinel ErrTokenInvalid) '': unreadable id_token claims'')
      | Some claims \<Rightarrow>
          let sub = trim_space (stringClaim claims ''sub'');
              name = trim_space (stringClaim claims ''name'');
              groups = stringsClaim claims (c_GroupsClaim (pv_cfg p))
          in if sub = [] then Inl (Wrap [] (Sentinel ErrTokenInvalid) '': id_token carries no subject'')
             else Inr \<lparr>id_Subject = sub, id_Name = (if name = [] then sub else name),
                       id_Email = trim_space (stringClaim claims ''email''),
                       id_Groups = groups, id_Owner = IsOwner I p groups\<rparr>)"

subsection \<open>The code exchange\<close>

definition expired_text :: string where
  "expired_text = '': the id_token was already expired on arrival '' @ [CHR 0xE2, CHR 0x80, CHR 0x94] @
     '' check the server clock''"

definition accept ::
    "idp \<Rightarrow> provider \<Rightarrow> metadata \<Rightarrow> string \<Rightarrow> string \<Rightarrow> string \<Rightarrow> gerr + identity" where
  "accept I p m code nonce verifier =
     (case idp_exchange I (pv_http p) (oauthConfig p m) code (Some verifier) of
        Inl e \<Rightarrow> Inl (exchangeErr I e)
      | Inr extra \<Rightarrow>
          (case extra of
             Some (AStr raw) \<Rightarrow>
               if raw = [] then Inl (Wrap [] (Sentinel ErrTokenInvalid) '': the provider returned no id_token'')
               else (case idp_verify I (pv_http p) m (c_ClientID (pv_cfg p)) raw of
                       Inl e \<Rightarrow>
                         (if errors_as as_expired e \<noteq> None
                          then Inl (Wrap [] (Sentinel ErrTokenInvalid) expired_text)
                          else Inl (Sentinel ErrTokenInvalid))
                     | Inr tok \<Rightarrow>
                         if nonce = [] \<or> it_Nonce tok = [] \<or> it_Nonce tok \<noteq> nonce
                         then Inl (Wrap [] (Sentinel ErrTokenInvalid) '': id_token nonce mismatch'')
                         else identityFrom I p tok)
           | _ \<Rightarrow> Inl (Wrap [] (Sentinel ErrTokenInvalid) '': the provider returned no id_token'')))"

definition Exchange ::
    "idp \<Rightarrow> provider \<Rightarrow> string \<Rightarrow> string \<Rightarrow> string \<Rightarrow> provider \<times> (gerr + identity)" where
  "Exchange I p0 code nonce verifier =
     (case discover I p0 of
        (p, Inl e) \<Rightarrow> (p, Inl e)
      | (p, Inr m) \<Rightarrow> (p, accept I p m code nonce verifier))"

subsection \<open>Sign-out and health\<close>

definition EndSessionURL :: "idp \<Rightarrow> provider \<Rightarrow> provider \<times> (gerr + string)" where
  "EndSessionURL I p0 =
     (case discover I p0 of
        (p, Inl e) \<Rightarrow> (p, Inl e)
      | (p, Inr m) \<Rightarrow>
          (p, Inr (case md_EndSession m of
                     None \<Rightarrow> []
                   | Some raw \<Rightarrow>
                       if trim_space raw = [] then []
                       else (case idp_parse I raw of
                               None \<Rightarrow> []
                             | Some u \<Rightarrow> idp_str I (u\<lparr>u_RawQuery :=
                                 idp_setq I (u_RawQuery u)
                                   [(''client_id'', c_ClientID (pv_cfg p)),
                                    (''post_logout_redirect_uri'', PostLogoutURI p)]\<rparr>)))))"

definition verifyClientCredentials :: "idp \<Rightarrow> provider \<Rightarrow> metadata \<Rightarrow> gerr option" where
  "verifyClientCredentials I p m =
     (case idp_exchange I (pv_http p) (oauthConfig p m) ''oidcauth-credential-probe-not-a-real-code'' None of
        Inr _ \<Rightarrow> None
      | Inl err \<Rightarrow>
          (case errors_as as_retrieve err of
             Some re \<Rightarrow> if clientWasRejected re then Some (Sentinel ErrClientRejected) else None
           | None \<Rightarrow> None))"

definition CheckHealth :: "idp \<Rightarrow> provider \<Rightarrow> gerr option" where
  "CheckHealth I p =
     (case idp_discover I (pv_http p) (c_Issuer (pv_cfg p)) of
        Inl e \<Rightarrow> Some (discoveryErr I e)
      | Inr m \<Rightarrow> verifyClientCredentials I p m)"

section \<open>The sweep\<close>

definition SweepInterval :: duration where "SweepInterval = 24 * hour"
definition sweepTimeout :: duration where "sweepTimeout = 30 * second"

text \<open>\<open>jb_Do\<close> takes the errors of the driver (of the statement, of its count), the clock and the table; its last result is the count
  that is logged, if anything is.\<close>

record sweep_job =
  jb_Name :: string
  jb_Every :: duration
  jb_Timeout :: duration
  jb_RunAtStart :: bool
  jb_Do :: "gerr option \<times> gerr option \<Rightarrow> instant \<Rightarrow> row list \<Rightarrow> row list \<times> gerr option \<times> int option"

definition sweep_once :: "gerr option \<times> gerr option \<Rightarrow> instant \<Rightarrow> row list \<Rightarrow> row list \<times> gerr option \<times> int option" where
  "sweep_once fault now rows =
     (case DeleteExpiredSessions (fst fault) (snd fault) now rows of
        (rows', Inl e) \<Rightarrow> (rows', Some e, None)
      | (rows', Inr n) \<Rightarrow> (rows', None, if n > 0 then Some n else None))"

text \<open>\<open>sweeps\<close>: the store implements \<open>ExpiredSweeper\<close>.\<close>

definition SweepJob :: "bool \<Rightarrow> sweep_job option" where
  "SweepJob sweeps =
     (if \<not> sweeps then None
      else Some \<lparr>jb_Name = ''oidc-session-sweep'', jb_Every = SweepInterval, jb_Timeout = sweepTimeout,
                 jb_RunAtStart = True, jb_Do = sweep_once\<rparr>)"

section \<open>Lemmas on the normal form\<close>

lemma trim_right_blank: "leading_space s = 0 \<Longrightarrow> trim_right s = [] \<Longrightarrow> s = []"
proof (induction s rule: trim_right.induct)
  case (1 s)
  show ?case
  proof (cases "trailing_space s = 0")
    case True
    with 1(3) show ?thesis by (simp add: trim_right.simps [of s])
  next
    case False
    let ?u = "take (length s - trailing_space s) s"
    have "leading_space ?u = 0" by (rule leading_space_prefix [OF take_is_prefix 1(2)])
    moreover have "trim_right ?u = []" using 1(3) False by (simp add: trim_right.simps [of s])
    ultimately have "?u = []" by (rule 1(1) [OF False])
    moreover from False obtain w where w: "find (has_suffix s) space_runes = Some w" "trailing_space s = length w"
      by (auto simp: trailing_space_def split: option.splits)
    then have "w \<in> set space_runes" "has_suffix s w" by (auto simp: find_Some_iff)
    ultimately have "s = w" using w(2) by (auto simp: has_suffix_iff)
    with \<open>w \<in> set space_runes\<close> 1(2) show ?thesis by (auto simp: leading_space_0_iff has_prefix_iff)
  qed
qed

lemma trim_slash_prefix: "prefix (trim_slash s) s"
proof -
  have "suffix (dropWhile (\<lambda>c. c = CHR 0x2F) (rev s)) (rev s)" by (rule suffix_dropWhile)
  then show ?thesis by (simp add: trim_slash_def suffix_to_prefix)
qed

lemma trim_slash_last: "trim_slash s \<noteq> [] \<Longrightarrow> last (trim_slash s) \<noteq> CHR 0x2F"
  using hd_dropWhile [of "\<lambda>c. c = CHR 0x2F" "rev s"] by (simp add: trim_slash_def last_rev)

lemma trim_slash_id: "s = [] \<or> last s \<noteq> CHR 0x2F \<Longrightarrow> trim_slash s = s"
  by (cases s rule: rev_cases) (auto simp: trim_slash_def)

lemma trim_slash_Nil [simp]: "trim_slash s = [] \<longleftrightarrow> set s \<subseteq> {CHR 0x2F}"
  by (auto simp: trim_slash_def)

lemma trim_url_blank: "trim_space (trim_slash (trim_space s)) = [] \<longleftrightarrow> set (trim_space s) \<subseteq> {CHR 0x2F}"
proof
  have l: "leading_space (trim_slash (trim_space s)) = 0"
    by (rule leading_space_prefix [OF trim_slash_prefix trim_space_no_leading])
  assume "trim_space (trim_slash (trim_space s)) = []"
  then have "trim_right (trim_slash (trim_space s)) = []"
    using l by (simp add: trim_space_def trim_left.simps [of "trim_slash (trim_right (trim_left s))"])
  with l have "trim_slash (trim_space s) = []" by (rule trim_right_blank)
  then show "set (trim_space s) \<subseteq> {CHR 0x2F}" by simp
next
  assume "set (trim_space s) \<subseteq> {CHR 0x2F}"
  then have "trim_slash (trim_space s) = []" by simp
  then show "trim_space (trim_slash (trim_space s)) = []" by (simp only: trim_space_Nil)
qed

lemma trim_space_shorter: "trailing_space s \<noteq> 0 \<Longrightarrow> leading_space s = 0 \<Longrightarrow> length (trim_space s) < length s"
proof -
  assume t: "trailing_space s \<noteq> 0" and l: "leading_space s = 0"
  then have "trim_space s = trim_right (take (length s - trailing_space s) s)"
    by (simp add: trim_space_def trim_left.simps [of s] trim_right.simps [of s])
  then have "length (trim_space s) \<le> length s - trailing_space s"
    using prefix_length_le [OF trim_right_prefix [of "take (length s - trailing_space s) s"]] by simp
  with t trailing_space_le [of s] show ?thesis by linarith
qed

lemma trim_url_again:
  assumes "leading_space s = 0" and "s = [] \<or> last s \<noteq> CHR 0x2F"
  shows "trim_slash (trim_space s) = s \<longleftrightarrow> trailing_space s = 0"
proof
  assume "trim_slash (trim_space s) = s"
  then have "length s \<le> length (trim_space s)" using prefix_length_le [OF trim_slash_prefix] by metis
  then show "trailing_space s = 0" using trim_space_shorter [OF _ assms(1)] by (meson not_le)
next
  assume "trailing_space s = 0"
  then show "trim_slash (trim_space s) = s" using trim_space_id [OF assms(1)] trim_slash_id [OF assms(2)] by simp
qed

lemma normalizePath_first: "normalizePath p (CHR 0x2F # d) = CHR 0x2F # tl (normalizePath p (CHR 0x2F # d))"
  by (auto simp: normalizePath_def Let_def has_prefix_iff)

lemma slash_not_space: "w \<in> set space_runes \<Longrightarrow> w = CHR 0x2F # w' \<Longrightarrow> False"
  by (auto simp: space_runes_def)

lemma leading_space_slash [simp]: "leading_space (CHR 0x2F # s) = 0"
proof -
  have "\<not> has_prefix (CHR 0x2F # s) w" if "w \<in> set space_runes" for w
    using slash_not_space [OF that] space_runes_nonempty [OF that]
    by (cases w) (simp_all del: split_paired_All, metis has_prefix.simps(3))
  then show ?thesis by (simp add: leading_space_0_iff)
qed

lemma trailing_space_slash:
  "trailing_space s = 0 \<Longrightarrow> s \<noteq> [] \<Longrightarrow> trailing_space (CHR 0x2F # s) = 0"
  unfolding trailing_space_0_iff has_suffix_iff
  by (metis append_eq_Cons_conv slash_not_space append.left_neutral)

lemma normalizePath_again: "trailing_space d = 0 \<Longrightarrow> d = CHR 0x2F # d' \<Longrightarrow> normalizePath (normalizePath p d) d = normalizePath p d"
proof -
  assume d: "trailing_space d = 0" "d = CHR 0x2F # d'"
  have t: "trim_space (normalizePath p d) = normalizePath p d"
  proof (rule trim_space_id)
    show "leading_space (normalizePath p d) = 0"
      using d by (simp add: normalizePath_def Let_def trim_space_no_leading)
    show "trailing_space (normalizePath p d) = 0"
      using d by (simp add: normalizePath_def Let_def trim_space_no_trailing trailing_space_slash)
  qed
  have "\<exists>r. normalizePath p d = CHR 0x2F # r"
    using normalizePath_first [of p d'] d(2) by blast
  with t show ?thesis by (subst normalizePath_def) (auto simp: Let_def)
qed

section \<open>Lemmas on the provider\<close>

lemma discover_cases:
  obtains (cached) m where "pv_provider p = Some m" "discover I p = (p, Inr m)"
  | (failed) e where "pv_provider p = None" "idp_discover I (pv_http p) (c_Issuer (pv_cfg p)) = Inl e"
      "discover I p = (p, Inl (discoveryErr I e))"
  | (fetched) m where "pv_provider p = None" "idp_discover I (pv_http p) (c_Issuer (pv_cfg p)) = Inr m"
      "discover I p = (p\<lparr>pv_provider := Some m\<rparr>, Inr m)"
  by (cases "pv_provider p"; cases "idp_discover I (pv_http p) (c_Issuer (pv_cfg p))")
     (simp_all add: discover_def)

lemma IsOwner_cache [simp]: "IsOwner I (p\<lparr>pv_provider := m\<rparr>) gs = IsOwner I p gs"
  by (simp add: IsOwner_def)

lemma identityFrom_cache [simp]: "identityFrom I (p\<lparr>pv_provider := m\<rparr>) t = identityFrom I p t"
  by (simp add: identityFrom_def Let_def cong: option.case_cong if_cong)

lemma oauthConfig_cache [simp]: "oauthConfig (p\<lparr>pv_provider := x\<rparr>) m = oauthConfig p m"
  by (simp add: oauthConfig_def RedirectURI_def)

text \<open>The provider document a call works with, if it gets one.\<close>

definition found :: "idp \<Rightarrow> provider \<Rightarrow> metadata \<Rightarrow> bool" where
  "found I p m \<longleftrightarrow> pv_provider p = Some m \<or>
     pv_provider p = None \<and> idp_discover I (pv_http p) (c_Issuer (pv_cfg p)) = Inr m"

lemma accept_cache [simp]:
  "accept I (p\<lparr>pv_provider := x\<rparr>) m code nonce verifier = accept I p m code nonce verifier"
  by (simp add: accept_def cong: sum.case_cong option.case_cong any.case_cong if_cong)

lemma accept_Inr:
  assumes "accept I p m code nonce verifier = Inr i"
  obtains raw tok where "idp_exchange I (pv_http p) (oauthConfig p m) code (Some verifier) = Inr (Some (AStr raw))"
    "idp_verify I (pv_http p) m (c_ClientID (pv_cfg p)) raw = Inr tok" "it_Nonce tok = nonce" "nonce \<noteq> []"
    "identityFrom I p tok = Inr i"
  using assms
  by (simp add: accept_def split: sum.splits option.splits any.splits if_splits)

lemma identityFrom_Inr:
  assumes "identityFrom I p tok = Inr i"
  shows "id_Subject i \<noteq> []" "id_Name i \<noteq> []" "trim_space (id_Subject i) = id_Subject i"
    "id_Owner i = IsOwner I p (id_Groups i)"
  using assms
  by (auto simp: identityFrom_def Let_def split: option.splits if_splits)

lemma Exchange_Inr:
  assumes "Exchange I p code nonce verifier = (p', Inr i)"
  obtains m where "found I p m" "pv_provider p' = Some m" "accept I p m code nonce verifier = Inr i"
  using assms
  by (rule_tac discover_cases [of p I]) (auto simp: Exchange_def found_def)

text \<open>The errors a login can end with that do not depend on what the provider sent.\<close>

definition fixed_errors :: "gerr list" where
  "fixed_errors =
     [Wrap [] (Sentinel ErrDiscoveryFailed) '': the provider did not return a valid discovery document'',
      Wrap [] (Sentinel ErrTokenEndpointUnreachable)
        '': the token endpoint returned a response that could not be parsed'',
      Wrap [] (Sentinel ErrTokenInvalid) '': the provider returned no id_token'',
      Wrap [] (Sentinel ErrTokenInvalid) expired_text,
      Sentinel ErrTokenInvalid,
      Wrap [] (Sentinel ErrTokenInvalid) '': id_token nonce mismatch'',
      Wrap [] (Sentinel ErrTokenInvalid) '': unreadable id_token claims'',
      Wrap [] (Sentinel ErrTokenInvalid) '': id_token carries no subject''] @
     map (\<lambda>a. Wrap [] (Sentinel ErrClientRejected) ('' (token endpoint answered '' @ a @ '')''))
       (''an unrecognised error'' # tokenEndpointErrors) @
     map (\<lambda>a. Wrap [] (Sentinel ErrCodeRejected) ('' (token endpoint answered '' @ a @ '')''))
       (''an unrecognised error'' # tokenEndpointErrors)"

text \<open>An error of the network, which carries no body of the provider.\<close>

definition transport :: "gerr \<Rightarrow> bool" where
  "transport e \<longleftrightarrow> errors_is e ctx_canceled \<or> errors_is e ctx_deadline \<or> errors_as as_dns e \<noteq> None \<or>
     errors_as as_cert e \<noteq> None \<or> errors_as as_url e \<noteq> None"

lemma discoveryErr_fixed: "\<not> transport e \<Longrightarrow> discoveryErr I e \<in> set fixed_errors"
  by (simp add: transport_def discoveryErr_def fixed_errors_def del: not_None_eq)

lemma exchangeErr_fixed: "errors_as as_retrieve e \<noteq> None \<or> \<not> transport e \<Longrightarrow> exchangeErr I e \<in> set fixed_errors"
  by (auto simp: transport_def exchangeErr_def fixed_errors_def Let_def split: option.split)

lemma identityFrom_fixed: "identityFrom I p tok = Inl e \<Longrightarrow> e \<in> set fixed_errors"
  by (auto simp: identityFrom_def fixed_errors_def Let_def split: option.splits if_splits)

lemma accept_Inl:
  assumes "accept I p m code nonce verifier = Inl e"
  shows "e \<in> set fixed_errors \<or>
    (\<exists>e'. idp_exchange I (pv_http p) (oauthConfig p m) code (Some verifier) = Inl e' \<and> e = exchangeErr I e')"
proof (cases "idp_exchange I (pv_http p) (oauthConfig p m) code (Some verifier)")
  case (Inl e')
  with assms show ?thesis by (simp add: accept_def)
next
  case (Inr extra)
  with assms show ?thesis
    by (auto simp: accept_def fixed_errors_def identityFrom_fixed [unfolded fixed_errors_def]
        split: sum.splits option.splits any.splits if_splits dest: identityFrom_fixed [unfolded fixed_errors_def])
qed

section \<open>Properties\<close>

text \<open>
  A provider is built exactly when the four required fields are not blank and neither URL is
  made of slashes alone. The second half is more than \<open>Configured\<close> asks of the configuration as
  written: an issuer "/" is configured, and \<open>New\<close> declines it.
\<close>

theorem new_iff:
  "New_provider c \<noteq> None \<longleftrightarrow>
     Configured c \<and> \<not> set (trim_space (c_Issuer c)) \<subseteq> {CHR 0x2F} \<and> \<not> set (trim_space (c_BaseURL c)) \<subseteq> {CHR 0x2F}"
proof -
  have "New_provider c \<noteq> None \<longleftrightarrow> Configured (Normalize c)"
    by (simp add: New_provider_def Let_def)
  also have "\<dots> \<longleftrightarrow> \<not> set (trim_space (c_Issuer c)) \<subseteq> {CHR 0x2F} \<and> trim_space (c_ClientID c) \<noteq> [] \<and>
      trim_space (c_ClientSecret c) \<noteq> [] \<and> \<not> set (trim_space (c_BaseURL c)) \<subseteq> {CHR 0x2F}"
    by (simp add: Configured_def Normalize_def trim_url_blank)
  finally show ?thesis by (auto simp: Configured_def)
qed

text \<open>
  The normal form: both URLs are without white space in front and without a slash at the end,
  both paths begin with a slash, so the redirect URI is the base URL and a path. Normalising again
  changes nothing unless white space stood before the stripped slashes of a URL: for the issuer
  "a /" the configuration read back is not the one a second \<open>New\<close> would use.
\<close>

theorem normal_form:
  assumes "New_provider c = Some p"
  shows "leading_space (c_Issuer (pv_cfg p)) = 0 \<and> last (c_Issuer (pv_cfg p)) \<noteq> CHR 0x2F \<and>
    last (c_BaseURL (pv_cfg p)) \<noteq> CHR 0x2F \<and>
    (\<exists>path. RedirectURI p = c_BaseURL (pv_cfg p) @ CHR 0x2F # path) \<and>
    (\<exists>path. PostLogoutURI p = c_BaseURL (pv_cfg p) @ CHR 0x2F # path) \<and>
    (Normalize (pv_cfg p) = pv_cfg p \<longleftrightarrow>
       trailing_space (c_Issuer (pv_cfg p)) = 0 \<and> trailing_space (c_BaseURL (pv_cfg p)) = 0)"
proof -
  from assms have cfg: "pv_cfg p = Normalize c" "Configured (Normalize c)"
    by (auto simp: New_provider_def Let_def split: if_splits)
  define i where "i = c_Issuer (pv_cfg p)"
  define b where "b = c_BaseURL (pv_cfg p)"
  have ib: "i = trim_slash (trim_space (c_Issuer c))" "b = trim_slash (trim_space (c_BaseURL c))"
    by (simp_all add: i_def b_def cfg Normalize_def)
  have ne: "i \<noteq> []" "b \<noteq> []"
    using cfg(2) by (auto simp: Configured_def i_def b_def cfg(1))
  have l: "leading_space i = 0" "leading_space b = 0"
    unfolding ib by (rule leading_space_prefix [OF trim_slash_prefix trim_space_no_leading])+
  have last: "last i \<noteq> CHR 0x2F" "last b \<noteq> CHR 0x2F"
    using trim_slash_last [of "trim_space (c_Issuer c)"] trim_slash_last [of "trim_space (c_BaseURL c)"] ne
    by (simp_all only: ib simp_thms)
  have paths: "\<exists>path. c_CallbackPath (pv_cfg p) = CHR 0x2F # path" "\<exists>path. c_PostLogoutPath (pv_cfg p) = CHR 0x2F # path"
    using normalizePath_first [of "c_CallbackPath c" "''api/auth/callback''"]
      normalizePath_first [of "c_PostLogoutPath c" "[]"]
    by (auto simp: cfg Normalize_def DefaultCallbackPath_def DefaultPostLogoutPath_def)
  have d: "trailing_space DefaultCallbackPath = 0" "trailing_space DefaultPostLogoutPath = 0"
    "trim_space DefaultGroupsClaim = DefaultGroupsClaim" "DefaultScopes \<noteq> []"
    by code_simp+
  have n: "normalizePath (normalizePath q DefaultCallbackPath) DefaultCallbackPath = normalizePath q DefaultCallbackPath"
    "normalizePath (normalizePath q DefaultPostLogoutPath) DefaultPostLogoutPath = normalizePath q DefaultPostLogoutPath" for q
    by (rule normalizePath_again [OF d(1)], simp add: DefaultCallbackPath_def)
       (rule normalizePath_again [OF d(2)], simp add: DefaultPostLogoutPath_def)
  have "Normalize (pv_cfg p) = (pv_cfg p)\<lparr>c_Issuer := trim_slash (trim_space i), c_BaseURL := trim_slash (trim_space b)\<rparr>"
    by (simp add: i_def b_def cfg(1) Normalize_def n d)
  then have "Normalize (pv_cfg p) = pv_cfg p \<longleftrightarrow> trim_slash (trim_space i) = i \<and> trim_slash (trim_space b) = b"
    by (metis (no_types, lifting) i_def b_def config.surjective config.update_convs(1,4) config.ext_inject)
  with l last paths show ?thesis
    by (auto simp: trim_url_again RedirectURI_def PostLogoutURI_def simp flip: i_def b_def)
qed

definition demo_config :: config where
  "demo_config = \<lparr>c_Issuer = ''a /'', c_ClientID = ''c'', c_ClientSecret = ''s'', c_BaseURL = ''http://b'',
     c_OwnerGroup = ''g'', c_Scopes = [], c_GroupsClaim = [], c_CallbackPath = [], c_PostLogoutPath = [],
     c_HTTPClient = Some (0, Bare)\<rparr>"

definition demo_provider :: provider where
  "demo_provider = \<lparr>pv_cfg = Normalize demo_config, pv_http = (0, Bare), pv_provider = None\<rparr>"

lemma demo_new: "New_provider demo_config = Some demo_provider"
  by code_simp

theorem normal_form_witness:
  "c_Issuer (Normalize demo_config) = ''a '' \<and> Normalize (Normalize demo_config) \<noteq> Normalize demo_config"
proof -
  have "pv_cfg demo_provider = Normalize demo_config" by (simp add: demo_provider_def)
  moreover have "trailing_space (c_Issuer (Normalize demo_config)) \<noteq> 0" by code_simp
  moreover have "c_Issuer (Normalize demo_config) = ''a ''" by code_simp
  ultimately show ?thesis using normal_form [OF demo_new] by simp
qed

text \<open>
  C13: an identity comes out of the code exchange only for an id token that the provider's keys
  verified for this client, that came back for this code and this PKCE verifier, and whose nonce is
  the one of this login, which is not blank. It has a subject and a name, and its ownership is
  decided by the rule of \<open>IsOwner\<close>.
\<close>

theorem exchange_bound:
  assumes "Exchange I p code nonce verifier = (p', Inr i)"
  shows "\<exists>m raw tok. found I p m \<and> pv_provider p' = Some m \<and>
    idp_exchange I (pv_http p) (oauthConfig p m) code (Some verifier) = Inr (Some (AStr raw)) \<and>
    idp_verify I (pv_http p) m (c_ClientID (pv_cfg p)) raw = Inr tok \<and>
    it_Nonce tok = nonce \<and> nonce \<noteq> [] \<and>
    id_Subject i \<noteq> [] \<and> trim_space (id_Subject i) = id_Subject i \<and> id_Name i \<noteq> [] \<and>
    id_Owner i = IsOwner I p (id_Groups i)"
proof -
  obtain m where m: "found I p m" "pv_provider p' = Some m" "accept I p m code nonce verifier = Inr i"
    using assms by (rule Exchange_Inr)
  obtain raw tok where "idp_exchange I (pv_http p) (oauthConfig p m) code (Some verifier) = Inr (Some (AStr raw))"
    "idp_verify I (pv_http p) m (c_ClientID (pv_cfg p)) raw = Inr tok" "it_Nonce tok = nonce" "nonce \<noteq> []"
    "identityFrom I p tok = Inr i"
    using m(3) by (rule accept_Inr)
  with m identityFrom_Inr [of I p tok i] show ?thesis by blast
qed

definition demo_idp :: idp where
  "demo_idp = \<lparr>idp_discover = \<lambda>_ _. Inr \<lparr>md_AuthURL = ''a'', md_TokenURL = ''t'', md_EndSession = None\<rparr>,
     idp_authurl = \<lambda>_ st _ _. ''a?state='' @ st, idp_challenge = \<lambda>v. v,
     idp_exchange = \<lambda>_ _ code _. if code = ''c'' then Inr (Some (AStr ''t'')) else Inl (RetrieveErr ''invalid_grant'' (Some 400)),
     idp_verify = \<lambda>_ _ _ _. Inr \<lparr>it_Nonce = ''n'', it_claims =
       Some [''sub'' \<mapsto> AStr '' u '', ''groups'' \<mapsto> AList [AOther, AStr ''G'', AStr ''g'']]\<rparr>,
     idp_parse = \<lambda>_. None, idp_str = \<lambda>_. [], idp_setq = \<lambda>q _. q, idp_fold = \<lambda>a b. a = b\<rparr>"

definition demo_identity :: identity where
  "demo_identity = \<lparr>id_Subject = ''u'', id_Name = ''u'', id_Email = [], id_Groups = [''G'', ''g''], id_Owner = True\<rparr>"

lemma demo_Exchange:
  "Exchange demo_idp demo_provider ''c'' ''n'' ''v'' =
     (demo_provider\<lparr>pv_provider := Some \<lparr>md_AuthURL = ''a'', md_TokenURL = ''t'', md_EndSession = None\<rparr>\<rparr>, Inr demo_identity)"
  by code_simp

theorem exchange_bound_witness:
  "found demo_idp demo_provider \<lparr>md_AuthURL = ''a'', md_TokenURL = ''t'', md_EndSession = None\<rparr> \<and>
   id_Owner demo_identity = IsOwner demo_idp demo_provider [''G'', ''g'']"
  using exchange_bound [OF demo_Exchange] by (auto simp: demo_identity_def)

text \<open>
  What the provider answers does not get into an error. A failed exchange ends in one of
  twenty-two fixed errors, the token endpoint's code being named only when it is one of the six
  registered ones, or in the treatment of an error of the network, which carries no body.
\<close>

theorem errors_closed:
  assumes "Exchange I p code nonce verifier = (p', Inl e)"
  shows "length fixed_errors = 22 \<and> (e \<in> set fixed_errors \<or>
    (\<exists>e'. transport e' \<and> (e = discoveryErr I e' \<or> errors_as as_retrieve e' = None \<and> e = exchangeErr I e')))"
proof -
  have acc: "e \<in> set fixed_errors \<or> (\<exists>e'. transport e' \<and> errors_as as_retrieve e' = None \<and> e = exchangeErr I e')"
    if "accept I p m code nonce verifier = Inl e" for m
    using accept_Inl [OF that] exchangeErr_fixed [of _ I] by metis
  have "e \<in> set fixed_errors \<or>
    (\<exists>e'. transport e' \<and> (e = discoveryErr I e' \<or> errors_as as_retrieve e' = None \<and> e = exchangeErr I e'))"
  proof (rule discover_cases [of p I])
    fix e'
    assume "discover I p = (p, Inl (discoveryErr I e'))"
    with assms show ?thesis using discoveryErr_fixed [of e' I] by (auto simp: Exchange_def)
  next
    fix m
    assume "discover I p = (p, Inr m)"
    with assms have "accept I p m code nonce verifier = Inl e" by (auto simp: Exchange_def)
    from acc [OF this] show ?thesis by blast
  next
    fix m
    assume "discover I p = (p\<lparr>pv_provider := Some m\<rparr>, Inr m)"
    with assms have "accept I p m code nonce verifier = Inl e" by (auto simp: Exchange_def)
    from acc [OF this] show ?thesis by blast
  qed
  then show ?thesis by (simp add: fixed_errors_def tokenEndpointErrors_def)
qed

theorem errors_closed_witness:
  "\<exists>e'. snd (Exchange demo_idp demo_provider ''x'' ''n'' ''v'') = Inl e' \<and>
     (e' \<in> set fixed_errors \<or> (\<exists>e. transport e \<and> (e' = discoveryErr demo_idp e \<or> e' = exchangeErr demo_idp e)))"
proof -
  have "\<exists>p'. Exchange demo_idp demo_provider ''x'' ''n'' ''v'' =
      (p', Inl (exchangeErr demo_idp (RetrieveErr ''invalid_grant'' (Some 400))))"
    by (simp add: Exchange_def discover_def demo_provider_def demo_idp_def accept_def)
  then obtain p' where "Exchange demo_idp demo_provider ''x'' ''n'' ''v'' =
      (p', Inl (exchangeErr demo_idp (RetrieveErr ''invalid_grant'' (Some 400))))" by blast
  with errors_closed [OF this] show ?thesis by auto
qed

text \<open>
  The redaction of a failed request has a gap. A transport error is redacted when its cause is
  anything but a cancellation, a timeout, a failed name lookup or an untrusted certificate, but a
  discovery that is cancelled or runs out of time keeps the URL of the request as it was, while the
  same error of the token endpoint is redacted.
\<close>

theorem discovery_redaction:
  assumes "c = Sentinel ctx_canceled \<or> c = Sentinel ctx_deadline"
  shows "discoveryErr I (UrlErr op u c) = Multi '': '' [Sentinel ErrDiscoveryFailed, UrlErr op u c] \<and>
    discoveryErr I (UrlErr op u (NetErr m)) =
      Multi '': '' [Sentinel ErrDiscoveryFailed, UrlErr op (RedactURL (idp_parse I) (idp_str I) u) (NetErr m)] \<and>
    exchangeErr I (UrlErr op u c) =
      Multi '': '' [Sentinel ErrTokenEndpointUnreachable, UrlErr op (RedactURL (idp_parse I) (idp_str I) u) c]"
  using assms by (auto simp: discoveryErr_def exchangeErr_def errors_as_def Redact_def)

theorem discovery_redaction_witness:
  "errors_as as_url (discoveryErr demo_idp (UrlErr ''Get'' ''https://user@id/'' (Sentinel ctx_deadline))) =
     Some (''Get'', ''https://user@id/'', Sentinel ctx_deadline)"
  using discovery_redaction [of "Sentinel ctx_deadline" demo_idp "''Get''" "''https://user@id/''" "[]"]
  by (simp add: errors_as_def)

end
