(* ===== verification/Gate.thy ===== *)
theory Gate
  imports Oidc Strconv
begin

text \<open>
  oidcauth/fiberauth: the browser-facing half of a login. Cookies and the guard against open
  redirects (cookies.go), the gate and its wiring (gate.go), the handshake routes (handshake.go),
  the middleware and the guards (middleware.go) and the session routes (sessions.go).

  A request is what the handlers read of it: its cookies, query values, User-Agent, route parameter
  and the identity stashed in its locals; an absent cookie or query value is the empty string, as
  Fiber has it. What a handler does is the cookies it writes, in order, and its reply. The server is
  the provider the function \<open>Options.Provider\<close> answers during the request and the session table of
  the SQLite store. The record \<open>env\<close> holds what a request meets outside: the identity provider, the
  clock, the random bytes of each read, a fresh UUID, the error of each call of the store (the
  first two are the middleware's, the handler's own follow), the rate limiter's verdict. Log lines are left out.
\<close>

section \<open>Requests, cookies, replies\<close>

record request =
  hr_cookie :: "string \<Rightarrow> string"
  hr_query :: "string \<Rightarrow> string"
  hr_agent :: string
  hr_id :: string
  hr_identity :: "identity option"

datatype same_site = Lax | Strict

record cookie =
  ck_Name :: string
  ck_Value :: string
  ck_Path :: string
  ck_HTTPOnly :: bool
  ck_Secure :: bool
  ck_SameSite :: same_site
  ck_Expires :: instant
  ck_MaxAge :: int

datatype reason =
    ReasonExpired | ReasonDenied | ReasonProvider | ReasonCode | ReasonSecret | ReasonToken
  | ReasonUnreachable | ReasonServer

fun reason_text :: "reason \<Rightarrow> string" where
  "reason_text ReasonExpired = ''expired''"
| "reason_text ReasonDenied = ''denied''"
| "reason_text ReasonProvider = ''provider''"
| "reason_text ReasonCode = ''code''"
| "reason_text ReasonSecret = ''secret''"
| "reason_text ReasonToken = ''token''"
| "reason_text ReasonUnreachable = ''unreachable''"
| "reason_text ReasonServer = ''server''"

record whoami_view =
  wv_Authenticated :: bool
  wv_SSOEnabled :: bool
  wv_LoginURL :: string
  wv_Subject :: string
  wv_Name :: string
  wv_Email :: string
  wv_Groups :: "string list"
  wv_Owner :: "bool option"

record session_view =
  vw_ID :: string
  vw_Name :: string
  vw_Email :: string
  vw_Owner :: bool
  vw_UserAgent :: string
  vw_CreatedAt :: string
  vw_LastSeenAt :: string
  vw_Current :: bool

datatype reply =
    RNext  \<comment> \<open>\<open>c.Next()\<close>\<close>
  | RRedirect int string
  | RStatus int
  | RError int string  \<comment> \<open>\<open>fiber.NewError\<close>\<close>
  | RLimited
  | RLoginFailed string  \<comment> \<open>401, JSON\<close>
  | RWhoami whoami_view
  | RSessions "session_view list"
  | REndSession string
  | RPanic  \<comment> \<open>a method call on a nil store\<close>

record server =
  sv_provider :: "provider option"
  sv_rows :: "row list"

record env =
  e_idp :: idp
  e_now :: instant  \<comment> \<open>\<open>g.now()\<close>\<close>
  e_wall :: instant  \<comment> \<open>\<open>time.Now()\<close>\<close>
  e_random :: "nat \<Rightarrow> nat \<Rightarrow> string"
  e_uuid :: string
  e_fault :: "nat \<Rightarrow> gerr option"
  e_uniq :: gerr
  e_enc :: "string list \<Rightarrow> string"
  e_dec :: "string \<Rightarrow> string list option"
  e_sha :: "string \<Rightarrow> string"
  e_limited :: "int \<Rightarrow> bool"

section \<open>The gate\<close>

definition DefaultRateLimit :: int where "DefaultRateLimit = 30"
definition handshakeTTL :: duration where "handshakeTTL = 10 * minute"

text \<open>\<open>go_Provider\<close>: the function is not nil; \<open>go_Sessions\<close>: the store is not nil; \<open>go_sweeps\<close>: it
  implements \<open>ExpiredSweeper\<close>.\<close>

record options =
  go_Provider :: bool
  go_Sessions :: bool
  go_sweeps :: bool
  go_CookiePrefix :: string
  go_Policy :: policy
  go_RateLimit :: int
  go_OnLoginFailure :: "(reason \<Rightarrow> gerr option \<Rightarrow> reply) option"
  go_LoginFailurePath :: string
  go_ReasonParam :: string

record gate =
  g_provider :: bool
  g_sessions :: bool
  g_policy :: policy
  g_apiBase :: string
  g_handshakeBase :: string
  g_rateLimit :: int
  g_sessionCookie :: string
  g_stateCookie :: string
  g_onFailure :: "reason \<Rightarrow> gerr option \<Rightarrow> reply"
  g_sweepJob :: "sweep_job option"

definition Provider :: "gate \<Rightarrow> server \<Rightarrow> provider option" where
  "Provider g sv = (if g_provider g then sv_provider sv else None)"

definition Enabled :: "gate \<Rightarrow> server \<Rightarrow> bool" where
  "Enabled g sv \<longleftrightarrow> Provider g sv \<noteq> None"

definition LoginPath :: "gate \<Rightarrow> string" where "LoginPath g = g_handshakeBase g @ ''/login''"
definition CallbackPath :: "gate \<Rightarrow> string" where "CallbackPath g = g_handshakeBase g @ ''/callback''"
definition LogoutPath :: "gate \<Rightarrow> string" where "LogoutPath g = g_handshakeBase g @ ''/logout''"
definition WhoamiPath :: "gate \<Rightarrow> string" where "WhoamiPath g = g_apiBase g @ ''/auth/whoami''"
definition SessionsPath :: "gate \<Rightarrow> string" where "SessionsPath g = g_apiBase g @ ''/auth/sessions''"

definition orDefault :: "string \<Rightarrow> string \<Rightarrow> string" where
  "orDefault v def = (if trim_space v = [] then def else trim_space v)"

text \<open>\<open>url.QueryEscape\<close>.\<close>

definition unreserved :: "char \<Rightarrow> bool" where
  "unreserved c \<longleftrightarrow>
     list_ex (\<lambda>(lo, hi). byte_of c \<in> {lo..hi}) [(0x61, 0x7A), (0x41, 0x5A), (0x30, 0x39)] \<or> c \<in> set ''-_.~''"

definition QueryEscape :: "string \<Rightarrow> string" where
  "QueryEscape s = concat (map (\<lambda>c. if unreserved c then [c] else if c = CHR '' '' then ''+''
     else let n = byte_of c in
       [CHR 0x25, ''0123456789ABCDEF'' ! (n div 16), ''0123456789ABCDEF'' ! (n mod 16)]) s)"

definition defaultFailureHandler :: "string \<Rightarrow> string \<Rightarrow> reason \<Rightarrow> gerr option \<Rightarrow> reply" where
  "defaultFailureHandler path param r cause =
     (if trim_space path = [] then RLoginFailed (reason_text r)
      else RRedirect 302 (path @ ''?'' @ param @ ''='' @ QueryEscape (reason_text r)))"

definition fail :: "gate \<Rightarrow> reason \<Rightarrow> gerr option \<Rightarrow> reply" where
  "fail g r cause = g_onFailure g r cause"

datatype step =
    MIdentity | MLimit int | MLogin | MCallback | MLogout | MWhoami | MConfigured | MOwner | MAuth
  | MList | MRevoke

datatype route = Use step | Get string "step list" | Post string "step list" | Delete string "step list"

definition limited_chain :: "gate \<Rightarrow> step \<Rightarrow> step list" where
  "limited_chain g h = (if g_rateLimit g < 0 then [h] else [MLimit (g_rateLimit g), h])"

definition register :: "gate \<Rightarrow> route list" where
  "register g =
     [Get (LoginPath g) (limited_chain g MLogin),
      Get (CallbackPath g) (limited_chain g MCallback),
      Post (LogoutPath g) (limited_chain g MLogout),
      Get (WhoamiPath g) [MWhoami],
      Get (SessionsPath g) [MConfigured, MOwner, MList],
      Delete (SessionsPath g @ ''/:id'') [MConfigured, MOwner, MRevoke]]"

definition New_gate :: "string \<Rightarrow> string \<Rightarrow> options \<Rightarrow> gate \<times> route list" where
  "New_gate apiBase authBase opts =
     (let prefix = (if trim_space (go_CookiePrefix opts) = [] then ''auth'' else trim_space (go_CookiePrefix opts));
          g = \<lparr>g_provider = go_Provider opts, g_sessions = go_Sessions opts, g_policy = go_Policy opts,
               g_apiBase = apiBase, g_handshakeBase = authBase,
               g_rateLimit = (if go_RateLimit opts = 0 then DefaultRateLimit else go_RateLimit opts),
               g_sessionCookie = prefix @ ''_session'', g_stateCookie = prefix @ ''_auth_state'',
               g_onFailure = (case go_OnLoginFailure opts of
                   Some f \<Rightarrow> f
                 | None \<Rightarrow> defaultFailureHandler (go_LoginFailurePath opts) (orDefault (go_ReasonParam opts) ''reason'')),
               g_sweepJob = SweepJob (go_Sessions opts \<and> go_sweeps opts)\<rparr>
      in (g, Use MIdentity # register g))"

section \<open>Cookies\<close>

definition hostPrefix :: string where "hostPrefix = ''__Host-''"

definition sessionCookieName :: "gate \<Rightarrow> bool \<Rightarrow> string" where
  "sessionCookieName g secure = (if secure then hostPrefix @ g_sessionCookie g else g_sessionCookie g)"

definition stateCookieName :: "gate \<Rightarrow> bool \<Rightarrow> string" where
  "stateCookieName g secure = (if secure then hostPrefix @ g_stateCookie g else g_stateCookie g)"

definition sessionCookieNames :: "gate \<Rightarrow> string list" where
  "sessionCookieNames g = [hostPrefix @ g_sessionCookie g, g_sessionCookie g]"

definition stateCookieNames :: "gate \<Rightarrow> string list" where
  "stateCookieNames g = [hostPrefix @ g_stateCookie g, g_stateCookie g]"

definition setSessionCookie :: "gate \<Rightarrow> string \<Rightarrow> instant \<Rightarrow> bool \<Rightarrow> cookie" where
  "setSessionCookie g token expires secure =
     \<lparr>ck_Name = sessionCookieName g secure, ck_Value = token, ck_Path = ''/'', ck_HTTPOnly = True,
      ck_Secure = secure, ck_SameSite = Lax, ck_Expires = expires, ck_MaxAge = 0\<rparr>"

definition setStateCookie :: "env \<Rightarrow> gate \<Rightarrow> string \<Rightarrow> bool \<Rightarrow> cookie" where
  "setStateCookie e g v secure =
     \<lparr>ck_Name = stateCookieName g secure, ck_Value = v, ck_Path = ''/'', ck_HTTPOnly = True,
      ck_Secure = secure, ck_SameSite = Lax, ck_Expires = e_now e + handshakeTTL, ck_MaxAge = 0\<rparr>"

definition clearCookie :: "env \<Rightarrow> string \<Rightarrow> cookie" where
  "clearCookie e name =
     \<lparr>ck_Name = name, ck_Value = [], ck_Path = ''/'', ck_HTTPOnly = True,
      ck_Secure = has_prefix name hostPrefix, ck_SameSite = Lax, ck_Expires = e_wall e - hour, ck_MaxAge = - 1\<rparr>"

definition maxReturnPath :: nat where "maxReturnPath = 512"

text \<open>The runes below 0x20 and 0x7f are single bytes, and such a byte is a rune of its own even in a
  string that is not UTF-8.\<close>

definition SafeReturnPath :: "(string \<Rightarrow> url option) \<Rightarrow> string \<Rightarrow> string" where
  "SafeReturnPath parse raw =
     (if raw = [] \<or> length raw > maxReturnPath then ''/''
      else if \<not> has_prefix raw ''/'' \<or> has_prefix raw ''//'' then ''/''
      else if CHR 0x5C \<in> set raw then ''/''
      else if \<exists>c\<in>set raw. byte_of c < 0x20 \<or> byte_of c = 0x7f then ''/''
      else case parse raw of
             None \<Rightarrow> ''/''
           | Some u \<Rightarrow> if u_Scheme u \<noteq> [] \<or> u_Host u \<noteq> [] then ''/'' else raw)"

section \<open>The handshake\<close>

definition reasonFor :: "gerr \<Rightarrow> reason" where
  "reasonFor err =
     (if errors_is err ErrClientRejected then ReasonSecret
      else if errors_is err ErrCodeRejected then ReasonCode
      else if errors_is err ErrTokenInvalid then ReasonToken
      else if errors_is err ErrTokenEndpointUnreachable then ReasonUnreachable
      else ReasonUnreachable)"

text \<open>\<open>strings.Fields\<close>: \<open>cur\<close> is the field being read, reversed.\<close>

function fields_from :: "string \<Rightarrow> string \<Rightarrow> string list" where
  "fields_from cur s =
     (if s = [] then (if cur = [] then [] else [rev cur])
      else if leading_space s \<noteq> 0
      then (if cur = [] then fields_from [] (drop (leading_space s) s)
            else rev cur # fields_from [] (drop (leading_space s) s))
      else fields_from (hd s # cur) (tl s))"
  by pat_completeness auto
termination
  by (relation "measure (length \<circ> snd)") (use leading_space_le in \<open>auto simp: neq_Nil_conv\<close>)

declare fields_from.simps [simp del]

definition boundedDescription :: "string \<Rightarrow> string" where
  "boundedDescription s = take 200 (join_with '' '' (fields_from [] s))"

definition parseStateCookie :: "(string \<Rightarrow> url option) \<Rightarrow> string \<Rightarrow> (handshake \<times> string) option" where
  "parseStateCookie parse raw =
     (case split_on CHR ''|'' raw of
        [a, b, c, d] \<Rightarrow>
          let hs = \<lparr>h_State = a, h_Nonce = b, h_Verifier = c\<rparr> in
          if \<not> handshake_Valid hs then None
          else Some (hs, SafeReturnPath parse (case b64url_decode d of None \<Rightarrow> [] | Some p \<Rightarrow> p))
      | _ \<Rightarrow> None)"

definition state_value :: "(string \<Rightarrow> url option) \<Rightarrow> handshake \<Rightarrow> string \<Rightarrow> string" where
  "state_value parse hs next =
     join_char CHR ''|'' [h_State hs, h_Nonce hs, h_Verifier hs, b64url (SafeReturnPath parse next)]"

definition loginHandler :: "env \<Rightarrow> gate \<Rightarrow> request \<Rightarrow> server \<Rightarrow> server \<times> cookie list \<times> reply" where
  "loginHandler e g rq sv =
     (case Provider g sv of
        None \<Rightarrow> (sv, [], RError 404 ''login is not configured'')
      | Some p \<Rightarrow>
          let hs = NewHandshake (e_random e) in
          (case AuthorizeURL (e_idp e) p (h_State hs) (h_Nonce hs) (h_Verifier hs) of
             (p', Inl err) \<Rightarrow> (sv\<lparr>sv_provider := Some p'\<rparr>, [], fail g ReasonUnreachable (Some err))
           | (p', Inr u) \<Rightarrow>
               (sv\<lparr>sv_provider := Some p'\<rparr>,
                [setStateCookie e g (state_value (idp_parse (e_idp e)) hs (hr_query rq ''next''))
                   (CookieSecure (e_idp e) p)],
                RRedirect 302 u)))"

definition new_session :: "env \<Rightarrow> gate \<Rightarrow> request \<Rightarrow> identity \<Rightarrow> session" where
  "new_session e g rq i =
     \<lparr>s_ID = e_uuid e, s_Subject = id_Subject i, s_Name = id_Name i, s_Email = id_Email i,
      s_Groups = id_Groups i, s_Owner = id_Owner i, s_UserAgent = boundedDescription (hr_agent rq),
      s_CreatedAt = e_now e, s_LastSeenAt = e_now e, s_ExpiresAt = ExpiryFor (g_policy g) (e_now e) (e_now e)\<rparr>"

definition issueSession ::
    "env \<Rightarrow> gate \<Rightarrow> request \<Rightarrow> identity \<Rightarrow> bool \<Rightarrow> row list \<Rightarrow> row list \<times> cookie list \<times> gerr option" where
  "issueSession e g rq i secure rows =
     (if \<not> g_sessions g then (rows, [], Some (Text ''no session store configured (Options.Sessions)''))
      else
        let token = RandomToken (e_random e 0) 32;
            sess = new_session e g rq i
        in case CreateSession (e_enc e) (e_uniq e) (e_fault e 2) sess (HashToken (e_sha e) token) rows of
             (rows', Some err) \<Rightarrow> (rows', [], Some err)
           | (rows', None) \<Rightarrow> (rows', [setSessionCookie g token (s_ExpiresAt sess) secure], None))"

text \<open>The body of the callback, without the deferred clearing of the handshake cookie.\<close>

definition callback_body ::
    "env \<Rightarrow> gate \<Rightarrow> provider \<Rightarrow> request \<Rightarrow> server \<Rightarrow> server \<times> cookie list \<times> reply" where
  "callback_body e g p rq sv =
     (let secure = CookieSecure (e_idp e) p in
      case parseStateCookie (idp_parse (e_idp e)) (hr_cookie rq (stateCookieName g secure)) of
        None \<Rightarrow> (sv, [], fail g ReasonExpired (Some (Text ''handshake cookie missing or malformed'')))
      | Some (hs, next) \<Rightarrow>
          if hr_query rq ''state'' \<noteq> h_State hs
          then (sv, [], fail g ReasonExpired (Some (Text ''state did not match the handshake cookie'')))
          else if hr_query rq ''error'' \<noteq> []
          then (sv, [], fail g (if hr_query rq ''error'' = ''access_denied'' then ReasonDenied
                                else ReasonProvider) None)
          else if hr_query rq ''code'' = []
          then (sv, [], fail g ReasonProvider
                  (Some (Text ''the provider returned neither a code nor an error'')))
          else
            (case Exchange (e_idp e) p (hr_query rq ''code'') (h_Nonce hs) (h_Verifier hs) of
               (p', Inl err) \<Rightarrow> (sv\<lparr>sv_provider := Some p'\<rparr>, [], fail g (reasonFor err) (Some err))
             | (p', Inr i) \<Rightarrow>
                 (case issueSession e g rq i secure (sv_rows sv) of
                    (rows', cks, Some err) \<Rightarrow>
                      (\<lparr>sv_provider = Some p', sv_rows = rows'\<rparr>, cks, fail g ReasonServer (Some err))
                  | (rows', cks, None) \<Rightarrow>
                      (\<lparr>sv_provider = Some p', sv_rows = rows'\<rparr>, cks, RRedirect 302 next))))"

definition callbackHandler :: "env \<Rightarrow> gate \<Rightarrow> request \<Rightarrow> server \<Rightarrow> server \<times> cookie list \<times> reply" where
  "callbackHandler e g rq sv =
     (case Provider g sv of
        None \<Rightarrow> (sv, [], RError 404 ''login is not configured'')
      | Some p \<Rightarrow>
          (case callback_body e g p rq sv of
             (sv', cks, r) \<Rightarrow> (sv', cks @ map (clearCookie e) (stateCookieNames g), r)))"

text \<open>\<open>k\<close> counts the calls of the store.\<close>

fun logout_delete :: "env \<Rightarrow> gate \<Rightarrow> request \<Rightarrow> nat \<Rightarrow> string list \<Rightarrow> row list \<Rightarrow> row list" where
  "logout_delete e g rq k [] rows = rows"
| "logout_delete e g rq k (name # names) rows =
     (if hr_cookie rq name = [] \<or> \<not> g_sessions g then logout_delete e g rq k names rows
      else logout_delete e g rq (Suc k) names
             (fst (DeleteSessionByToken (e_fault e k) (HashToken (e_sha e) (hr_cookie rq name)) rows)))"

definition logoutHandler :: "env \<Rightarrow> gate \<Rightarrow> request \<Rightarrow> server \<Rightarrow> server \<times> cookie list \<times> reply" where
  "logoutHandler e g rq sv0 =
     (let sv = sv0\<lparr>sv_rows := logout_delete e g rq 2 (sessionCookieNames g) (sv_rows sv0)\<rparr>;
          cks = map (clearCookie e) (sessionCookieNames g)
      in case Provider g sv of
           None \<Rightarrow> (sv, cks, RStatus 204)
         | Some p \<Rightarrow>
             (case EndSessionURL (e_idp e) p of
                (p', Inl err) \<Rightarrow> (sv\<lparr>sv_provider := Some p'\<rparr>, cks, RStatus 204)
              | (p', Inr u) \<Rightarrow>
                  (sv\<lparr>sv_provider := Some p'\<rparr>, cks, if u = [] then RStatus 204 else REndSession u)))"

section \<open>Middleware and guards\<close>

definition resolveSession ::
    "env \<Rightarrow> gate \<Rightarrow> provider \<Rightarrow> request \<Rightarrow> row list \<Rightarrow> row list \<times> identity option" where
  "resolveSession e g p rq rows =
     (let token = hr_cookie rq (sessionCookieName g (CookieSecure (e_idp e) p)) in
      if token = [] \<or> \<not> g_sessions g then (rows, None)
      else case SessionByToken (e_dec e) (e_fault e 0) (HashToken (e_sha e) token) rows of
             Inl err \<Rightarrow> (rows, None)
           | Inr None \<Rightarrow> (rows, None)
           | Inr (Some s) \<Rightarrow>
               if \<not> Live (g_policy g) s (e_now e) then (rows, None)
               else
                 (if NeedsTouch (g_policy g) s (e_now e)
                  then fst (TouchSession (e_fault e 1) (s_ID s) (e_now e)
                         (ExpiryFor (g_policy g) (s_CreatedAt s) (e_now e)) rows)
                  else rows,
                  Some ((session_Identity s)\<lparr>id_Owner := IsOwner (e_idp e) p (s_Groups s)\<rparr>)))"

definition WithIdentity :: "identity option \<Rightarrow> request \<Rightarrow> request" where
  "WithIdentity i rq = (case i of None \<Rightarrow> rq | Some x \<Rightarrow> rq\<lparr>hr_identity := Some x\<rparr>)"

definition IdentityFrom :: "request \<Rightarrow> identity option" where
  "IdentityFrom rq = hr_identity rq"

definition ResolveIdentity :: "env \<Rightarrow> gate \<Rightarrow> request \<Rightarrow> server \<Rightarrow> server \<times> request" where
  "ResolveIdentity e g rq sv =
     (case Provider g sv of
        None \<Rightarrow> (sv, rq)
      | Some p \<Rightarrow>
          (case resolveSession e g p rq (sv_rows sv) of
             (rows', i) \<Rightarrow> (sv\<lparr>sv_rows := rows'\<rparr>, WithIdentity i rq)))"

definition RequireOwner :: "gate \<Rightarrow> request \<Rightarrow> server \<Rightarrow> reply" where
  "RequireOwner g rq sv =
     (if \<not> Enabled g sv then RNext
      else case IdentityFrom rq of
             None \<Rightarrow> RError 401 ''authentication required''
           | Some i \<Rightarrow> if \<not> id_Owner i then RError 403 ''owner access required'' else RNext)"

definition RequireAuth :: "gate \<Rightarrow> request \<Rightarrow> server \<Rightarrow> reply" where
  "RequireAuth g rq sv =
     (if \<not> Enabled g sv then RNext
      else if IdentityFrom rq = None then RError 401 ''authentication required'' else RNext)"

definition requireConfigured :: "gate \<Rightarrow> server \<Rightarrow> reply" where
  "requireConfigured g sv = (if \<not> Enabled g sv then RError 404 ''login is not configured'' else RNext)"

section \<open>The session routes\<close>

definition Whoami :: "gate \<Rightarrow> request \<Rightarrow> server \<Rightarrow> reply" where
  "Whoami g rq sv =
     (case IdentityFrom rq of
        None \<Rightarrow> RWhoami \<lparr>wv_Authenticated = False, wv_SSOEnabled = Enabled g sv, wv_LoginURL = LoginPath g,
                        wv_Subject = [], wv_Name = [], wv_Email = [], wv_Groups = [], wv_Owner = None\<rparr>
      | Some i \<Rightarrow> RWhoami \<lparr>wv_Authenticated = True, wv_SSOEnabled = Enabled g sv, wv_LoginURL = LoginPath g,
                        wv_Subject = id_Subject i, wv_Name = id_Name i, wv_Email = id_Email i,
                        wv_Groups = id_Groups i, wv_Owner = Some (id_Owner i)\<rparr>)"

definition current_id :: "env \<Rightarrow> gate \<Rightarrow> request \<Rightarrow> server \<Rightarrow> string" where
  "current_id e g rq sv =
     (case Provider g sv of
        None \<Rightarrow> []
      | Some p \<Rightarrow>
          let token = hr_cookie rq (sessionCookieName g (CookieSecure (e_idp e) p)) in
          if token = [] then []
          else case SessionByToken (e_dec e) (e_fault e 3) (HashToken (e_sha e) token) (sv_rows sv) of
                 Inr (Some s) \<Rightarrow> s_ID s
               | _ \<Rightarrow> [])"

definition session_row_view :: "env \<Rightarrow> gate \<Rightarrow> server \<Rightarrow> string \<Rightarrow> session \<Rightarrow> session_view" where
  "session_row_view e g sv current s =
     \<lparr>vw_ID = s_ID s, vw_Name = s_Name s, vw_Email = s_Email s,
      vw_Owner = (case Provider g sv of None \<Rightarrow> False | Some p \<Rightarrow> IsOwner (e_idp e) p (s_Groups s)),
      vw_UserAgent = s_UserAgent s, vw_CreatedAt = stamp (s_CreatedAt s),
      vw_LastSeenAt = stamp (s_LastSeenAt s), vw_Current = (s_ID s = current)\<rparr>"

definition listSessions :: "env \<Rightarrow> gate \<Rightarrow> request \<Rightarrow> server \<Rightarrow> reply" where
  "listSessions e g rq sv =
     (if \<not> g_sessions g then RPanic
      else case Session.ListSessions (e_dec e) (e_fault e 2) (sv_rows sv) of
             Inl err \<Rightarrow> RError 500 ''could not list sessions''
           | Inr ss \<Rightarrow> RSessions (map (session_row_view e g sv (current_id e g rq sv)) ss))"

definition revokeSession :: "env \<Rightarrow> gate \<Rightarrow> request \<Rightarrow> server \<Rightarrow> server \<times> reply" where
  "revokeSession e g rq sv =
     (if \<not> g_sessions g then (sv, RPanic)
      else case DeleteSession (e_fault e 2) (hr_id rq) (sv_rows sv) of
             (rows', Some err) \<Rightarrow> (sv\<lparr>sv_rows := rows'\<rparr>, RError 500 ''could not revoke the session'')
           | (rows', None) \<Rightarrow> (sv\<lparr>sv_rows := rows'\<rparr>, RStatus 204))"

section \<open>Serving a route\<close>

fun run_step :: "env \<Rightarrow> gate \<Rightarrow> step \<Rightarrow> request \<Rightarrow> server \<Rightarrow> server \<times> request \<times> cookie list \<times> reply" where
  "run_step e g MIdentity rq sv = (case ResolveIdentity e g rq sv of (sv', rq') \<Rightarrow> (sv', rq', [], RNext))"
| "run_step e g (MLimit n) rq sv = (sv, rq, [], if e_limited e n then RLimited else RNext)"
| "run_step e g MLogin rq sv = (case loginHandler e g rq sv of (sv', cks, r) \<Rightarrow> (sv', rq, cks, r))"
| "run_step e g MCallback rq sv = (case callbackHandler e g rq sv of (sv', cks, r) \<Rightarrow> (sv', rq, cks, r))"
| "run_step e g MLogout rq sv = (case logoutHandler e g rq sv of (sv', cks, r) \<Rightarrow> (sv', rq, cks, r))"
| "run_step e g MWhoami rq sv = (sv, rq, [], Whoami g rq sv)"
| "run_step e g MConfigured rq sv = (sv, rq, [], requireConfigured g sv)"
| "run_step e g MOwner rq sv = (sv, rq, [], RequireOwner g rq sv)"
| "run_step e g MAuth rq sv = (sv, rq, [], RequireAuth g rq sv)"
| "run_step e g MList rq sv = (sv, rq, [], listSessions e g rq sv)"
| "run_step e g MRevoke rq sv = (case revokeSession e g rq sv of (sv', r) \<Rightarrow> (sv', rq, [], r))"

text \<open>A chain stops at the first reply; \<open>RNext\<close> at its end is the application's own handler.\<close>

fun run_chain :: "env \<Rightarrow> gate \<Rightarrow> step list \<Rightarrow> request \<Rightarrow> server \<Rightarrow> server \<times> cookie list \<times> reply" where
  "run_chain e g [] rq sv = (sv, [], RNext)"
| "run_chain e g (m # ms) rq sv =
     (case run_step e g m rq sv of
        (sv', rq', cks, r) \<Rightarrow>
          if r = RNext then (case run_chain e g ms rq' sv' of (sv'', cks', r') \<Rightarrow> (sv'', cks @ cks', r'))
          else (sv', cks, r))"

text \<open>The chain of a registered route: Fiber runs the middleware registered ahead of it, then its own
  handlers.\<close>

fun route_steps :: "route \<Rightarrow> step list" where
  "route_steps (Use m) = [m]"
| "route_steps (Get path ms) = ms"
| "route_steps (Post path ms) = ms"
| "route_steps (Delete path ms) = ms"

fun middleware :: "route \<Rightarrow> step list" where
  "middleware (Use m) = [m]"
| "middleware _ = []"

definition chain_at :: "route list \<Rightarrow> nat \<Rightarrow> step list" where
  "chain_at rs n = concat (map middleware (take n rs)) @ route_steps (rs ! n)"

section \<open>Lemmas\<close>

lemma SafeReturnPath_cases:
  obtains (root) "SafeReturnPath parse raw = ''/''"
  | (kept) c s u where "SafeReturnPath parse raw = raw" "raw = CHR 0x2F # c # s" "c \<noteq> CHR 0x2F"
      "CHR 0x5C \<notin> set raw" "length raw \<le> maxReturnPath"
      "\<forall>c\<in>set raw. 0x20 \<le> byte_of c \<and> byte_of c \<noteq> 0x7f"
      "parse raw = Some u" "u_Scheme u = []" "u_Host u = []"
proof (cases "SafeReturnPath parse raw = ''/''")
  case False
  then have ne: "raw \<noteq> []" "length raw \<le> maxReturnPath" "has_prefix raw ''/''" "\<not> has_prefix raw ''//''"
    "CHR 0x5C \<notin> set raw" "\<not> (\<exists>c\<in>set raw. byte_of c < 0x20 \<or> byte_of c = 0x7f)"
    by (auto simp: SafeReturnPath_def split: if_splits)
  with False obtain u where u: "parse raw = Some u" "u_Scheme u = []" "u_Host u = []"
    "SafeReturnPath parse raw = raw"
    by (auto simp: SafeReturnPath_def split: option.splits if_splits)
  from ne(3) obtain t where t: "raw = CHR 0x2F # t" by (auto simp: has_prefix_iff)
  with False u(4) obtain c s where cs: "t = c # s" by (cases t) auto
  with ne(4) t have "c \<noteq> CHR 0x2F" by auto
  moreover have "\<forall>c\<in>set raw. 0x20 \<le> byte_of c \<and> byte_of c \<noteq> 0x7f" using ne(6) by (meson not_le)
  ultimately show ?thesis using kept u t cs ne by blast
qed (rule root)

lemma SafeReturnPath_root [simp]: "SafeReturnPath parse ''/'' = ''/''"
  by (simp add: SafeReturnPath_def split: option.split)

lemma SafeReturnPath_idem [simp]: "SafeReturnPath parse (SafeReturnPath parse raw) = SafeReturnPath parse raw"
  by (rule SafeReturnPath_cases [of parse raw]) simp_all

lemma RandomToken_free: "CHR ''|'' \<notin> set (RandomToken random n)"
  using b64url_free(3) by (simp add: RandomToken_def)

lemma RandomToken_nonempty: "length (random n) = n \<Longrightarrow> 0 < n \<Longrightarrow> RandomToken random n \<noteq> []"
  using b64url_length [of "random n"] by (auto simp: RandomToken_def)

lemma parse_state_value:
  assumes "handshake_Valid hs" "CHR ''|'' \<notin> set (h_State hs) \<union> set (h_Nonce hs) \<union> set (h_Verifier hs)"
  shows "parseStateCookie parse (state_value parse hs next) = Some (hs, SafeReturnPath parse next)"
proof -
  have "split_on CHR ''|'' (state_value parse hs next) =
      [h_State hs, h_Nonce hs, h_Verifier hs, b64url (SafeReturnPath parse next)]"
    unfolding state_value_def by (rule split_join) (use assms(2) b64url_free(3) in auto)
  with assms(1) show ?thesis
    by (simp add: parseStateCookie_def b64url_decode_encode Let_def handshake_Valid_def)
qed

lemma NewHandshake_valid:
  assumes "\<forall>k. length (random k 32) = 32"
  shows "handshake_Valid (NewHandshake random)"
    "CHR ''|'' \<notin> set (h_State (NewHandshake random)) \<union> set (h_Nonce (NewHandshake random)) \<union>
       set (h_Verifier (NewHandshake random))"
  using assms by (simp_all add: handshake_Valid_def NewHandshake_def RandomToken_free RandomToken_nonempty)

lemma parseStateCookie_Some:
  assumes "parseStateCookie parse raw = Some (hs, next)"
  shows "handshake_Valid hs" "SafeReturnPath parse next = next"
  using assms by (auto simp: parseStateCookie_def Let_def split: list.splits if_splits)

lemma CreateSession_ok:
  assumes "CreateSession enc uniq f s h rows = (rows', None)"
  shows "f = None" "\<forall>r\<in>set rows. r_id r \<noteq> s_ID s \<and> r_token_hash r \<noteq> h" "rows' = rows @ [row_of enc s h]"
  using assms by (auto simp: CreateSession_def split: option.splits if_splits)

lemma CreateSession_err: "CreateSession enc uniq f s h rows = (rows', Some err) \<Longrightarrow> rows' = rows"
  by (auto simp: CreateSession_def split: option.splits if_splits)

lemma new_session_sel [simp]:
  "s_ID (new_session e g rq i) = e_uuid e" "s_CreatedAt (new_session e g rq i) = e_now e"
  "s_LastSeenAt (new_session e g rq i) = e_now e" "s_Groups (new_session e g rq i) = id_Groups i"
  "s_ExpiresAt (new_session e g rq i) = ExpiryFor (g_policy g) (e_now e) (e_now e)"
  "session_Identity (new_session e g rq i) = i"
  by (simp_all add: new_session_def session_Identity_def)

lemma issueSession_cases:
  obtains (failed) err where "issueSession e g rq i secure rows = (rows, [], Some err)"
  | (issued) "g_sessions g" "e_fault e 2 = None"
      "\<forall>r\<in>set rows. r_id r \<noteq> e_uuid e \<and> r_token_hash r \<noteq> HashToken (e_sha e) (RandomToken (e_random e 0) 32)"
      "issueSession e g rq i secure rows =
         (rows @ [row_of (e_enc e) (new_session e g rq i) (HashToken (e_sha e) (RandomToken (e_random e 0) 32))],
          [setSessionCookie g (RandomToken (e_random e 0) 32) (ExpiryFor (g_policy g) (e_now e) (e_now e)) secure], None)"
proof (cases "g_sessions g")
  case True
  let ?h = "HashToken (e_sha e) (RandomToken (e_random e 0) 32)"
  obtain rows' er where c: "CreateSession (e_enc e) (e_uniq e) (e_fault e 2) (new_session e g rq i) ?h rows = (rows', er)"
    by (cases "CreateSession (e_enc e) (e_uniq e) (e_fault e 2) (new_session e g rq i) ?h rows")
  show ?thesis
  proof (cases er)
    case None
    with CreateSession_ok [of "e_enc e" "e_uniq e" "e_fault e 2" "new_session e g rq i" ?h rows rows'] c True
    show ?thesis by (intro issued) (simp_all add: issueSession_def Let_def)
  next
    case (Some err)
    with CreateSession_err c True show ?thesis by (intro failed [of err]) (auto simp: issueSession_def Let_def)
  qed
qed (auto intro: failed simp: issueSession_def)

lemma resolveSession_Some:
  assumes "snd (resolveSession e g p rq rows) = Some i"
  obtains s where "hr_cookie rq (sessionCookieName g (CookieSecure (e_idp e) p)) \<noteq> []" "g_sessions g"
    "e_fault e 0 = None"
    "lookup_row (e_dec e) (HashToken (e_sha e) (hr_cookie rq (sessionCookieName g (CookieSecure (e_idp e) p)))) rows = Some s"
    "Live (g_policy g) s (e_now e)" "i = (session_Identity s)\<lparr>id_Owner := IsOwner (e_idp e) p (s_Groups s)\<rparr>"
  using assms
  by (auto simp: resolveSession_def Let_def SessionByToken_def lookup_row_def split: if_splits option.splits sum.splits)

lemma resolveSession_found:
  assumes "hr_cookie rq (sessionCookieName g (CookieSecure (e_idp e) p)) = token" "token \<noteq> []" "g_sessions g"
    "e_fault e 0 = None" "lookup_row (e_dec e) (HashToken (e_sha e) token) rows = Some s"
    "Live (g_policy g) s (e_now e)"
  shows "snd (resolveSession e g p rq rows) = Some ((session_Identity s)\<lparr>id_Owner := IsOwner (e_idp e) p (s_Groups s)\<rparr>)"
  using assms by (simp add: resolveSession_def SessionByToken_lookup)

lemma resolveSession_absent:
  assumes "lookup_row (e_dec e) (HashToken (e_sha e) (hr_cookie rq (sessionCookieName g (CookieSecure (e_idp e) p)))) rows = None"
  shows "snd (resolveSession e g p rq rows) = None"
  using assms resolveSession_Some [of e g p rq rows] by (metis not_Some_eq)

lemma resolveSession_keys:
  "map r_id (fst (resolveSession e g p rq rows)) = map r_id rows"
  "map r_token_hash (fst (resolveSession e g p rq rows)) = map r_token_hash rows"
  by (auto simp: resolveSession_def Let_def TouchSession_rows comp_def split: sum.split option.split)

lemma keys_of_hashes: "lookup_row dec h rows = None \<longleftrightarrow> h \<notin> set (map r_token_hash rows)"
  by (auto simp: lookup_row_def find_None_iff)

lemma callback_body_cases:
  assumes "callback_body e g p rq sv = (sv', new, r)"
  obtains (failed) reason cause where "new = []" "sv_rows sv' = sv_rows sv" "r = g_onFailure g reason cause"
  | (signed_in) hs dest i where
      "parseStateCookie (idp_parse (e_idp e)) (hr_cookie rq (stateCookieName g (CookieSecure (e_idp e) p))) = Some (hs, dest)"
      "hr_query rq ''state'' = h_State hs" "h_State hs \<noteq> []" "hr_query rq ''error'' = []" "hr_query rq ''code'' \<noteq> []"
      "snd (Exchange (e_idp e) p (hr_query rq ''code'') (h_Nonce hs) (h_Verifier hs)) = Inr i" "g_sessions g"
      "sv_rows sv' = sv_rows sv @
         [row_of (e_enc e) (new_session e g rq i) (HashToken (e_sha e) (RandomToken (e_random e 0) 32))]"
      "new = [setSessionCookie g (RandomToken (e_random e 0) 32)
         (ExpiryFor (g_policy g) (e_now e) (e_now e)) (CookieSecure (e_idp e) p)]"
      "r = RRedirect 302 dest"
proof -
  let ?secure = "CookieSecure (e_idp e) p"
  let ?parsed = "parseStateCookie (idp_parse (e_idp e)) (hr_cookie rq (stateCookieName g ?secure))"
  show ?thesis
  proof (cases ?parsed)
    case None
    with assms show ?thesis by (intro failed) (auto simp: callback_body_def fail_def)
  next
    case (Some hn)
    obtain hs dest where hn: "hn = (hs, dest)" by (cases hn)
    let ?x = "Exchange (e_idp e) p (hr_query rq ''code'') (h_Nonce hs) (h_Verifier hs)"
    show ?thesis
    proof (cases "hr_query rq ''state'' \<noteq> h_State hs \<or> hr_query rq ''error'' \<noteq> [] \<or> hr_query rq ''code'' = []")
      case True
      with assms Some hn show ?thesis by (auto simp: callback_body_def fail_def intro: failed split: if_splits)
    next
      case False
      obtain p' o' where x: "?x = (p', o')" by (cases ?x)
      show ?thesis
      proof (cases o')
        case (Inl err)
        with assms Some hn False x show ?thesis by (auto simp: callback_body_def fail_def intro: failed)
      next
        case (Inr i)
        have v: "h_State hs \<noteq> []" using parseStateCookie_Some(1) [of "idp_parse (e_idp e)" _ hs dest] Some hn
          by (auto simp: handshake_Valid_def)
        show ?thesis
        proof (rule issueSession_cases [of e g rq i ?secure "sv_rows sv"])
          fix err assume "issueSession e g rq i ?secure (sv_rows sv) = (sv_rows sv, [], Some err)"
          with assms Some hn False x Inr show ?thesis by (auto simp: callback_body_def fail_def intro: failed)
        next
          assume iss: "g_sessions g" "issueSession e g rq i ?secure (sv_rows sv) =
            (sv_rows sv @ [row_of (e_enc e) (new_session e g rq i) (HashToken (e_sha e) (RandomToken (e_random e 0) 32))],
             [setSessionCookie g (RandomToken (e_random e 0) 32) (ExpiryFor (g_policy g) (e_now e) (e_now e)) ?secure], None)"
          with assms Some hn False x Inr have res:
            "sv' = \<lparr>sv_provider = Some p', sv_rows = sv_rows sv @ [row_of (e_enc e) (new_session e g rq i)
               (HashToken (e_sha e) (RandomToken (e_random e 0) 32))]\<rparr>"
            "new = [setSessionCookie g (RandomToken (e_random e 0) 32) (ExpiryFor (g_policy g) (e_now e) (e_now e)) ?secure]"
            "r = RRedirect 302 dest"
            by (simp_all add: callback_body_def)
          show ?thesis
            by (rule signed_in [of hs dest i]) (use Some hn False x Inr v iss(1) res in simp_all)
        qed
      qed
    qed
  qed
qed

lemma whole_seconds_gt: "t - second < whole_seconds t"
proof -
  have "t = t div second * second + t mod second" by (rule div_mult_mod_eq [symmetric])
  moreover have "t mod second < second" by (simp add: second_def)
  ultimately show ?thesis by (simp only: whole_seconds_def unix_secs_def)
qed

lemma stored_sel [simp]:
  "s_ID (stored s) = s_ID s" "s_Groups (stored s) = s_Groups s" "session_Identity (stored s) = session_Identity s"
  "s_CreatedAt (stored s) = whole_seconds (s_CreatedAt s)" "s_ExpiresAt (stored s) = whole_seconds (s_ExpiresAt s)"
  by (simp_all add: stored_def session_Identity_def)

lemma new_session_live:
  assumes "policy_ok (g_policy g)" "now + second \<le> ExpiryFor (g_policy g) (e_now e) (e_now e)"
  shows "Live (g_policy g) (stored (new_session e g rq i)) now"
proof -
  let ?x = "ExpiryFor (g_policy g) (e_now e) (e_now e)"
  have "now < whole_seconds ?x" using whole_seconds_gt [of ?x] assms(2) by linarith
  moreover have "now < whole_seconds (e_now e) + p_MaxLifetime (withDefaults (g_policy g))"
    if "whole_seconds (e_now e) \<noteq> 0"
  proof -
    have "e_now e \<noteq> 0" using that by (auto simp: whole_seconds_def unix_secs_def)
    then have "?x \<le> e_now e + p_MaxLifetime (withDefaults (g_policy g))" by (simp add: ExpiryFor_eq)
    with whole_seconds_gt [of "e_now e"] assms(2) show ?thesis by linarith
  qed
  ultimately show ?thesis by (simp add: Live_iff [OF assms(1)])
qed

lemma logout_delete_hashes:
  "set (map r_token_hash (logout_delete e g rq k names rows)) \<subseteq> set (map r_token_hash rows)"
proof (induction names arbitrary: k rows)
  case (Cons name names)
  show ?case
    using Cons.IH [of k rows]
      Cons.IH [of "Suc k" "fst (DeleteSessionByToken (e_fault e k) (HashToken (e_sha e) (hr_cookie rq name)) rows)"]
    by (auto simp: DeleteSessionByToken_rows split: if_splits)
qed simp

text \<open>The call of the store that deletes the session of a cookie: one for every cookie sent before it.\<close>

definition calls_before :: "request \<Rightarrow> string list \<Rightarrow> string \<Rightarrow> nat" where
  "calls_before rq names name = length (filter (\<lambda>n. hr_cookie rq n \<noteq> []) (takeWhile (\<lambda>n. n \<noteq> name) names))"

lemma logout_delete_absent:
  assumes "g_sessions g" "name \<in> set names" "hr_cookie rq name \<noteq> []" "e_fault e (k + calls_before rq names name) = None"
  shows "HashToken (e_sha e) (hr_cookie rq name) \<notin> set (map r_token_hash (logout_delete e g rq k names rows))"
  using assms(2,4)
proof (induction names arbitrary: k rows)
  case (Cons n names)
  show ?case
  proof (cases "n = name")
    case True
    let ?h = "HashToken (e_sha e) (hr_cookie rq name)"
    let ?rows = "filter (\<lambda>r. r_token_hash r \<noteq> ?h) rows"
    have "logout_delete e g rq k (n # names) rows = logout_delete e g rq (Suc k) names ?rows"
      using True assms(1,3) Cons.prems(2) by (simp add: DeleteSessionByToken_rows calls_before_def)
    moreover have "?h \<notin> set (map r_token_hash ?rows)" by auto
    ultimately show ?thesis using logout_delete_hashes [of e g rq "Suc k" names ?rows] by auto
  next
    case False
    with Cons.prems have "name \<in> set names" by simp
    with Cons.IH Cons.prems(2) False assms(1) show ?thesis
      by (cases "hr_cookie rq n = []") (simp_all add: calls_before_def)
  qed
qed simp

section \<open>Properties\<close>

text \<open>
  C18: no open redirect: whatever is asked for, the destination after a login is "/" or the path
  asked for itself, of at most 512 bytes, beginning with one slash that no slash follows, free of
  backslashes and control characters, and for which the URL parser sees neither scheme nor host;
  the check of a checked path changes nothing.
\<close>

theorem safe_return_path:
  "(SafeReturnPath parse raw = ''/'' \<or>
    SafeReturnPath parse raw = raw \<and> length raw \<le> 512 \<and>
    (\<exists>c s u. raw = CHR ''/'' # c # s \<and> c \<noteq> CHR ''/'' \<and> parse raw = Some u \<and> u_Scheme u = [] \<and> u_Host u = []) \<and>
    list_all (\<lambda>c. c \<noteq> CHR 0x5C \<and> 0x20 \<le> byte_of c \<and> byte_of c \<noteq> 0x7f) raw) \<and>
   SafeReturnPath parse (SafeReturnPath parse raw) = SafeReturnPath parse raw"
proof (rule SafeReturnPath_cases [of parse raw])
  assume "SafeReturnPath parse raw = ''/''"
  then show ?thesis by simp
next
  fix c s u
  assume k: "SafeReturnPath parse raw = raw" "raw = CHR 0x2F # c # s" "c \<noteq> CHR 0x2F"
    "CHR 0x5C \<notin> set raw" "length raw \<le> maxReturnPath"
    "\<forall>c\<in>set raw. 0x20 \<le> byte_of c \<and> byte_of c \<noteq> 0x7f" "parse raw = Some u" "u_Scheme u = []" "u_Host u = []"
  from k(4,6) have "list_all (\<lambda>c. c \<noteq> CHR 0x5C \<and> 0x20 \<le> byte_of c \<and> byte_of c \<noteq> 0x7f) raw"
    by (auto simp: list_all_iff)
  with k show ?thesis by (auto simp: maxReturnPath_def)
qed

text \<open>
  The handshake cookie carries a login through: with 32 random bytes for each secret, what the
  callback reads from the cookie that the login wrote is the same state, nonce and verifier and the
  destination, checked again. A cookie that anyone else wrote yields either nothing or three secrets
  that are not blank and a safe destination.
\<close>

theorem state_cookie_roundtrip:
  assumes "\<forall>k. length (random k 32) = 32" and "parseStateCookie parse raw = Some (hs, dest)"
  shows "parseStateCookie parse (state_value parse (NewHandshake random) next) =
      Some (NewHandshake random, SafeReturnPath parse next) \<and>
    handshake_Valid hs \<and> SafeReturnPath parse dest = dest"
  using parse_state_value [of "NewHandshake random" parse "next"] NewHandshake_valid [of random] assms(1)
    parseStateCookie_Some [OF assms(2)] by simp

theorem state_cookie_roundtrip_witness:
  "parseStateCookie (\<lambda>_. None) (state_value (\<lambda>_. None) (NewHandshake (\<lambda>k n. replicate n CHR ''a'')) ''//evil'') =
     Some (NewHandshake (\<lambda>k n. replicate n CHR ''a''), ''/'')"
proof -
  have "parseStateCookie (\<lambda>_. None) ''s|n|v|'' = Some (\<lparr>h_State = ''s'', h_Nonce = ''n'', h_Verifier = ''v''\<rparr>, ''/'')"
    by code_simp
  from state_cookie_roundtrip [OF _ this, of "\<lambda>k n. replicate n CHR ''a''" "''//evil''"]
  show ?thesis by (simp add: SafeReturnPath_def)
qed

text \<open>
  C14: the callback signs in only the browser that started the login. Whatever it does, it clears the
  handshake cookie under both its names, and every cookie it writes under a host-only name is Secure,
  as a browser demands (unless the configured prefix itself is spelt like the host-only one). Either it fails with one of the reasons, the sessions untouched and
  no session cookie written; or the state of the query is the one in this browser's cookie, the
  provider reported no error, the exchange verified this code with the nonce and verifier of the
  cookie, and one session of that identity is added, whose token only the new cookie carries.
\<close>

theorem callback_safe:
  assumes "Provider g sv = Some p" and "callbackHandler e g rq sv = (sv', cks, r)"
  shows "list_all (\<lambda>c. ck_Secure c \<or> \<not> has_prefix (ck_Name c) hostPrefix \<or> has_prefix (g_sessionCookie g) hostPrefix) cks \<and>
    (\<exists>new. cks = new @ map (clearCookie e) (stateCookieNames g) \<and>
      (new = [] \<and> sv_rows sv' = sv_rows sv \<and> (\<exists>reason cause. r = g_onFailure g reason cause) \<or>
       (\<exists>hs next i. parseStateCookie (idp_parse (e_idp e))
            (hr_cookie rq (stateCookieName g (CookieSecure (e_idp e) p))) = Some (hs, next) \<and>
          hr_query rq ''state'' = h_State hs \<and> h_State hs \<noteq> [] \<and> hr_query rq ''error'' = [] \<and>
          snd (Exchange (e_idp e) p (hr_query rq ''code'') (h_Nonce hs) (h_Verifier hs)) = Inr i \<and>
          sv_rows sv' = sv_rows sv @
            [row_of (e_enc e) (new_session e g rq i) (HashToken (e_sha e) (RandomToken (e_random e 0) 32))] \<and>
          new = [setSessionCookie g (RandomToken (e_random e 0) 32)
                   (ExpiryFor (g_policy g) (e_now e) (e_now e)) (CookieSecure (e_idp e) p)] \<and>
          r = RRedirect 302 next)))"
proof -
  obtain new where b: "callback_body e g p rq sv = (sv', new, r)" "cks = new @ map (clearCookie e) (stateCookieNames g)"
    using assms by (auto simp: callbackHandler_def split: prod.splits)
  have body: "new = [] \<and> sv_rows sv' = sv_rows sv \<and> (\<exists>reason cause. r = g_onFailure g reason cause) \<or>
       (\<exists>hs next i. parseStateCookie (idp_parse (e_idp e))
            (hr_cookie rq (stateCookieName g (CookieSecure (e_idp e) p))) = Some (hs, next) \<and>
          hr_query rq ''state'' = h_State hs \<and> h_State hs \<noteq> [] \<and> hr_query rq ''error'' = [] \<and>
          snd (Exchange (e_idp e) p (hr_query rq ''code'') (h_Nonce hs) (h_Verifier hs)) = Inr i \<and>
          sv_rows sv' = sv_rows sv @
            [row_of (e_enc e) (new_session e g rq i) (HashToken (e_sha e) (RandomToken (e_random e 0) 32))] \<and>
          new = [setSessionCookie g (RandomToken (e_random e 0) 32)
                   (ExpiryFor (g_policy g) (e_now e) (e_now e)) (CookieSecure (e_idp e) p)] \<and>
          r = RRedirect 302 next)"
    using b(1) by (rule callback_body_cases) blast+
  then have "list_all (\<lambda>c. ck_Secure c \<or> \<not> has_prefix (ck_Name c) hostPrefix \<or> has_prefix (g_sessionCookie g) hostPrefix) cks"
    by (auto simp: b(2) setSessionCookie_def sessionCookieName_def clearCookie_def list_all_iff split: if_splits)
  with body b(2) show ?thesis by blast
qed

text \<open>A request and its surroundings for the concrete instances.\<close>

definition demo_gate :: gate where
  "demo_gate = fst (New_gate ''/api/v1'' ''/api/auth''
     \<lparr>go_Provider = True, go_Sessions = True, go_sweeps = True, go_CookiePrefix = [],
      go_Policy = DefaultPolicy, go_RateLimit = 0, go_OnLoginFailure = None, go_LoginFailurePath = [],
      go_ReasonParam = []\<rparr>)"

definition demo_env :: env where
  "demo_env = \<lparr>e_idp = demo_idp, e_now = 100 * second, e_wall = 100 * second, e_random = \<lambda>_ n. replicate n CHR ''a'',
     e_uuid = ''1'', e_fault = \<lambda>_. None, e_uniq = Text ''unique'', e_enc = \<lambda>_. ''x'',
     e_dec = \<lambda>_. Some [''G'', ''g''], e_sha = \<lambda>s. s, e_limited = \<lambda>_. False\<rparr>"

definition demo_request :: request where
  "demo_request = \<lparr>hr_cookie = \<lambda>n. if n = ''auth_auth_state'' then ''s|n|v|'' else [],
     hr_query = \<lambda>n. if n = ''state'' then ''s'' else if n = ''code'' then ''c'' else [],
     hr_agent = ''b  r'', hr_id = [], hr_identity = None\<rparr>"

definition demo_server :: server where
  "demo_server = \<lparr>sv_provider = Some demo_provider, sv_rows = []\<rparr>"

lemma demo_gate_sel [simp]:
  "g_provider demo_gate" "g_sessions demo_gate" "g_policy demo_gate = DefaultPolicy"
  "g_sessionCookie demo_gate = ''auth_session''" "g_stateCookie demo_gate = ''auth_auth_state''"
  by (simp_all add: demo_gate_def New_gate_def Let_def)

lemma demo_env_sel [simp]:
  "e_idp demo_env = demo_idp" "e_now demo_env = 100000000000" "e_fault demo_env k = None"
  "e_sha demo_env = (\<lambda>s. s)" "e_enc demo_env gs = ''x''" "e_dec demo_env t = Some [''G'', ''g'']"
  "length (e_random demo_env k n) = n" "e_uuid demo_env = ''1''"
  by (simp_all add: demo_env_def second_def)

lemma demo_identity_sel [simp]: "id_Groups demo_identity = [''G'', ''g'']"
  by (simp add: demo_identity_def)

lemma demo_secure [simp]: "\<not> CookieSecure demo_idp p"
  by (simp add: CookieSecure_def demo_idp_def)

lemma demo_Provider [simp]: "Provider demo_gate demo_server = Some demo_provider"
  by (simp add: Provider_def demo_server_def)

theorem callback_safe_witness:
  "\<exists>sv' cks r. callbackHandler demo_env demo_gate demo_request demo_server = (sv', cks, r) \<and>
     (\<exists>new. cks = new @ map (clearCookie demo_env) [''__Host-auth_auth_state'', ''auth_auth_state''])"
proof -
  obtain sv' cks r where c: "callbackHandler demo_env demo_gate demo_request demo_server = (sv', cks, r)"
    by (cases "callbackHandler demo_env demo_gate demo_request demo_server")
  from callback_safe [OF demo_Provider c] obtain new where
    "cks = new @ map (clearCookie demo_env) (stateCookieNames demo_gate)" by blast
  with c show ?thesis by (auto simp: stateCookieNames_def hostPrefix_def)
qed

lemma demo_session_ok:
  "session_storable (new_session demo_env demo_gate demo_request demo_identity)" "policy_ok DefaultPolicy"
  "ExpiryFor DefaultPolicy 100000000000 100000000000 = 2592100000000000"
proof -
  show x: "ExpiryFor DefaultPolicy 100000000000 100000000000 = 2592100000000000"
    by (simp add: ExpiryFor_def withDefaults_def DefaultPolicy_def Let_def time_is_zero_def second_def hour_def minute_def)
  show "session_storable (new_session demo_env demo_gate demo_request demo_identity)"
    by (simp add: session_storable_def x storable_def year_10000_def second_def day_secs_def)
  show "policy_ok DefaultPolicy"
    by (simp add: policy_ok_def DefaultPolicy_def second_def hour_def minute_def max_i64_def)
qed

lemma guarded_chain:
  assumes "hr_identity rq = None"
    and "run_chain e g (MIdentity # MConfigured # MOwner # ms) rq sv = (sv', cks, r)"
  shows "(r \<in> {RError 404 ''login is not configured'', RError 401 ''authentication required'',
             RError 403 ''owner access required''} \<and> cks = [] \<and> sv_provider sv' = sv_provider sv \<and>
           (sv_rows sv' = sv_rows sv \<or> (\<exists>p. Provider g sv = Some p \<and> sv_rows sv' = fst (resolveSession e g p rq (sv_rows sv))))) \<or>
    (\<exists>p s. Provider g sv = Some p \<and> hr_cookie rq (sessionCookieName g (CookieSecure (e_idp e) p)) \<noteq> [] \<and>
       lookup_row (e_dec e) (HashToken (e_sha e) (hr_cookie rq (sessionCookieName g (CookieSecure (e_idp e) p))))
         (sv_rows sv) = Some s \<and>
       Live (g_policy g) s (e_now e) \<and> IsOwner (e_idp e) p (s_Groups s))"
proof (cases "Provider g sv")
  case None
  with assms(2) show ?thesis
    by (simp add: ResolveIdentity_def requireConfigured_def Enabled_def)
next
  case (Some p)
  obtain rows' i where res: "resolveSession e g p rq (sv_rows sv) = (rows', i)"
    by (cases "resolveSession e g p rq (sv_rows sv)")
  have on: "Enabled g (sv\<lparr>sv_rows := rows'\<rparr>)" using Some by (simp add: Enabled_def Provider_def split: if_splits)
  show ?thesis
  proof (cases i)
    case None
    with assms Some res on show ?thesis
      by (auto simp: ResolveIdentity_def requireConfigured_def RequireOwner_def WithIdentity_def IdentityFrom_def)
  next
    case (Some j)
    then obtain s where "hr_cookie rq (sessionCookieName g (CookieSecure (e_idp e) p)) \<noteq> []"
      "lookup_row (e_dec e) (HashToken (e_sha e) (hr_cookie rq (sessionCookieName g (CookieSecure (e_idp e) p)))) (sv_rows sv) = Some s"
      "Live (g_policy g) s (e_now e)" "j = (session_Identity s)\<lparr>id_Owner := IsOwner (e_idp e) p (s_Groups s)\<rparr>"
      using resolveSession_Some [of e g p rq "sv_rows sv" j] res by (metis snd_conv)
    moreover have "IsOwner (e_idp e) p (s_Groups s) \<or>
        (r = RError 403 ''owner access required'' \<and> cks = [] \<and> sv_provider sv' = sv_provider sv \<and> sv_rows sv' = rows')"
      using assms(2) \<open>Provider g sv = Some p\<close> res on Some calculation
      by (auto simp: ResolveIdentity_def requireConfigured_def RequireOwner_def WithIdentity_def IdentityFrom_def)
    ultimately show ?thesis using \<open>Provider g sv = Some p\<close> res by auto
  qed
qed

lemma resolveSession_effect:
  "fst (resolveSession e g p rq rows) = rows \<or>
   (\<exists>s. lookup_row (e_dec e) (HashToken (e_sha e) (hr_cookie rq (sessionCookieName g (CookieSecure (e_idp e) p)))) rows = Some s \<and>
      Live (g_policy g) s (e_now e) \<and>
      fst (resolveSession e g p rq rows) =
        fst (TouchSession (e_fault e 1) (s_ID s) (e_now e) (ExpiryFor (g_policy g) (s_CreatedAt s) (e_now e)) rows))"
  by (auto simp: resolveSession_def Let_def SessionByToken_def lookup_row_def split: if_splits option.splits sum.splits)

lemma session_chains:
  assumes "New_gate apiBase authBase opts = (g, rs)" and "n < length rs"
    and "MList \<in> set (route_steps (rs ! n)) \<or> MRevoke \<in> set (route_steps (rs ! n))"
  shows "\<exists>ms. chain_at rs n = MIdentity # MConfigured # MOwner # ms"
proof -
  have rs: "rs = [Use MIdentity, Get (LoginPath g) (limited_chain g MLogin), Get (CallbackPath g) (limited_chain g MCallback),
      Post (LogoutPath g) (limited_chain g MLogout), Get (WhoamiPath g) [MWhoami],
      Get (SessionsPath g) [MConfigured, MOwner, MList], Delete (SessionsPath g @ ''/:id'') [MConfigured, MOwner, MRevoke]]"
    using assms(1) by (auto simp: New_gate_def register_def Let_def)
  have "n \<noteq> 0" "n \<noteq> 1" "n \<noteq> 2" "n \<noteq> 3" "n \<noteq> 4"
    using assms(3) by (intro notI; simp add: rs limited_chain_def split: if_splits)+
  with assms(2) have "n = 5 \<or> n = 6" by (simp add: rs) linarith
  then show ?thesis by (auto simp: rs chain_at_def)
qed

text \<open>
  C15: the session routes are for owners. On every route New registers whose handlers list or revoke
  sessions, with the middleware registered before it, a request gets past the guards only when a login
  is configured and the request carries the token of a stored session that is live now and whose
  groups make an owner by the rule configured now. Otherwise the answer is 404, 401 or 403, no cookie
  is set, and the table is as it was, up to the renewal of the live session the request itself carries.
\<close>

theorem owner_guard:
  assumes "New_gate apiBase authBase opts = (g, rs)" and "n < length rs"
    and "MList \<in> set (route_steps (rs ! n)) \<or> MRevoke \<in> set (route_steps (rs ! n))"
    and "hr_identity rq = None" and "run_chain e g (chain_at rs n) rq sv = (sv', cks, r)"
  shows "(r \<in> {RError 404 ''login is not configured'', RError 401 ''authentication required'',
             RError 403 ''owner access required''} \<and> cks = [] \<and> sv_provider sv' = sv_provider sv \<and>
           (sv_rows sv' = sv_rows sv \<or>
            (\<exists>p s. Provider g sv = Some p \<and>
               lookup_row (e_dec e) (HashToken (e_sha e) (hr_cookie rq (sessionCookieName g (CookieSecure (e_idp e) p))))
                 (sv_rows sv) = Some s \<and> Live (g_policy g) s (e_now e) \<and>
               sv_rows sv' = fst (TouchSession (e_fault e 1) (s_ID s) (e_now e)
                 (ExpiryFor (g_policy g) (s_CreatedAt s) (e_now e)) (sv_rows sv))))) \<or>
    (\<exists>p s. Provider g sv = Some p \<and> hr_cookie rq (sessionCookieName g (CookieSecure (e_idp e) p)) \<noteq> [] \<and>
       lookup_row (e_dec e) (HashToken (e_sha e) (hr_cookie rq (sessionCookieName g (CookieSecure (e_idp e) p))))
         (sv_rows sv) = Some s \<and>
       Live (g_policy g) s (e_now e) \<and> IsOwner (e_idp e) p (s_Groups s))"
proof -
  obtain ms where "chain_at rs n = MIdentity # MConfigured # MOwner # ms"
    using session_chains [OF assms(1-3)] by blast
  with assms(5) have run: "run_chain e g (MIdentity # MConfigured # MOwner # ms) rq sv = (sv', cks, r)" by simp
  from guarded_chain [OF assms(4) run] resolveSession_effect [of e g _ rq "sv_rows sv"] show ?thesis by metis
qed

definition demo_gate_options :: options where
  "demo_gate_options = \<lparr>go_Provider = True, go_Sessions = True, go_sweeps = True, go_CookiePrefix = [],
      go_Policy = DefaultPolicy, go_RateLimit = 0, go_OnLoginFailure = None, go_LoginFailurePath = [],
      go_ReasonParam = []\<rparr>"

theorem owner_guard_witness:
  "\<exists>rs r. New_gate ''/api/v1'' ''/api/auth'' demo_gate_options = (demo_gate, rs) \<and>
     run_chain demo_env demo_gate (chain_at rs 5) demo_request demo_server = (demo_server, [], r) \<and>
     r \<in> {RError 404 ''login is not configured'', RError 401 ''authentication required'', RError 403 ''owner access required''}"
proof -
  obtain rs where n: "New_gate ''/api/v1'' ''/api/auth'' demo_gate_options = (demo_gate, rs)"
    by (metis demo_gate_def demo_gate_options_def prod.collapse)
  then have rs: "rs = Use MIdentity # register demo_gate" by (auto simp: New_gate_def Let_def)
  have "hr_cookie demo_request (sessionCookieName demo_gate (CookieSecure (e_idp demo_env) p)) = []" for p
    by (simp add: demo_request_def sessionCookieName_def demo_env_def)
  moreover have "run_chain demo_env demo_gate (chain_at rs 5) demo_request demo_server =
      (demo_server, [], RError 401 ''authentication required'')"
    by (simp add: rs register_def chain_at_def ResolveIdentity_def resolveSession_def demo_request_def sessionCookieName_def
        demo_env_def WithIdentity_def requireConfigured_def Enabled_def RequireOwner_def IdentityFrom_def)
  moreover have "hr_identity demo_request = None" by (simp add: demo_request_def)
  moreover have "5 < length rs" "MList \<in> set (route_steps (rs ! 5))" by (simp_all add: rs register_def)
  ultimately show ?thesis using n owner_guard [OF n, of 5 demo_request demo_env demo_server demo_server "[]"] by metis
qed

text \<open>
  Switched off, the gate is open and shows nothing. Without a configured login both guards pass
  every request on unchanged, whatever cookies it carries; login, callback and the session routes
  answer 404 and change nothing; signing out still deletes the session of either cookie, clears
  both and answers 204.
\<close>

theorem gate_off:
  assumes "\<not> Enabled g sv"
  shows "run_chain e g (MIdentity # MOwner # ms) rq sv = run_chain e g ms rq sv \<and>
    run_chain e g (MIdentity # MAuth # ms) rq sv = run_chain e g ms rq sv \<and>
    run_chain e g (MIdentity # MConfigured # ms) rq sv = (sv, [], RError 404 ''login is not configured'') \<and>
    run_chain e g [MIdentity, MLogin] rq sv = (sv, [], RError 404 ''login is not configured'') \<and>
    run_chain e g [MIdentity, MCallback] rq sv = (sv, [], RError 404 ''login is not configured'') \<and>
    run_chain e g [MIdentity, MLogout] rq sv =
      (sv\<lparr>sv_rows := logout_delete e g rq 2 (sessionCookieNames g) (sv_rows sv)\<rparr>,
       map (clearCookie e) (sessionCookieNames g), RStatus 204)"
proof -
  have p: "Provider g sv = None" "Provider g (sv\<lparr>sv_rows := x\<rparr>) = None" for x
    using assms by (simp_all add: Enabled_def Provider_def split: if_splits)
  then show ?thesis
    by (simp add: ResolveIdentity_def RequireOwner_def RequireAuth_def requireConfigured_def Enabled_def
        loginHandler_def callbackHandler_def logoutHandler_def split: prod.split)
qed

theorem gate_off_witness:
  "run_chain demo_env (demo_gate\<lparr>g_provider := False\<rparr>) [MIdentity, MOwner, MList] demo_request demo_server =
     run_chain demo_env (demo_gate\<lparr>g_provider := False\<rparr>) [MList] demo_request demo_server"
  using gate_off [of "demo_gate\<lparr>g_provider := False\<rparr>" demo_server demo_env "[MList]" demo_request]
  by (simp add: Enabled_def Provider_def)

text \<open>
  C17: signing out is final in the browser and in the store. Whatever fails, both cookies are cleared,
  under both their names, and the answer is 204 or the provider's logout URL. And for either cookie the
  browser sent, when the store does not fail on the one call that deletes its session, whatever the
  other call does, its token never again resolves to an identity, under whatever configuration and
  after whatever operations, unless a session is created under its hash.
\<close>

theorem logout_ends:
  assumes "logoutHandler e g rq sv = (sv', cks, r)"
  shows "cks = map (clearCookie e) (sessionCookieNames g) \<and> (r = RStatus 204 \<or> (\<exists>u. r = REndSession u)) \<and>
    (\<forall>name ops e' g' p rq'. g_sessions g \<and> name \<in> set (sessionCookieNames g) \<and> hr_cookie rq name \<noteq> [] \<and>
       e_fault e (2 + calls_before rq (sessionCookieNames g) name) = None \<and>
       (\<forall>op\<in>set ops. \<not> sqlite.creates (HashToken (e_sha e) (hr_cookie rq name)) op) \<and>
       hr_cookie rq' (sessionCookieName g' (CookieSecure (e_idp e') p)) = hr_cookie rq name \<and> e_sha e' = e_sha e \<longrightarrow>
       snd (resolveSession e' g' p rq' (fold (sqlite.run enc uniq) ops (sv_rows sv'))) = None)"
proof (intro conjI allI impI; (elim conjE)?)
  have sv': "sv_rows sv' = logout_delete e g rq 2 (sessionCookieNames g) (sv_rows sv)"
    and "cks = map (clearCookie e) (sessionCookieNames g)" "r = RStatus 204 \<or> (\<exists>u. r = REndSession u)"
    using assms by (auto simp: logoutHandler_def Let_def split: option.splits prod.splits sum.splits if_splits)
  then show "cks = map (clearCookie e) (sessionCookieNames g)" "r = RStatus 204 \<or> (\<exists>u. r = REndSession u)" by simp_all
  fix name ops p and rq' :: request and e' :: env and g' :: gate
  let ?h = "HashToken (e_sha e) (hr_cookie rq name)"
  assume n: "g_sessions g" "name \<in> set (sessionCookieNames g)" "hr_cookie rq name \<noteq> []"
    "e_fault e (2 + calls_before rq (sessionCookieNames g) name) = None"
    and ops: "\<forall>op\<in>set ops. \<not> sqlite.creates ?h op"
    and rq': "hr_cookie rq' (sessionCookieName g' (CookieSecure (e_idp e') p)) = hr_cookie rq name" "e_sha e' = e_sha e"
  have "?h \<notin> set (map r_token_hash (sv_rows sv'))" unfolding sv' by (rule logout_delete_absent [OF n])
  then have "lookup_row (e_dec e') ?h (sv_rows sv') = None" by (rule keys_of_hashes [THEN iffD2])
  then have "lookup_row (e_dec e') ?h (fold (sqlite.run enc uniq) ops (sv_rows sv')) = None"
    by (rule sqlite.runs_absent) (rule ops)
  then show "snd (resolveSession e' g' p rq' (fold (sqlite.run enc uniq) ops (sv_rows sv'))) = None"
    by (intro resolveSession_absent) (simp add: rq')
qed

text \<open>The delete of the first cookie fails, that of the second does not.\<close>

theorem logout_ends_witness:
  "\<exists>sv' cks r. logoutHandler (demo_env\<lparr>e_fault := (\<lambda>k. if k = 2 then Some (Text ''locked'') else None)\<rparr>) demo_gate
       (demo_request\<lparr>hr_cookie := \<lambda>n. n\<rparr>) (demo_server\<lparr>sv_rows := [row_of (\<lambda>_. ''x'') demo_session (HashToken (\<lambda>s. s) ''auth_session'')]\<rparr>) = (sv', cks, r) \<and>
     cks = map (clearCookie demo_env) [''__Host-auth_session'', ''auth_session''] \<and>
     snd (resolveSession demo_env demo_gate demo_provider (demo_request\<lparr>hr_cookie := \<lambda>n. ''auth_session''\<rparr>)
       (fold (sqlite.run (\<lambda>_. ''x'') (Text ''unique'')) [OpSweep None 5] (sv_rows sv'))) = None"
proof -
  let ?e = "demo_env\<lparr>e_fault := (\<lambda>k. if k = 2 then Some (Text ''locked'') else None)\<rparr>"
  let ?rq = "demo_request\<lparr>hr_cookie := \<lambda>n. n\<rparr>"
  let ?sv = "demo_server\<lparr>sv_rows := [row_of (\<lambda>_. ''x'') demo_session (HashToken (\<lambda>s. s) ''auth_session'')]\<rparr>"
  obtain sv' cks r where l: "logoutHandler ?e demo_gate ?rq ?sv = (sv', cks, r)"
    by (cases "logoutHandler ?e demo_gate ?rq ?sv")
  note out = logout_ends [OF l]
  have "snd (resolveSession demo_env demo_gate demo_provider (demo_request\<lparr>hr_cookie := \<lambda>n. ''auth_session''\<rparr>)
       (fold (sqlite.run (\<lambda>_. ''x'') (Text ''unique'')) [OpSweep None 5] (sv_rows sv'))) = None"
    by (rule out [THEN conjunct2, THEN conjunct2, rule_format, of "''auth_session''"])
       (simp add: sessionCookieNames_def hostPrefix_def calls_before_def)
  moreover have "cks = map (clearCookie demo_env) [''__Host-auth_session'', ''auth_session'']"
    using out by (simp add: sessionCookieNames_def hostPrefix_def clearCookie_def)
  ultimately show ?thesis using l by blast
qed

end
