(* ===== verification/Jobs.thy ===== *)
theory Jobs
  imports GoErr
begin

text \<open>
  jobs/jobs.go and jobs/daily.go: periodic work. The world \<open>'w\<close> is what a run of the work and its
  error handler change. A job's loop is driven by the list of its select outcomes, a tick of the
  timer or the end of the context; when both are ready Go picks either, so every list is possible.

  \<open>Daily\<close> computes with a location: the offset in force before its first transition and the list of
  transitions, in seconds since the zero time. \<open>time.Date\<close> is written out: it looks up the offset at
  the wall time read as UTC and corrects it once.
\<close>

section \<open>Jobs\<close>

datatype do_out = DoOk | DoErr gerr | DoPanic

text \<open>\<open>Do\<close> gets the timeout it is bounded by; the flag of \<open>OnError\<close> tells whether it panicked.\<close>

record 'w job =
  j_Name :: string
  j_Every :: duration
  j_Timeout :: duration
  j_RunAtStart :: bool
  j_Do :: "(duration option \<Rightarrow> 'w \<Rightarrow> 'w \<times> do_out) option"
  j_OnError :: "(gerr \<Rightarrow> 'w \<Rightarrow> 'w \<times> bool) option"

datatype select = Tick | CtxDone

datatype run_out = RunPanic string | RunStopped | RunGoing | RunEscaped  \<comment> \<open>a panic of \<open>OnError\<close>\<close>

definition job_tick :: "'w job \<Rightarrow> (duration option \<Rightarrow> 'w \<Rightarrow> 'w \<times> do_out) \<Rightarrow> 'w \<Rightarrow> 'w \<times> bool" where
  "job_tick j do w =
     (case do (if j_Timeout j > 0 then Some (j_Timeout j) else None) w of
        (w', DoPanic) \<Rightarrow> (w', False)
      | (w', DoOk) \<Rightarrow> (w', False)
      | (w', DoErr e) \<Rightarrow> (case j_OnError j of Some f \<Rightarrow> f e w' | None \<Rightarrow> (w', False)))"

fun job_loop :: "'w job \<Rightarrow> (duration option \<Rightarrow> 'w \<Rightarrow> 'w \<times> do_out) \<Rightarrow> select list \<Rightarrow> 'w \<Rightarrow> 'w \<times> run_out" where
  "job_loop j do [] w = (w, RunGoing)"
| "job_loop j do (CtxDone # es) w = (w, RunStopped)"
| "job_loop j do (Tick # es) w =
     (case job_tick j do w of (w', escaped) \<Rightarrow> if escaped then (w', RunEscaped) else job_loop j do es w')"

definition job_Run :: "'w job \<Rightarrow> select list \<Rightarrow> 'w \<Rightarrow> 'w \<times> run_out" where
  "job_Run j es w =
     (if j_Every j \<le> 0 then (w, RunPanic (''jobs: Job.Every must be positive (job '' @ j_Name j @ '')''))
      else case j_Do j of
        None \<Rightarrow> (w, RunPanic (''jobs: Job.Do must be set (job '' @ j_Name j @ '')''))
      | Some do \<Rightarrow>
          (if j_RunAtStart j
           then (case job_tick j do w of (w', escaped) \<Rightarrow> if escaped then (w', RunEscaped) else job_loop j do es w')
           else job_loop j do es w))"

section \<open>Locations\<close>

datatype location = Location int "(int \<times> int) list"  \<comment> \<open>first offset; start and offset of the others\<close>

fun lookup_from :: "int \<Rightarrow> int option \<Rightarrow> (int \<times> int) list \<Rightarrow> int \<Rightarrow> int \<times> int option \<times> int option" where
  "lookup_from off start [] s = (off, start, None)"
| "lookup_from off start ((t, off') # ts) s =
     (if s < t then (off, start, Some t) else lookup_from off' (Some t) ts s)"

fun loc_lookup :: "location \<Rightarrow> int \<Rightarrow> int \<times> int option \<times> int option" where
  "loc_lookup (Location off ts) s = lookup_from off None ts s"

definition offset_at :: "location \<Rightarrow> int \<Rightarrow> int" where
  "offset_at loc s = fst (loc_lookup loc s)"

definition local_secs :: "location \<Rightarrow> int \<Rightarrow> int" where
  "local_secs loc s = s + offset_at loc s"

text \<open>\<open>time.Date\<close> for the day with that number, from the wall time in seconds.\<close>

definition Date :: "location \<Rightarrow> int \<Rightarrow> int" where
  "Date loc wall =
     (case loc_lookup loc wall of
        (off, start, stop) \<Rightarrow>
          if off = 0 then wall
          else
            let utc = wall - off in
            if (case start of None \<Rightarrow> False | Some t \<Rightarrow> utc < t) \<or> (case stop of None \<Rightarrow> False | Some t \<Rightarrow> t \<le> utc)
            then wall - offset_at loc utc
            else wall - off)"

section \<open>Daily\<close>

record 'w daily =
  d_Name :: string
  d_Hour :: int
  d_Minute :: int
  d_Timeout :: duration
  d_RunAtStart :: bool
  d_Do :: "(duration option \<Rightarrow> 'w \<Rightarrow> 'w \<times> do_out) option"
  d_OnError :: "(gerr \<Rightarrow> 'w \<Rightarrow> 'w \<times> bool) option"

definition day :: int where "day = 86400"

definition at_time :: "'w daily \<Rightarrow> int" where
  "at_time d = d_Hour d * 3600 + d_Minute d * 60"

definition Next :: "'w daily \<Rightarrow> location \<Rightarrow> instant \<Rightarrow> instant" where
  "Next d loc t =
     (let today = local_secs loc (t div second) div day;
          n = Date loc (today * day + at_time d) * second
      in if \<not> t < n then Date loc ((today + 1) * day + at_time d) * second else n)"

definition delay :: "'w daily \<Rightarrow> location \<Rightarrow> instant \<Rightarrow> duration" where
  "delay d loc now = time_sub (Next d loc now) now"

definition daily_job :: "'w daily \<Rightarrow> 'w job" where
  "daily_job d = \<lparr>j_Name = d_Name d, j_Every = 1, j_Timeout = d_Timeout d, j_RunAtStart = d_RunAtStart d,
     j_Do = d_Do d, j_OnError = d_OnError d\<rparr>"

text \<open>A tick of \<open>Daily\<close> does what a tick of a job does; the waits are what \<open>delay\<close> answers for the
  readings of its clock, one per round.\<close>

fun daily_loop ::
    "'w daily \<Rightarrow> location \<Rightarrow> (duration option \<Rightarrow> 'w \<Rightarrow> 'w \<times> do_out) \<Rightarrow> (instant \<times> select) list \<Rightarrow> 'w \<Rightarrow>
     'w \<times> duration list \<times> run_out" where
  "daily_loop d loc do [] w = (w, [], RunGoing)"
| "daily_loop d loc do ((now, CtxDone) # es) w = (w, [delay d loc now], RunStopped)"
| "daily_loop d loc do ((now, Tick) # es) w =
     (case job_tick (daily_job d) do w of
        (w', escaped) \<Rightarrow>
          if escaped then (w', [delay d loc now], RunEscaped)
          else (case daily_loop d loc do es w' of (w'', ds, r) \<Rightarrow> (w'', delay d loc now # ds, r)))"

definition daily_Run ::
    "'w daily \<Rightarrow> location \<Rightarrow> (instant \<times> select) list \<Rightarrow> 'w \<Rightarrow> 'w \<times> duration list \<times> run_out" where
  "daily_Run d loc es w =
     (if d_Hour d < 0 \<or> d_Hour d > 23
      then (w, [], RunPanic (''jobs: Daily.Hour must be 0-23 (job '' @ d_Name d @ '')''))
      else if d_Minute d < 0 \<or> d_Minute d > 59
      then (w, [], RunPanic (''jobs: Daily.Minute must be 0-59 (job '' @ d_Name d @ '')''))
      else case d_Do d of
        None \<Rightarrow> (w, [], RunPanic (''jobs: Daily.Do must be set (job '' @ d_Name d @ '')''))
      | Some do \<Rightarrow>
          (if d_RunAtStart d
           then (case job_tick (daily_job d) do w of
                   (w', escaped) \<Rightarrow> if escaped then (w', [], RunEscaped) else daily_loop d loc do es w')
           else daily_loop d loc do es w))"

definition daily_ok :: "'w daily \<Rightarrow> bool" where
  "daily_ok d \<longleftrightarrow> 0 \<le> d_Hour d \<and> d_Hour d \<le> 23 \<and> 0 \<le> d_Minute d \<and> d_Minute d \<le> 59"

section \<open>Lemmas\<close>

lemma at_time_range: "daily_ok d \<Longrightarrow> 0 \<le> at_time d \<and> at_time d < day"
  by (simp add: daily_ok_def at_time_def day_def)

lemma Date_fixed [simp]: "Date (Location off []) wall = wall - off"
  by (simp add: Date_def Let_def)

lemma local_fixed [simp]: "local_secs (Location off []) s = s + off"
  by (simp add: local_secs_def offset_at_def)

text \<open>A location with one transition: wall times before it, after it, and in its gap.\<close>

lemma offset_one: "offset_at (Location o1 [(t, o2)]) s = (if s < t then o1 else o2)"
  by (simp add: offset_at_def)

lemma Date_one:
  "Date (Location o1 [(t, o2)]) w =
     (if w < t then (if w - o1 < t then w - o1 else w - o2)
      else (if t \<le> w - o2 then w - o2 else w - o1))"
  by (auto simp: Date_def Let_def offset_one)

lemma seconds_before: "s * second \<le> t \<longleftrightarrow> s \<le> t div second" for t :: int
  by (rule int_le_div_iff [symmetric]) (simp add: second_def)

lemma seconds_after: "t < s * second \<longleftrightarrow> t div second < s" for t :: int
  by (rule int_div_less_iff [symmetric]) (simp add: second_def)

text \<open>The next multiple: the first number above \<open>x\<close> that is \<open>r\<close> modulo a day.\<close>

lemma next_multiple:
  fixes x r :: int
  assumes "0 \<le> r" "r < day"
  defines "n \<equiv> (if x < x div day * day + r then x div day * day + r else (x div day + 1) * day + r)"
  shows "x < n" "n \<le> x + day" "n mod day = r" "x < y \<Longrightarrow> y mod day = r \<Longrightarrow> n \<le> y"
proof -
  have x: "x div day * day \<le> x" "x < x div day * day + day"
    using int_le_div_iff [of day "x div day" x] int_div_less_iff [of day x "x div day + 1"]
    by (simp_all add: day_def algebra_simps)
  show "x < n" "n \<le> x + day" using x assms by (auto simp: n_def algebra_simps)
  show "n mod day = r" using assms by (auto simp: n_def mod_mult_self3 mod_mult_self4)
  assume y: "x < y" "y mod day = r"
  have yd: "y = y div day * day + r" using div_mult_mod_eq [of y day] y(2) by simp
  have "x div day \<le> y div day" using y(1) by (intro zdiv_mono1) (simp_all add: day_def)
  show "n \<le> y"
  proof (cases "x div day = y div day")
    case True
    with yd y(1) show ?thesis by (simp add: n_def)
  next
    case False
    with \<open>x div day \<le> y div day\<close> have "x div day + 1 \<le> y div day" by simp
    then have "(x div day + 1) * day \<le> y div day * day" by (intro mult_right_mono) (simp_all add: day_def)
    with yd have "(x div day + 1) * day + r \<le> y" by linarith
    moreover have "n \<le> (x div day + 1) * day + r" by (simp add: n_def algebra_simps day_def)
    ultimately show ?thesis by linarith
  qed
qed

lemma Next_fixed:
  fixes t off :: int
  assumes "daily_ok d"
  defines "x \<equiv> t div second + off"
  shows "Next d (Location off []) t =
    ((if x < x div day * day + at_time d then x div day * day + at_time d
      else (x div day + 1) * day + at_time d) - off) * second"
proof -
  have "t < (x div day * day + at_time d - off) * second \<longleftrightarrow> x < x div day * day + at_time d"
    unfolding seconds_after by (simp add: x_def algebra_simps)
  then show ?thesis unfolding Next_def Let_def local_fixed Date_fixed x_def by simp
qed

definition tick_safe :: "'w job \<Rightarrow> bool" where
  "tick_safe j \<longleftrightarrow> (\<forall>f e w. j_OnError j = Some f \<longrightarrow> \<not> snd (f e w))"

lemma job_tick_safe: "tick_safe j \<Longrightarrow> \<not> snd (job_tick j do w)"
  by (auto simp: tick_safe_def job_tick_def split: prod.split do_out.split option.split)

lemma job_loop_safe:
  assumes "tick_safe j"
  shows "job_loop j do es w =
    (((\<lambda>w. fst (job_tick j do w)) ^^ length (takeWhile (\<lambda>e. e = Tick) es)) w,
     if CtxDone \<in> set es then RunStopped else RunGoing)"
proof (induction es arbitrary: w)
  case (Cons e es)
  then show ?case
    using job_tick_safe [OF assms, of do w]
    by (cases e) (auto simp: funpow_swap1 [of "\<lambda>w. fst (job_tick j do w)"] split: prod.split)
qed simp

section \<open>Properties\<close>

text \<open>
  C21: nothing a run does stops a job: with an error handler that does not panic, errors and panics
  of the work leave the loop going, the work is run once per tick of the timer, and once before when
  \<open>RunAtStart\<close> asks for it, until the context ends.
\<close>

theorem job_survives:
  assumes "0 < j_Every j" and "j_Do j = Some do" and "tick_safe j"
  shows "job_Run j es w =
    (((\<lambda>w. fst (job_tick j do w)) ^^
        (length (takeWhile (\<lambda>e. e = Tick) es) + (if j_RunAtStart j then 1 else 0))) w,
     if CtxDone \<in> set es then RunStopped else RunGoing)"
  using assms(1,2) job_tick_safe [OF assms(3), of do w]
  by (auto simp: job_Run_def job_loop_safe [OF assms(3)] funpow_swap1 [of "\<lambda>w. fst (job_tick j do w)"] split: prod.split)

theorem job_survives_witness:
  "job_Run \<lparr>j_Name = ''n'', j_Every = 1, j_Timeout = 0, j_RunAtStart = True,
     j_Do = Some (\<lambda>_ w. (w + 1 :: nat, if w = 1 then DoPanic else DoErr (Text ''e''))), j_OnError = None\<rparr>
     [Tick, Tick, CtxDone, Tick] 0 = (3, RunStopped)"
proof -
  let ?do = "\<lambda>_ w. (w + 1 :: nat, if w = 1 then DoPanic else DoErr (Text ''e''))"
  let ?j = "\<lparr>j_Name = ''n'', j_Every = 1, j_Timeout = 0, j_RunAtStart = True, j_Do = Some ?do, j_OnError = None\<rparr>"
  have "fst (job_tick ?j ?do w) = w + 1" for w by (simp add: job_tick_def)
  moreover have "tick_safe ?j" by (simp add: tick_safe_def)
  ultimately show ?thesis
    using job_survives [of ?j ?do "[Tick, Tick, CtxDone, Tick]" 0] by (simp add: eval_nat_numeral)
qed

text \<open>
  Where the offset does not change, \<open>Next\<close> is the first moment strictly after the given one at
  which the clock reads the hour and minute, and at most a day later.
\<close>

theorem daily_fixed:
  assumes "daily_ok d"
  shows "\<exists>s. Next d (Location off []) t = s * second \<and> t < s * second \<and> s * second \<le> t + 24 * hour \<and>
    local_secs (Location off []) s mod 86400 = at_time d \<and>
    (\<forall>u. t < u * second \<and> local_secs (Location off []) u mod 86400 = at_time d \<longrightarrow> s \<le> u)"
proof -
  let ?x = "t div second + off"
  define n where "n = (if ?x < ?x div day * day + at_time d then ?x div day * day + at_time d
      else (?x div day + 1) * day + at_time d)"
  note r = at_time_range [OF assms]
  have n: "?x < n" "n \<le> ?x + day" "n mod day = at_time d" "\<And>y. ?x < y \<Longrightarrow> y mod day = at_time d \<Longrightarrow> n \<le> y"
    using next_multiple [of "at_time d" ?x] r unfolding n_def by blast+
  have "t < (n - off) * second" unfolding seconds_after using n(1) by linarith
  moreover have "(n - off) * second \<le> t + 24 * hour"
  proof -
    have "(n - off) * second \<le> (t div second + day) * second" using n(2) by (intro mult_right_mono) (simp_all add: second_def)
    also have "\<dots> = t div second * second + 24 * hour" by (simp add: day_def hour_def minute_def second_def algebra_simps)
    also have "\<dots> \<le> t + 24 * hour" using seconds_before [of "t div second" t] by simp
    finally show ?thesis .
  qed
  moreover have "n - off \<le> u" if "t < u * second" "(u + off) mod day = at_time d" for u
    using n(4) [of "u + off"] that unfolding seconds_after by linarith
  moreover have "Next d (Location off []) t = (n - off) * second"
    unfolding n_def by (rule Next_fixed [OF assms])
  ultimately show ?thesis using n(3) by (intro exI [of _ "n - off"]) (simp add: day_def)
qed

text \<open>A job at 02:30, and New York and Berlin around the change to summer time of 2024.\<close>

definition half_past_two :: "unit daily" where
  "half_past_two = \<lparr>d_Name = [], d_Hour = 2, d_Minute = 30, d_Timeout = 0, d_RunAtStart = False, d_Do = None, d_OnError = None\<rparr>"

definition new_york :: location where "new_york = Location (- 18000) [(63845650800, - 14400)]"
definition berlin :: location where "berlin = Location 3600 [(63847443600, 7200)]"

theorem daily_fixed_witness:
  "\<exists>s. Next half_past_two (Location 3600 []) 0 = s * second \<and> 0 < s * second \<and>
     local_secs (Location 3600 []) s mod 86400 = 9000"
  using daily_fixed [of half_past_two 3600 0] by (auto simp: daily_ok_def half_past_two_def at_time_def)

text \<open>
  Around a change of the offset, a wall time that exists is met exactly. One inside the gap of a
  change to summer time is met later by the length of the gap where the wall time, read as UTC, is
  not before the change, as east of Greenwich, and earlier by it where it is before, as west of
  Greenwich.
\<close>

theorem daily_gap:
  assumes "loc = Location o1 [(t, o2)]"
  shows "((wall - o1 < t \<or> t \<le> wall - o2) \<longrightarrow> local_secs loc (Date loc wall) = wall) \<and>
    (t \<le> wall - o1 \<and> wall - o2 < t \<longrightarrow>
       local_secs loc (Date loc wall) = (if t \<le> wall then wall + (o2 - o1) else wall - (o2 - o1)))"
  by (auto simp: assms Date_one local_secs_def offset_one)

text \<open>
  In New York the job of 02:30 fires at 01:30 on that day, not an hour later; and a process started
  at 01:45 skips the day. In Berlin it fires at 03:30.
\<close>

theorem daily_gap_witness:
  "local_secs new_york (Date new_york 63845634600) = 63845634600 - 3600 \<and>
   Next half_past_two new_york (63845649900 * second) = Date new_york (63845634600 + 86400) * second \<and>
   local_secs berlin (Date berlin 63847449000) = 63847449000 + 3600"
proof -
  have "local_secs new_york (Date new_york 63845634600) = 63845634600 - 3600"
    using daily_gap [OF new_york_def, of 63845634600] by simp
  moreover have "local_secs berlin (Date berlin 63847449000) = 63847449000 + 3600"
    using daily_gap [OF berlin_def, of 63847449000] by simp
  moreover have "Next half_past_two new_york (63845649900 * second) = Date new_york (63845634600 + 86400) * second"
    by code_simp
  ultimately show ?thesis by simp
qed

text \<open>
  "Strictly after" fails where a change back crosses midnight, as in Newfoundland until 2011, at 00:01
  to 23:01: half an hour after it the next midnight is taken to be the one before the change, so the
  delay is negative and the timer fires at once, again and again until the day is over.
\<close>

definition st_johns :: location where "st_johns = Location (- 9000) [(63424693860, - 12600)]"

theorem next_in_the_past:
  "Next (half_past_two\<lparr>d_Hour := 0, d_Minute := 0\<rparr>) st_johns (63424695600 * second) = 63424693800 * second \<and>
   delay (half_past_two\<lparr>d_Hour := 0, d_Minute := 0\<rparr>) st_johns (63424695600 * second) = - 30 * minute"
  by code_simp

end
