(* ===== verification/Backup.thy ===== *)
theory Backup
  imports Jobs Calendar
begin

text \<open>
  backup/backup.go: dated copies of the database. The backup directory is the list of its entries,
  names distinct; strings are ordered byte by byte, as Go orders them. What the system calls and the
  snapshotter do is an argument of each operation: whether a call fails, and what a snapshot leaves
  at its path.
\<close>

section \<open>The service\<close>

definition scheduleTimeout :: duration where "scheduleTimeout = hour"
definition DefaultPrefix :: string where "DefaultPrefix = ''backup-''"
definition DefaultHour :: int where "DefaultHour = 3"
definition fileSuffix :: string where "fileSuffix = ''.db''"

type_synonym clock_time = "int \<times> int"

definition clock_valid :: "clock_time \<Rightarrow> bool" where
  "clock_valid c = (case c of (h, m) \<Rightarrow> h \<ge> 0 \<and> h \<le> 23 \<and> m \<ge> 0 \<and> m \<le> 59)"

record options =
  bo_Dir :: string
  bo_Retention :: int
  bo_At :: "clock_time option"
  bo_Prefix :: string

record service =
  sv_dir :: string
  sv_retention :: int
  sv_prefix :: string
  sv_at :: clock_time

text \<open>None is the panic of \<open>New\<close>.\<close>

definition New_service :: "options \<Rightarrow> service option" where
  "New_service o1 =
     (let retention = (if bo_Retention o1 < 1 then 1 else bo_Retention o1);
          prefix = (if bo_Prefix o1 = [] then DefaultPrefix else bo_Prefix o1);
          at = (case bo_At o1 of None \<Rightarrow> (DefaultHour, 0) | Some c \<Rightarrow> c)
      in if \<not> clock_valid at then None
         else Some \<lparr>sv_dir = bo_Dir o1, sv_retention = retention, sv_prefix = prefix, sv_at = at\<rparr>)"

section \<open>The directory\<close>

record entry =
  en_name :: string
  en_isdir :: bool
  en_size :: int
  en_mtime :: instant

type_synonym directory = "entry list option"  \<comment> \<open>None: it does not exist\<close>

definition isBackupName :: "service \<Rightarrow> string \<Rightarrow> bool" where
  "isBackupName s name \<longleftrightarrow> has_prefix name (sv_prefix s) \<and> has_suffix name fileSuffix"

definition stored :: "service \<Rightarrow> entry list \<Rightarrow> entry list" where
  "stored s es = rev (sort_key en_name (filter (\<lambda>e. \<not> (en_isdir e \<or> \<not> isBackupName s (en_name e))) es))"

text \<open>\<open>denied\<close>: an error of ReadDir other than a missing directory.\<close>

definition List_backups :: "service \<Rightarrow> gerr option \<Rightarrow> directory \<Rightarrow> gerr + entry list" where
  "List_backups s denied d =
     (if trim_space (sv_dir s) = [] then Inr []
      else case denied of
        Some e \<Rightarrow> Inl (Wrap ''backup: read directory: '' e [])
      | None \<Rightarrow> (case d of None \<Rightarrow> Inr [] | Some es \<Rightarrow> Inr (stored s es)))"

definition prune :: "service \<Rightarrow> gerr option \<Rightarrow> (string \<Rightarrow> bool) \<Rightarrow> directory \<Rightarrow> directory" where
  "prune s denied removable d =
     (case List_backups s denied d of
        Inl _ \<Rightarrow> d
      | Inr list \<Rightarrow>
          if int (length list) \<le> sv_retention s then d
          else
            let doomed = map en_name (drop (nat (sv_retention s)) list)
            in map_option (filter (\<lambda>e. \<not> (en_name e \<in> set doomed \<and> removable (en_name e)))) d)"

section \<open>Writing\<close>

definition daily_name :: "service \<Rightarrow> int \<Rightarrow> string" where
  "daily_name s today = sv_prefix s @ fmt_date today @ fileSuffix"

text \<open>What the system does during one call: the error of MkdirAll, what the snapshotter leaves at the
  path it is given and its error, and how the pruning goes.\<close>

record system =
  sy_mkdir :: "gerr option"
  sy_left :: "entry option"
  sy_snap :: "gerr option"
  sy_denied :: "gerr option"
  sy_removable :: "string \<Rightarrow> bool"

text \<open>The directory after it, the error, and whether the database was touched.\<close>

definition WriteDaily :: "service \<Rightarrow> int \<Rightarrow> system \<Rightarrow> directory \<Rightarrow> directory \<times> gerr option \<times> bool" where
  "WriteDaily s today y d =
     (if trim_space (sv_dir s) = [] then (d, None, False)
      else case sy_mkdir y of
        Some e \<Rightarrow> (d, Some (Wrap ''backup: create directory: '' e []), False)
      | None \<Rightarrow>
          let es = (case d of None \<Rightarrow> [] | Some es \<Rightarrow> es);
              name = daily_name s today
          in if name \<in> en_name ` set es then (prune s (sy_denied y) (sy_removable y) (Some es), None, False)
             else
               let es1 = (case sy_left y of None \<Rightarrow> es | Some e \<Rightarrow> es @ [e\<lparr>en_name := name, en_isdir := False\<rparr>])
               in case sy_snap y of
                    Some e \<Rightarrow> (Some es1, Some (Wrap ''backup: snapshot: '' e []), True)
                  | None \<Rightarrow> (prune s (sy_denied y) (sy_removable y) (Some es1), None, True))"

definition schedule :: "service \<Rightarrow> clock_time \<Rightarrow> (duration option \<Rightarrow> 'w \<Rightarrow> 'w \<times> do_out) \<Rightarrow> 'w daily" where
  "schedule s at writeDaily =
     \<lparr>d_Name = ''backups'', d_Hour = fst at, d_Minute = snd at, d_Timeout = scheduleTimeout, d_RunAtStart = True,
      d_Do = Some writeDaily, d_OnError = None\<rparr>"

definition Run_service ::
    "service \<Rightarrow> (duration option \<Rightarrow> 'w \<Rightarrow> 'w \<times> do_out) \<Rightarrow> location \<Rightarrow> (instant \<times> select) list \<Rightarrow> 'w \<Rightarrow>
     ('w \<times> duration list \<times> run_out) option" where
  "Run_service s writeDaily loc es w =
     (if trim_space (sv_dir s) = [] then None else Some (daily_Run (schedule s (sv_at s) writeDaily) loc es w))"

section \<open>Streaming\<close>

text \<open>The temporary directories left, what was written, and the error. The arguments are the outcomes
  of MkdirTemp, the snapshot, opening it, and the copy: the bytes written and its error.\<close>

definition Backup_stream ::
    "gerr + string \<Rightarrow> gerr option \<Rightarrow> gerr option \<Rightarrow> string \<times> gerr option \<Rightarrow> string set \<Rightarrow> string set \<times> string \<times> gerr option" where
  "Backup_stream mktemp snap opens copy tmps =
     (case mktemp of
        Inl e \<Rightarrow> (tmps, [], Some (Wrap ''backup: temp dir: '' e []))
      | Inr tmp \<Rightarrow>
          let (out, err) =
            (case snap of
               Some e \<Rightarrow> ([], Some (Wrap ''backup: snapshot: '' e []))
             | None \<Rightarrow>
                 (case opens of
                    Some e \<Rightarrow> ([], Some (Wrap ''backup: open snapshot: '' e []))
                  | None \<Rightarrow>
                      (case copy of
                         (bytes, Some e) \<Rightarrow> (bytes, Some (Wrap ''backup: stream: '' e []))
                       | (bytes, None) \<Rightarrow> (bytes, None))))
          in (insert tmp tmps - {tmp}, out, err))"

section \<open>Lemmas\<close>

lemma New_service_ok:
  assumes "New_service o1 = Some s"
  shows "1 \<le> sv_retention s" "sv_prefix s \<noteq> []" "clock_valid (sv_at s)"
  using assms by (auto simp: New_service_def DefaultPrefix_def Let_def split: if_splits)

lemma schedule_ok: "New_service o1 = Some s \<Longrightarrow> daily_ok (schedule s (sv_at s) f)"
  using New_service_ok(3) [of o1 s] by (auto simp: daily_ok_def schedule_def clock_valid_def)

lemma Backup_stream_cleans: "mktemp = Inr tmp \<Longrightarrow> tmp \<notin> tmps \<Longrightarrow> fst (Backup_stream mktemp snap opens copy tmps) = tmps"
  by (auto simp: Backup_stream_def split: option.split prod.split)

lemma daily_name_backup: "isBackupName s (daily_name s d)"
  by (auto simp: isBackupName_def daily_name_def has_prefix_iff has_suffix_iff)

text \<open>Dated names are ordered as their days.\<close>

lemma daily_name_less:
  assumes "day_ok d" "day_ok e"
  shows "daily_name s d < daily_name s e \<longleftrightarrow> d < e"
  using assms fmt_date_less [of d e] by (simp add: daily_name_def lex_append_less fmt_date_length)

subsection \<open>Retention\<close>

lemma take_by_name:
  "distinct (map f xs) \<Longrightarrow> filter (\<lambda>x. f x \<notin> f ` set (drop n xs)) xs = take n xs"
proof -
  assume d: "distinct (map f xs)"
  have "f x \<notin> f ` set (drop n xs)" if "x \<in> set (take n xs)" for x
    using d that distinct_append [of "map f (take n xs)" "map f (drop n xs)"]
    by (metis (no_types) IntI append_take_drop_id empty_iff image_eqI image_set map_append)
  then have "filter (\<lambda>x. f x \<notin> f ` set (drop n xs)) (take n xs) = take n xs" by simp
  moreover have "filter (\<lambda>x. f x \<notin> f ` set (drop n xs)) (drop n xs) = []" by (simp add: filter_empty_conv)
  ultimately show ?thesis by (metis append_Nil2 append_take_drop_id filter_append)
qed

definition keep_all :: "string \<Rightarrow> bool" where "keep_all n = True"

lemma stored_set: "e \<in> set (stored s es) \<longleftrightarrow> e \<in> set es \<and> \<not> en_isdir e \<and> isBackupName s (en_name e)"
  by (auto simp: stored_def)

lemma stored_distinct: "distinct (map en_name es) \<Longrightarrow> distinct (map en_name (stored s es))"
  by (simp add: stored_def rev_map [symmetric] distinct_map filter_sort inj_on_def)

lemma stored_filter: "stored s (filter P es) = filter P (stored s es)"
  by (simp add: stored_def rev_filter [symmetric] filter_sort conj_ac)

lemma stored_sorted: "sorted (map en_name (rev (stored s es)))"
  by (simp add: stored_def)

lemma prune_some:
  assumes "trim_space (sv_dir s) \<noteq> []"
  shows "prune s None rm (Some es) =
    Some (filter (\<lambda>e. \<not> (en_name e \<in> en_name ` set (drop (nat (sv_retention s)) (stored s es)) \<and> rm (en_name e))) es)"
proof (cases "int (length (stored s es)) \<le> sv_retention s")
  case True
  then have "length (stored s es) \<le> nat (sv_retention s)" by simp
  with True show ?thesis by (simp add: prune_def List_backups_def assms)
next
  case False
  then show ?thesis by (simp add: prune_def List_backups_def assms Let_def)
qed

lemma pruned_stored:
  assumes "distinct (map en_name es)"
  shows "stored s (filter (\<lambda>e. en_name e \<notin> en_name ` set (drop n (stored s es))) es) = take n (stored s es)"
  unfolding stored_filter by (rule take_by_name) (rule stored_distinct [OF assms])

text \<open>The place of a name in the list is the number of greater names.\<close>

lemma place_in_list:
  fixes f :: "'a \<Rightarrow> 'b :: linorder"
  assumes "distinct (map f xs)" and "sorted (map f (rev xs))" and "x \<in> set xs"
  shows "x \<in> set (take n xs) \<longleftrightarrow> length (filter (\<lambda>y. f x < f y) xs) < n"
proof -
  obtain us vs where xs: "xs = us @ x # vs" using split_list [OF assms(3)] by blast
  have "\<forall>u\<in>set us. f x < f u" "\<forall>v\<in>set vs. \<not> f x < f v" "x \<notin> set us"
    using assms(1,2) by (force simp: xs rev_map [symmetric] sorted_append order_less_le)+
  then have "length (filter (\<lambda>y. f x < f y) xs) = length us" by (simp add: xs)
  moreover have "x \<in> set (take n xs) \<longleftrightarrow> length us < n"
  proof (cases "length us < n")
    case True
    then obtain k where "n - length us = Suc k" by (metis Suc_diff_Suc)
    then show ?thesis using True by (simp add: xs)
  next
    case False
    then show ?thesis using \<open>x \<notin> set us\<close> by (auto simp: xs dest: in_set_takeD)
  qed
  ultimately show ?thesis by simp
qed

text \<open>The directory with today's file in it.\<close>

definition with_today :: "service \<Rightarrow> int \<Rightarrow> entry \<Rightarrow> entry list \<Rightarrow> entry list" where
  "with_today s today f es =
     (if daily_name s today \<in> en_name ` set es then es else es @ [f\<lparr>en_name := daily_name s today, en_isdir := False\<rparr>])"

lemma WriteDaily_ok:
  assumes "trim_space (sv_dir s) \<noteq> []" and "sy_mkdir y = None" and "sy_snap y = None" and "sy_left y = Some f"
    and "sy_denied y = None" and "sy_removable y = keep_all"
  shows "fst (WriteDaily s today y (Some es)) =
      Some (filter (\<lambda>e. en_name e \<notin> en_name ` set (drop (nat (sv_retention s)) (stored s (with_today s today f es)))) (with_today s today f es))"
  using assms by (simp add: WriteDaily_def Let_def prune_some with_today_def keep_all_def)

section \<open>Properties\<close>

text \<open>
  C28: after a daily run the directory holds, of the files that look like backups, exactly the
  \<open>Retention\<close> greatest names, and every other file untouched. Today's copy is among them exactly when
  fewer than \<open>Retention\<close> such files have a greater name: always when they are all dated, and not from
  the future, since dated names are ordered as their days; but a foreign file whose name begins and
  ends like a backup and sorts after the dates takes a place for ever.
\<close>

theorem backup_retention:
  assumes "New_service opts = Some s" and "trim_space (sv_dir s) \<noteq> []" and "day_ok today"
    and "distinct (map en_name es)" and "\<forall>e\<in>set es. \<not> en_isdir e"
    and "sy_mkdir y = None" and "sy_snap y = None" and "sy_left y = Some f"
    and "sy_denied y = None" and "sy_removable y = keep_all"
  defines "all \<equiv> with_today s today f es" and "name \<equiv> daily_name s today"
  shows "\<exists>es'. fst (WriteDaily s today y (Some es)) = Some es' \<and>
    stored s es' = take (nat (sv_retention s)) (stored s all) \<and>
    filter (\<lambda>e. \<not> isBackupName s (en_name e)) es' = filter (\<lambda>e. \<not> isBackupName s (en_name e)) es \<and>
    (name \<in> en_name ` set es' \<longleftrightarrow> int (length (filter (\<lambda>e. name < en_name e) (stored s all))) < sv_retention s) \<and>
    ((\<forall>e\<in>set (stored s es). \<exists>d. day_ok d \<and> d \<le> today \<and> en_name e = daily_name s d) \<longrightarrow> name \<in> en_name ` set es')"
proof -
  let ?r = "nat (sv_retention s)"
  let ?doomed = "en_name ` set (drop ?r (stored s all))"
  define es' where "es' = filter (\<lambda>e. en_name e \<notin> ?doomed) all"
  note new = New_service_ok [OF assms(1)]
  have result: "fst (WriteDaily s today y (Some es)) = Some es'"
    unfolding es'_def all_def by (rule WriteDaily_ok) (use assms in simp_all)
  have distinct: "distinct (map en_name all)" using assms(4) by (auto simp: all_def with_today_def)
  have files: "\<not> en_isdir e" if "e \<in> set all" for e
    using assms(5) that by (auto simp: all_def with_today_def split: if_splits)
  have kept: "stored s es' = take ?r (stored s all)"
    unfolding es'_def by (rule pruned_stored [OF distinct])
  have others: "filter (\<lambda>e. \<not> isBackupName s (en_name e)) es' = filter (\<lambda>e. \<not> isBackupName s (en_name e)) es"
  proof -
    have "en_name e \<notin> ?doomed" if "e \<in> set all" "\<not> isBackupName s (en_name e)" for e
      using that by (auto dest!: in_set_dropD simp: stored_set)
    then have "filter (\<lambda>e. \<not> isBackupName s (en_name e)) es' = filter (\<lambda>e. \<not> isBackupName s (en_name e)) all"
      unfolding es'_def filter_filter by (intro filter_cong) auto
    then show ?thesis by (simp add: all_def with_today_def daily_name_backup)
  qed
  have "name \<in> en_name ` set all" by (simp add: all_def name_def with_today_def)
  then obtain t where t: "t \<in> set all" "en_name t = name" by blast
  then have ts: "t \<in> set (stored s all)" using files by (simp add: stored_set name_def daily_name_backup)
  have "inj_on en_name (set all)" "set es' \<subseteq> set all" using distinct by (auto simp: distinct_map es'_def)
  then have "name \<in> en_name ` set es' \<longleftrightarrow> t \<in> set es'"
    unfolding t(2) [symmetric] by (rule inj_on_image_mem_iff [OF _ t(1)])
  also have "\<dots> \<longleftrightarrow> t \<in> set (stored s es')"
    using files [OF t(1)] t(2) by (simp add: stored_set name_def daily_name_backup)
  also have "\<dots> \<longleftrightarrow> length (filter (\<lambda>e. name < en_name e) (stored s all)) < ?r"
    unfolding kept using place_in_list [OF stored_distinct [OF distinct] stored_sorted ts] t(2) by simp
  finally have place: "name \<in> en_name ` set es' \<longleftrightarrow> int (length (filter (\<lambda>e. name < en_name e) (stored s all))) < sv_retention s"
    using new(1) by linarith
  have "filter (\<lambda>e. name < en_name e) (stored s all) = []"
    if dated: "\<forall>e\<in>set (stored s es). \<exists>d. day_ok d \<and> d \<le> today \<and> en_name e = daily_name s d"
  proof -
    have "\<not> name < en_name e" if "e \<in> set (stored s all)" for e
    proof (cases "en_name e = name")
      case False
      then have "e \<in> set (stored s es)" using that by (auto simp: stored_set all_def with_today_def name_def split: if_splits)
      with dated obtain d where "day_ok d" "d \<le> today" "en_name e = daily_name s d" by blast
      then show ?thesis using daily_name_less [OF assms(3), of d s] by (simp add: name_def)
    qed simp
    then show ?thesis by (simp add: filter_empty_conv)
  qed
  with place new(1) result kept others show ?thesis by (intro exI [of _ es']) auto
qed

text \<open>A directory with one dated copy and a file kept aside by hand: with a retention of one, the copy
  written on day 738000 is deleted in the same call.\<close>

definition demo_options :: options where
  "demo_options = \<lparr>bo_Dir = ''d'', bo_Retention = 1, bo_At = None, bo_Prefix = []\<rparr>"

definition demo_service :: service where
  "demo_service = \<lparr>sv_dir = ''d'', sv_retention = 1, sv_prefix = DefaultPrefix, sv_at = (3, 0)\<rparr>"

definition demo_file :: "string \<Rightarrow> entry" where
  "demo_file n = \<lparr>en_name = n, en_isdir = False, en_size = 1, en_mtime = 0\<rparr>"

definition demo_system :: system where
  "demo_system = \<lparr>sy_mkdir = None, sy_left = Some (demo_file []), sy_snap = None, sy_denied = None, sy_removable = keep_all\<rparr>"

theorem backup_retention_witness:
  "(\<exists>es'. fst (WriteDaily demo_service 738000 demo_system (Some [demo_file ''backup-keep.db''])) = Some es' \<and>
      daily_name demo_service 738000 \<notin> en_name ` set es') \<and>
   (\<exists>es'. fst (WriteDaily demo_service 738000 demo_system (Some [demo_file (daily_name demo_service 737999)])) = Some es' \<and>
      daily_name demo_service 738000 \<in> en_name ` set es')"
proof -
  have new: "New_service demo_options = Some demo_service"
    by (simp add: New_service_def demo_options_def demo_service_def clock_valid_def DefaultHour_def)
  have dir: "trim_space (sv_dir demo_service) \<noteq> []" "day_ok 738000" "day_ok 737999"
    by code_simp+
  note ret = backup_retention [OF new dir(1,2), of _ demo_system "demo_file []"]
  have name: "daily_name demo_service 738000 = ''backup-2021-07-30.db''" by code_simp
  have "isBackupName demo_service ''backup-keep.db''" by code_simp
  then have "length (filter (\<lambda>e. daily_name demo_service 738000 < en_name e)
      (stored demo_service (with_today demo_service 738000 (demo_file []) [demo_file ''backup-keep.db'']))) = 1"
    unfolding name by code_simp
  with ret [of "[demo_file ''backup-keep.db'']"]
  have "\<exists>es'. fst (WriteDaily demo_service 738000 demo_system (Some [demo_file ''backup-keep.db''])) = Some es' \<and>
      daily_name demo_service 738000 \<notin> en_name ` set es'"
    by (auto simp: demo_file_def demo_system_def demo_service_def)
  moreover have "\<forall>e\<in>set (stored demo_service [demo_file (daily_name demo_service 737999)]).
      \<exists>d. day_ok d \<and> d \<le> 738000 \<and> en_name e = daily_name demo_service d"
    using dir(3) by (intro ballI exI [of _ 737999]) (simp add: stored_set demo_file_def)
  with ret [of "[demo_file (daily_name demo_service 737999)]"]
  have "\<exists>es'. fst (WriteDaily demo_service 738000 demo_system (Some [demo_file (daily_name demo_service 737999)])) = Some es' \<and>
      daily_name demo_service 738000 \<in> en_name ` set es'"
    by (auto simp: demo_file_def demo_system_def)
  ultimately show ?thesis by blast
qed

text \<open>
  One snapshot a day: once a file of today's name is there, however it came there, a further run
  that day reports success without touching the database, and changes nothing when there are no more
  backups than are kept. That holds also for a file left by a snapshot that failed.
\<close>

theorem backup_once:
  assumes "trim_space (sv_dir s) \<noteq> []" and "sy_mkdir y = None" and "daily_name s today \<in> en_name ` set es"
  shows "snd (WriteDaily s today y (Some es)) = (None, False) \<and>
    (int (length (stored s es)) \<le> sv_retention s \<longrightarrow> fst (WriteDaily s today y (Some es)) = Some es)"
  using assms by (simp add: WriteDaily_def Let_def prune_def List_backups_def split: option.split)

text \<open>A snapshot that fails half way and leaves its file, and the next run.\<close>

theorem backup_once_witness:
  "let failed = WriteDaily demo_service 738000 (demo_system\<lparr>sy_snap := Some (Text ''disk full'')\<rparr>) (Some []) in
   fst (snd failed) \<noteq> None \<and> snd (WriteDaily demo_service 738000 demo_system (fst failed)) = (None, False)"
proof -
  let ?y = "demo_system\<lparr>sy_snap := Some (Text ''disk full'')\<rparr>"
  let ?f = "(demo_file [])\<lparr>en_name := daily_name demo_service 738000, en_isdir := False\<rparr>"
  have dir: "trim_space (sv_dir demo_service) \<noteq> []" by code_simp
  then have "WriteDaily demo_service 738000 ?y (Some []) = (Some [?f], Some (Wrap ''backup: snapshot: '' (Text ''disk full'') []), True)"
    by (simp add: WriteDaily_def demo_system_def Let_def)
  moreover have "snd (WriteDaily demo_service 738000 demo_system (Some [?f])) = (None, False)"
    using backup_once [OF dir, of demo_system 738000 "[?f]"] by (simp add: demo_system_def)
  ultimately show ?thesis by (simp add: Let_def)
qed

end
