(* ===== verification/Sqlitex.thy ===== *)
theory Sqlitex
  imports Fault Token
begin

text \<open>
  sqlitex: the migration runner (migrate.go), the query helpers (query.go), the exec helpers
  (exec.go), opening a database (open.go) and its snapshot (snapshot.go).

  A database is its PRAGMA user_version and the rest of its contents. A migration runs in one
  transaction, which takes effect at its commit or not at all; what can go wrong at each step is an
  argument, one fault per step of a run. A result set is the rows the driver yields and the error
  that ended the iteration, if one did.
\<close>

section \<open>Migrations\<close>

record 'd database =
  db_version :: nat
  db_data :: 'd

record 'd migration =
  mg_Name :: string
  mg_Up :: "('d \<Rightarrow> 'd + gerr) option"

definition ErrSchemaFromTheFuture :: string where
  "ErrSchemaFromTheFuture = ''sqlitex: database schema is newer than this build''"

text \<open>Where a step can fail besides in its \<open>Up\<close>; a crash of the process is \<open>Crash\<close>, before the
  commit, with no error to return.\<close>

datatype fault = NoFault | BeginFails gerr | StampFails gerr | CommitFails gerr | Crash

datatype step_end = StepDone | StepErr gerr | Crashed

definition applyStep :: "'d database \<Rightarrow> nat \<Rightarrow> 'd migration \<Rightarrow> fault \<Rightarrow> 'd database \<times> step_end" where
  "applyStep db i m flt =
     (case mg_Up m of
        None \<Rightarrow> (db, StepErr (Text ''migration has a nil Up function''))
      | Some up \<Rightarrow>
          (case flt of
             BeginFails e \<Rightarrow> (db, StepErr e)
           | _ \<Rightarrow>
               (case up (db_data db) of
                  Inr e \<Rightarrow> (db, StepErr e)
                | Inl d \<Rightarrow>
                    (case flt of
                       StampFails e \<Rightarrow> (db, StepErr (Wrap ''stamp user_version: '' e []))
                     | CommitFails e \<Rightarrow> (db, StepErr e)
                     | Crash \<Rightarrow> (db, Crashed)
                     | _ \<Rightarrow> (\<lparr>db_version = i + 1, db_data = d\<rparr>, StepDone)))))"

text \<open>The verb \<open>%q\<close>; bytes beyond ASCII are kept, as those of printable runes are.\<close>

definition quote_char :: "char \<Rightarrow> string" where
  "quote_char c =
     (let n = of_char c :: nat; esc = (\<lambda>x. [CHR 0x5C, x])
      in if c = CHR 0x22 \<or> c = CHR 0x5C then esc c
         else if n = 7 then esc CHR ''a'' else if n = 8 then esc CHR ''b'' else if n = 9 then esc CHR ''t''
         else if n = 10 then esc CHR ''n'' else if n = 11 then esc CHR ''v'' else if n = 12 then esc CHR ''f''
         else if n = 13 then esc CHR ''r''
         else if n < 32 \<or> n = 127 then esc CHR ''x'' @ hex_encode [c]
         else [c])"

definition quoted :: "string \<Rightarrow> string" where
  "quoted s = CHR 0x22 # concat (map quote_char s) @ [CHR 0x22]"

fun migrate_from :: "'d migration list \<Rightarrow> nat \<Rightarrow> fault list \<Rightarrow> 'd database \<Rightarrow> 'd database \<times> step_end" where
  "migrate_from [] i flts db = (db, StepDone)"
| "migrate_from (m # ms) i flts db =
     (case applyStep db i m (case flts of [] \<Rightarrow> NoFault | f # _ \<Rightarrow> f) of
        (db', StepDone) \<Rightarrow> migrate_from ms (i + 1) (tl flts) db'
      | (db', StepErr e) \<Rightarrow>
          (db', StepErr (Wrap (''migration '' @ itoa (int i + 1) @ '' (index '' @ itoa (int i) @ '', '' @ quoted (mg_Name m) @ ''): '') e []))
      | (db', Crashed) \<Rightarrow> (db', Crashed))"

definition Migrate :: "gerr option \<Rightarrow> 'd migration list \<Rightarrow> fault list \<Rightarrow> 'd database \<Rightarrow> 'd database \<times> step_end" where
  "Migrate read_err ms flts db =
     (case read_err of
        Some e \<Rightarrow> (db, StepErr (Wrap ''read user_version: '' e []))
      | None \<Rightarrow>
          if db_version db > length ms
          then (db, StepErr (Wrap [] (Sentinel ErrSchemaFromTheFuture)
            ('': database is at version '' @ itoa (int (db_version db)) @ '', this build knows '' @ itoa (int (length ms)) @ '' migrations'')))
          else migrate_from (drop (db_version db) ms) (db_version db) flts db)"

section \<open>Queries\<close>

record 'r rows =
  rw_rows :: "'r list"
  rw_err :: "gerr option"

fun each_row :: "('r \<Rightarrow> 's \<Rightarrow> 's \<times> gerr option) \<Rightarrow> 'r list \<Rightarrow> 's \<Rightarrow> 's \<times> gerr option" where
  "each_row fn [] s = (s, None)"
| "each_row fn (r # rs) s = (case fn r s of (s', Some e) \<Rightarrow> (s', Some e) | (s', None) \<Rightarrow> each_row fn rs s')"

text \<open>The state \<open>'s\<close> is what the callback closes over.\<close>

definition Each :: "gerr + 'r rows \<Rightarrow> ('r \<Rightarrow> 's \<Rightarrow> 's \<times> gerr option) \<Rightarrow> 's \<Rightarrow> 's \<times> gerr option" where
  "Each q fn s =
     (case q of
        Inl e \<Rightarrow> (s, Some e)
      | Inr rows \<Rightarrow> (case each_row fn (rw_rows rows) s of (s', Some e) \<Rightarrow> (s', Some e) | (s', None) \<Rightarrow> (s', rw_err rows)))"

definition Query_all :: "gerr + 'r rows \<Rightarrow> ('r \<Rightarrow> gerr + 't) \<Rightarrow> gerr + 't list" where
  "Query_all q scan =
     (case Each q (\<lambda>r out. case scan r of Inl e \<Rightarrow> (out, Some e) | Inr v \<Rightarrow> (out @ [v], None)) [] of
        (_, Some e) \<Rightarrow> Inl e
      | (out, None) \<Rightarrow> Inr out)"

definition ErrNoRows :: string where "ErrNoRows = ''sql: no rows in result set''"

definition QueryOne :: "gerr + 'r rows \<Rightarrow> ('r \<Rightarrow> gerr + 't) \<Rightarrow> gerr + 't" where
  "QueryOne q scan =
     (case Each q (\<lambda>r out. case out of Some _ \<Rightarrow> (out, None)
           | None \<Rightarrow> (case scan r of Inl e \<Rightarrow> (out, Some e) | Inr v \<Rightarrow> (Some v, None))) None of
        (_, Some e) \<Rightarrow> Inl e
      | (None, None) \<Rightarrow> Inl (Sentinel ErrNoRows)
      | (Some v, None) \<Rightarrow> Inr v)"

section \<open>Statements\<close>

definition Placeholders :: "int \<Rightarrow> string" where
  "Placeholders n = (if n \<le> 0 then [] else concat (replicate (nat (n - 1)) ''?, '') @ ''?'')"

definition CheckAffected :: "gerr + int \<Rightarrow> gerr option" where
  "CheckAffected res =
     (case res of
        Inl e \<Rightarrow> Some (Wrap ''rows affected: '' e [])
      | Inr n \<Rightarrow> if n = 0 then Some (Sentinel ErrNotFound) else None)"

definition SnapshotTo :: "(string \<Rightarrow> gerr option) \<Rightarrow> string \<Rightarrow> gerr option" where
  "SnapshotTo vacuum_into dst = map_option (\<lambda>e. Wrap ''snapshot database: '' e []) (vacuum_into dst)"

section \<open>Open\<close>

definition dsn :: "string \<Rightarrow> bool \<Rightarrow> string" where
  "dsn path memory =
     (let pragmas = [''_pragma=busy_timeout(5000)'', ''_pragma=foreign_keys(1)'', ''_pragma=synchronous(NORMAL)'',
                     ''_pragma=cache_size(-8000)'', ''_pragma=temp_store(memory)'']
      in if memory then ''file::memory:?'' @ join_with ''&'' pragmas
         else ''file:'' @ path @ ''?'' @ join_with ''&'' (pragmas @ [''_pragma=journal_mode(WAL)'']))"

record handle =
  hd_dsn :: string
  hd_open :: bool
  hd_conns :: int        \<comment> \<open>MaxOpenConns, 0 for no limit\<close>
  hd_idle :: int
  hd_idle_time :: duration

text \<open>The outcomes of MkdirAll, sql.Open, Ping and the migration (None: no migrate function).\<close>

definition Open :: "string \<Rightarrow> gerr option \<Rightarrow> gerr option \<Rightarrow> gerr option \<Rightarrow> gerr option option \<Rightarrow> (gerr + handle) \<times> handle option" where
  "Open path mkdir opens ping migrate =
     (if trim_space path = []
      then (Inl (Text (''sqlitex: database path is empty (use '' @ [CHR 0x22] @ '':memory:'' @ [CHR 0x22] @ '' for a non-persistent database)'')), None)
      else
        let memory = (path = '':memory:'') in
        case (if memory then None else mkdir) of
          Some e \<Rightarrow> (Inl (Wrap ''create data directory: '' e []), None)
        | None \<Rightarrow>
            (case opens of
               Some e \<Rightarrow> (Inl (Wrap ''open database: '' e []), None)
             | None \<Rightarrow>
                 let db = \<lparr>hd_dsn = dsn path memory, hd_open = True, hd_conns = 0, hd_idle = 2, hd_idle_time = 0\<rparr> in
                 (case ping of
                    Some e \<Rightarrow> (Inl (Wrap ''open database: '' e []), Some (db\<lparr>hd_open := False\<rparr>))
                  | None \<Rightarrow>
                      let db1 = (if memory then db\<lparr>hd_conns := 1\<rparr>
                                 else db\<lparr>hd_conns := 4, hd_idle := 2, hd_idle_time := 5 * minute\<rparr>)
                      in (case migrate of
                            Some (Some e) \<Rightarrow> (Inl (Wrap ''migrate schema: '' e []), Some (db1\<lparr>hd_open := False\<rparr>))
                          | _ \<Rightarrow> (Inr db1, Some db1)))))"

section \<open>Lemmas\<close>

text \<open>The contents after the first \<open>k\<close> steps: the specification of the runner. None: one of them fails.\<close>

fun steps_upto :: "'d migration list \<Rightarrow> 'd \<Rightarrow> 'd option" where
  "steps_upto [] d = Some d"
| "steps_upto (m # ms) d = (case mg_Up m of None \<Rightarrow> None | Some up \<Rightarrow> (case up d of Inl d' \<Rightarrow> steps_upto ms d' | Inr _ \<Rightarrow> None))"

lemma steps_upto_append: "steps_upto (a @ b) d = Option.bind (steps_upto a d) (steps_upto b)"
  by (induction a arbitrary: d) (auto split: option.split sum.split)

lemma applyStep_cases:
  "applyStep db i m flt = (db', r) \<Longrightarrow>
   (r = StepDone \<and> db_version db' = Suc i \<and> steps_upto [m] (db_data db) = Some (db_data db')) \<or> (r \<noteq> StepDone \<and> db' = db)"
  by (auto simp: applyStep_def split: option.splits sum.splits fault.splits)

lemma applyStep_no_fault:
  "steps_upto [m] (db_data db) = Some d \<Longrightarrow> applyStep db i m NoFault = (\<lparr>db_version = Suc i, db_data = d\<rparr>, StepDone)"
  by (auto simp: applyStep_def split: option.splits sum.splits)

lemma migrate_from_prefix:
  assumes "migrate_from ms i flts db = (db', r)" and "db_version db = i"
  shows "\<exists>k. db_version db' = i + k \<and> k \<le> length ms \<and> steps_upto (take k ms) (db_data db) = Some (db_data db') \<and>
    (r = StepDone \<longleftrightarrow> k = length ms)"
  using assms
proof (induction ms arbitrary: i flts db)
  case (Cons m ms)
  obtain db1 r1 where s: "applyStep db i m (case flts of [] \<Rightarrow> NoFault | f # _ \<Rightarrow> f) = (db1, r1)"
    by (cases "applyStep db i m (case flts of [] \<Rightarrow> NoFault | f # _ \<Rightarrow> f)")
  show ?case
  proof (cases "r1 = StepDone")
    case True
    then have one: "db_version db1 = Suc i" "steps_upto [m] (db_data db) = Some (db_data db1)"
      using applyStep_cases [OF s] by auto
    with Cons.IH [of "Suc i" "tl flts" db1] Cons.prems s True obtain k where
      k: "db_version db' = Suc i + k" "k \<le> length ms" "steps_upto (take k ms) (db_data db1) = Some (db_data db')"
        "r = StepDone \<longleftrightarrow> k = length ms" by auto
    have "steps_upto (take (Suc k) (m # ms)) (db_data db) = Some (db_data db')"
      using one(2) k(3) steps_upto_append [of "[m]" "take k ms"] by simp
    with k show ?thesis by (intro exI [of _ "Suc k"]) auto
  next
    case False
    then have "db1 = db" using applyStep_cases [OF s] by auto
    with Cons.prems s False show ?thesis by (intro exI [of _ 0]) (auto split: step_end.splits)
  qed
qed simp

lemma migrate_from_complete:
  "steps_upto ms (db_data db) = Some d \<Longrightarrow> db_version db = i \<Longrightarrow>
   migrate_from ms i [] db = (\<lparr>db_version = i + length ms, db_data = d\<rparr>, StepDone)"
proof (induction ms arbitrary: i db)
  case (Cons m ms)
  obtain d1 where d1: "steps_upto [m] (db_data db) = Some d1" "steps_upto ms d1 = Some d"
    using Cons.prems(1) by (auto split: option.splits sum.splits)
  with Cons.IH [of "\<lparr>db_version = Suc i, db_data = d1\<rparr>" "Suc i"] Cons.prems(2) applyStep_no_fault [OF d1(1), of i]
  show ?case by simp
qed simp

lemma Migrate_version:
  "Migrate None ms flts db = (db', r) \<Longrightarrow> db_version db \<le> length ms \<Longrightarrow>
   migrate_from (drop (db_version db) ms) (db_version db) flts db = (db', r)"
  by (simp add: Migrate_def)

text \<open>A database some runs of the migrator made of \<open>d0\<close>.\<close>

definition at_step :: "'d migration list \<Rightarrow> 'd \<Rightarrow> 'd database \<Rightarrow> bool" where
  "at_step ms d0 db \<longleftrightarrow> db_version db \<le> length ms \<and> steps_upto (take (db_version db) ms) d0 = Some (db_data db)"

lemma at_step_Migrate:
  assumes "at_step ms d0 db" and "Migrate re ms flts db = (db', r)"
  shows "at_step ms d0 db' \<and> db_version db \<le> db_version db' \<and> (r = StepDone \<longrightarrow> db_version db' = length ms)"
proof (cases re)
  case None
  have v: "db_version db \<le> length ms" using assms(1) by (simp add: at_step_def)
  obtain k where k: "db_version db' = db_version db + k" "k \<le> length (drop (db_version db) ms)"
    "steps_upto (take k (drop (db_version db) ms)) (db_data db) = Some (db_data db')"
    "r = StepDone \<longleftrightarrow> k = length (drop (db_version db) ms)"
    using migrate_from_prefix [OF Migrate_version] assms(2) None v by (metis (no_types))
  have "take (db_version db') ms = take (db_version db) ms @ take k (drop (db_version db) ms)"
    by (simp add: k(1) take_add)
  with k assms(1) v show ?thesis by (auto simp: at_step_def steps_upto_append)
next
  case (Some e)
  with assms show ?thesis by (auto simp: Migrate_def)
qed

fun migrate_runs :: "'d migration list \<Rightarrow> (gerr option \<times> fault list) list \<Rightarrow> 'd database \<Rightarrow> 'd database" where
  "migrate_runs ms [] db = db"
| "migrate_runs ms ((re, flts) # runs) db = migrate_runs ms runs (fst (Migrate re ms flts db))"

lemma at_step_runs: "at_step ms d0 db \<Longrightarrow> at_step ms d0 (migrate_runs ms runs db)"
proof (induction runs arbitrary: db)
  case (Cons run runs)
  obtain re flts where "run = (re, flts)" by force
  with Cons show ?case using at_step_Migrate [OF Cons.prems, of re flts "fst (Migrate re ms flts db)"] by (cases "Migrate re ms flts db") simp
qed simp

lemma each_row_query:
  "each_row (\<lambda>r out. case scan r of Inl e \<Rightarrow> (out, Some e) | Inr v \<Rightarrow> (out @ [v], None)) rs acc = (acc', None) \<longleftrightarrow>
   (\<exists>vs. map scan rs = map Inr vs \<and> acc' = acc @ vs)"
proof (induction rs arbitrary: acc)
  case (Cons r rs)
  show ?case
  proof (cases "scan r")
    case (Inr v)
    then show ?thesis using Cons [of "acc @ [v]"] by (auto simp: Cons_eq_map_conv)
  qed (auto simp: Cons_eq_map_conv)
qed auto

text \<open>Every connection string carries the pragmas; a database that could not be set up is closed; an
  in-memory one has a single connection.\<close>

lemma Open_outcome:
  "Open path mkdir opens ping migrate = (res, h) \<Longrightarrow>
   (case res of
      Inl _ \<Rightarrow> h = None \<or> (\<exists>x. h = Some x \<and> \<not> hd_open x)
    | Inr x \<Rightarrow> h = Some x \<and> hd_open x \<and> trim_space path \<noteq> [] \<and> hd_dsn x = dsn path (path = '':memory:'') \<and>
        hd_conns x = (if path = '':memory:'' then 1 else 4) \<and> (\<forall>e. migrate \<noteq> Some (Some e)))"
  by (auto simp: Open_def Let_def split: if_splits option.splits)

lemma dsn_pragmas: "contains_sub (dsn path memory) ''_pragma=foreign_keys(1)''"
  unfolding contains_sub_iff
proof (cases memory)
  case True
  have "dsn path memory = (''file::memory:?'' @ ''_pragma=busy_timeout(5000)&'') @ ''_pragma=foreign_keys(1)'' @
      ''&_pragma=synchronous(NORMAL)&_pragma=cache_size(-8000)&_pragma=temp_store(memory)''"
    using True by (simp add: dsn_def Let_def)
  then show "\<exists>a b. dsn path memory = a @ ''_pragma=foreign_keys(1)'' @ b" by blast
next
  case False
  have "dsn path memory = (''file:'' @ path @ ''?_pragma=busy_timeout(5000)&'') @ ''_pragma=foreign_keys(1)'' @
      ''&_pragma=synchronous(NORMAL)&_pragma=cache_size(-8000)&_pragma=temp_store(memory)&_pragma=journal_mode(WAL)''"
    using False by (simp add: dsn_def Let_def)
  then show "\<exists>a b. dsn path memory = a @ ''_pragma=foreign_keys(1)'' @ b" by blast
qed

section \<open>Properties\<close>

text \<open>
  C29: the runner implements "apply every step once, in order": after any number of runs, whatever
  failed or crashed in them, the contents are those after exactly the first k steps, k the version
  stamped; the version never falls; one run without faults completes the list, whenever its steps
  can; and a database with a version beyond the list is refused untouched.
\<close>

theorem migrate_refines:
  fixes ms :: "'d migration list" and d0 :: 'd
  defines "db runs \<equiv> migrate_runs ms runs \<lparr>db_version = 0, db_data = d0\<rparr>"
  shows "steps_upto (take (db_version (db runs)) ms) d0 = Some (db_data (db runs)) \<and>
    db_version (db runs) \<le> db_version (fst (Migrate re ms flts (db runs))) \<and>
    (steps_upto ms d0 = Some d \<longrightarrow> Migrate None ms [] (db runs) = (\<lparr>db_version = length ms, db_data = d\<rparr>, StepDone)) \<and>
    (length ms < db_version x \<longrightarrow> (\<exists>e. Migrate None ms flts x = (x, StepErr e) \<and> errors_is e ErrSchemaFromTheFuture))"
proof (intro conjI impI)
  have start: "at_step ms d0 (db runs)"
    unfolding db_def by (rule at_step_runs) (simp add: at_step_def)
  then have v: "db_version (db runs) \<le> length ms" and s: "steps_upto (take (db_version (db runs)) ms) d0 = Some (db_data (db runs))"
    by (simp_all add: at_step_def)
  show "steps_upto (take (db_version (db runs)) ms) d0 = Some (db_data (db runs))" by (rule s)
  show "db_version (db runs) \<le> db_version (fst (Migrate re ms flts (db runs)))"
    using at_step_Migrate [OF start, of re flts] by (cases "Migrate re ms flts (db runs)") simp
  assume "steps_upto ms d0 = Some d"
  then have "Option.bind (steps_upto (take (db_version (db runs)) ms) d0) (steps_upto (drop (db_version (db runs)) ms)) = Some d"
    using steps_upto_append [of "take (db_version (db runs)) ms" "drop (db_version (db runs)) ms" d0] by simp
  then have "steps_upto (drop (db_version (db runs)) ms) (db_data (db runs)) = Some d" by (simp add: s)
  from migrate_from_complete [OF this refl] v
  show "Migrate None ms [] (db runs) = (\<lparr>db_version = length ms, db_data = d\<rparr>, StepDone)"
    by (simp add: Migrate_def)
next
  assume "length ms < db_version x"
  then show "\<exists>e. Migrate None ms flts x = (x, StepErr e) \<and> errors_is e ErrSchemaFromTheFuture" by (simp add: Migrate_def)
qed

text \<open>Two steps, a crash in the second, and a second run.\<close>

theorem migrate_refines_witness:
  "let ms = [\<lparr>mg_Name = ''a'', mg_Up = Some (\<lambda>l. Inl (l @ [1 :: nat]))\<rparr>, \<lparr>mg_Name = ''b'', mg_Up = Some (\<lambda>l. Inl (l @ [2]))\<rparr>];
       db = migrate_runs ms [(None, [NoFault, Crash])] \<lparr>db_version = 0, db_data = []\<rparr>
   in db = \<lparr>db_version = 1, db_data = [1]\<rparr> \<and> Migrate None ms [] db = (\<lparr>db_version = 2, db_data = [1, 2]\<rparr>, StepDone)"
proof -
  let ?ms = "[\<lparr>mg_Name = ''a'', mg_Up = Some (\<lambda>l. Inl (l @ [1 :: nat]))\<rparr>, \<lparr>mg_Name = ''b'', mg_Up = Some (\<lambda>l. Inl (l @ [2]))\<rparr>]"
  have "migrate_runs ?ms [(None, [NoFault, Crash])] \<lparr>db_version = 0, db_data = []\<rparr> = \<lparr>db_version = 1, db_data = [1]\<rparr>"
    by (simp add: Migrate_def applyStep_def)
  then show ?thesis
    using migrate_refines [of ?ms "[(None, [NoFault, Crash])]" "[]" None "[]" "[1, 2]"] by (simp add: Let_def)
qed

text \<open>
  A result set cut short never reads as a complete one: \<open>Query\<close> answers a list exactly when the
  query ran, every row scanned and the iteration ended without an error, and it is all of them in
  order; \<open>QueryOne\<close> answers the first row under the same conditions, and \<open>ErrNoRows\<close> for none.
\<close>

theorem query_complete:
  "(Query_all q scan = Inr vs \<longleftrightarrow>
      (\<exists>rows. q = Inr rows \<and> rw_err rows = None \<and> map scan (rw_rows rows) = map Inr vs)) \<and>
   (QueryOne q scan = Inr v \<longleftrightarrow>
      (\<exists>rows r rs. q = Inr rows \<and> rw_err rows = None \<and> rw_rows rows = r # rs \<and> scan r = Inr v)) \<and>
   (q = Inr \<lparr>rw_rows = [], rw_err = None\<rparr> \<longrightarrow> QueryOne q scan = Inl (Sentinel ErrNoRows))"
proof (intro conjI)
  let ?fn = "\<lambda>r out. case scan r of Inl e \<Rightarrow> (out, Some e) | Inr v \<Rightarrow> (out @ [v], None)"
  show "Query_all q scan = Inr vs \<longleftrightarrow> (\<exists>rows. q = Inr rows \<and> rw_err rows = None \<and> map scan (rw_rows rows) = map Inr vs)"
  proof (cases q)
    case (Inr rows)
    obtain acc r where e: "each_row ?fn (rw_rows rows) [] = (acc, r)" by force
    show ?thesis
      using each_row_query [of scan "rw_rows rows" "[]"] e
      by (auto simp: Query_all_def Each_def Inr split: option.splits)
  qed (simp add: Query_all_def Each_def)
  let ?one = "\<lambda>r out. case out of Some _ \<Rightarrow> (out, None) | None \<Rightarrow> (case scan r of Inl e \<Rightarrow> (out, Some e) | Inr v \<Rightarrow> (Some v, None))"
  have later: "each_row ?one rs (Some w) = (Some w, None)" for rs w by (induction rs) simp_all
  show "QueryOne q scan = Inr v \<longleftrightarrow>
      (\<exists>rows r rs. q = Inr rows \<and> rw_err rows = None \<and> rw_rows rows = r # rs \<and> scan r = Inr v)"
  proof (cases q)
    case (Inr rows)
    then show ?thesis
      by (cases "rw_rows rows") (auto simp: QueryOne_def Each_def later split: option.splits sum.splits)
  qed (simp add: QueryOne_def Each_def)
  show "q = Inr \<lparr>rw_rows = [], rw_err = None\<rparr> \<longrightarrow> QueryOne q scan = Inl (Sentinel ErrNoRows)"
    by (simp add: QueryOne_def Each_def)
qed

theorem query_complete_witness:
  "Query_all (Inr \<lparr>rw_rows = [1, 2 :: int], rw_err = None\<rparr>) Inr = Inr [1, 2] \<and>
   (\<forall>vs. Query_all (Inr \<lparr>rw_rows = [1 :: int], rw_err = Some (Text ''cut'')\<rparr>) Inr \<noteq> Inr vs) \<and>
   QueryOne (Inr \<lparr>rw_rows = [], rw_err = None\<rparr>) (Inr :: int \<Rightarrow> gerr + int) = Inl (Sentinel ErrNoRows)"
proof -
  have "Query_all (Inr \<lparr>rw_rows = [1, 2 :: int], rw_err = None\<rparr>) Inr = Inr [1, 2]"
    using query_complete [of "Inr \<lparr>rw_rows = [1, 2 :: int], rw_err = None\<rparr>" Inr "[1, 2]"] by simp
  moreover have "Query_all (Inr \<lparr>rw_rows = [1 :: int], rw_err = Some (Text ''cut'')\<rparr>) Inr \<noteq> Inr vs" for vs
    using query_complete [of "Inr \<lparr>rw_rows = [1 :: int], rw_err = Some (Text ''cut'')\<rparr>" Inr vs] by simp
  moreover have "QueryOne (Inr \<lparr>rw_rows = [], rw_err = None\<rparr>) (Inr :: int \<Rightarrow> gerr + int) = Inl (Sentinel ErrNoRows)"
    using query_complete [of "Inr \<lparr>rw_rows = [], rw_err = None\<rparr>" "Inr :: int \<Rightarrow> gerr + int"] by simp
  ultimately show ?thesis by blast
qed

end
