(* ===== verification/FiberX.thy ===== *)
theory FiberX
  imports Fault Token Strconv
begin

text \<open>
  fiberx: the error envelope (errors.go), the metrics and log middleware (middleware.go), request
  validation (validation.go), rate limits (ratelimit.go), path parameters (params.go) and
  conditional requests (concurrency.go, etag.go).

  Fiber is what a handler reads, given as arguments, and the response it writes. A status of 0
  leaves fasthttp's default in place, so it crosses the wire as 200 (\<open>wire\<close>). The validator of
  go-playground, the body parser and SHA-256 are parameters. The middleware is modelled as the two
  ends of a request, so that requests can overlap.
\<close>

section \<open>The error envelope\<close>

type_synonym field_error = "string \<times> string \<times> string"  \<comment> \<open>field, code, message\<close>

record api_error =
  ae_Status :: int
  ae_Message :: string
  ae_Code :: string
  ae_Fields :: "field_error list"

record errors =
  er_Mapper :: "(gerr \<Rightarrow> (int \<times> string \<times> string) option) option"  \<comment> \<open>None of the answer: ok is false\<close>
  er_QuietPath :: "(string \<Rightarrow> bool) option"

definition NewErrors :: "(gerr \<Rightarrow> (int \<times> string \<times> string) option) option \<Rightarrow> errors" where
  "NewErrors m = \<lparr>er_Mapper = m, er_QuietPath = None\<rparr>"

record response =
  rs_status :: int
  rs_error :: string
  rs_code :: string
  rs_fields :: "field_error list"

datatype level = LInfo | LWarn | LError

definition wire :: "int \<Rightarrow> int" where
  "wire st = (if st = 0 then 200 else st)"

definition respond :: "int \<Rightarrow> string \<Rightarrow> string \<Rightarrow> field_error list \<Rightarrow> response" where
  "respond st m c fs = \<lparr>rs_status = wire st, rs_error = m, rs_code = c, rs_fields = fs\<rparr>"

text \<open>An \<open>*APIError\<close> as an error value: its \<open>Unwrap\<close> is a \<open>*fiber.Error\<close>.\<close>

definition api_err :: "api_error \<Rightarrow> gerr" where
  "api_err e = EnvErr (ae_Status e) (ae_Message e) (ae_Code e) (ae_Fields e) (FiberErr (ae_Status e) (ae_Message e))"

definition as_APIError :: "gerr \<Rightarrow> api_error option" where
  "as_APIError err = map_option (\<lambda>(st, m, c, fs). \<lparr>ae_Status = st, ae_Message = m, ae_Code = c, ae_Fields = fs\<rparr>)
     (errors_as as_env err)"

definition CodeForStatus :: "int \<Rightarrow> string" where
  "CodeForStatus status =
     (if status = 400 then ''bad_request''
      else if status = 401 then ''unauthorized''
      else if status = 403 then ''forbidden''
      else if status = 404 then ''not_found''
      else if status = 409 then ''conflict''
      else if status = 412 then ''precondition_failed''
      else if status = 415 then ''unsupported_media_type''
      else if status = 422 then ''unprocessable_entity''
      else if status = 429 then ''rate_limited''
      else if status = 501 then ''not_implemented''
      else if status = 502 then ''bad_gateway''
      else if status = 503 then ''unavailable''
      else if status \<ge> 500 then ''internal'' else ''error'')"

definition normalized :: "api_error \<Rightarrow> api_error" where
  "normalized e =
     (let e1 = (if ae_Status e = 0 then e\<lparr>ae_Status := 500\<rparr> else e)
      in if ae_Code e1 = [] then e1\<lparr>ae_Code := CodeForStatus (ae_Status e1)\<rparr> else e1)"

definition stdMapper :: "gerr \<Rightarrow> (int \<times> string \<times> string) option" where
  "stdMapper err =
     (if errors_is err ErrNotFound then Some (404, ''not found'', ''not_found'')
      else if errors_is err ErrInvalidInput then Some (400, ''invalid input'', ''invalid_input'')
      else if errors_is err ErrConflict then Some (409, ''conflict'', ''conflict'')
      else None)"

definition ask_mapper :: "errors \<Rightarrow> gerr \<Rightarrow> (int \<times> string \<times> string) option" where
  "ask_mapper e err = (case er_Mapper e of None \<Rightarrow> None | Some m \<Rightarrow> m err)"

definition mapError :: "errors \<Rightarrow> gerr \<Rightarrow> int \<times> string \<times> string" where
  "mapError e err =
     (case errors_as as_fiber err of
        Some (c, m) \<Rightarrow> (c, m, CodeForStatus c)
      | None \<Rightarrow>
          (case ask_mapper e err of
             Some r \<Rightarrow> r
           | None \<Rightarrow>
               (case stdMapper err of
                  Some r \<Rightarrow> r
                | None \<Rightarrow> (500, ''internal server error'', ''internal''))))"

definition StatusForError :: "errors \<Rightarrow> gerr \<Rightarrow> int" where
  "StatusForError e err =
     (case as_APIError err of
        Some ae \<Rightarrow> ae_Status (normalized ae)
      | None \<Rightarrow>
          (case errors_as as_fiber err of
             Some (c, m) \<Rightarrow> c
           | None \<Rightarrow> fst (mapError e err)))"

text \<open>The "why" line of a failure: its level, the status and the cause.\<close>

definition logCause :: "int \<Rightarrow> gerr option \<Rightarrow> (level \<times> int \<times> gerr) list" where
  "logCause status cause =
     (case cause of None \<Rightarrow> [] | Some c \<Rightarrow> [(if status \<ge> 500 then LError else LWarn, status, c)])"

definition WriteError :: "errors \<Rightarrow> gerr \<Rightarrow> response \<times> (level \<times> int \<times> gerr) list" where
  "WriteError e err =
     (case as_APIError err of
        Some ae \<Rightarrow>
          (respond (ae_Status ae) (ae_Message ae) (ae_Code ae) (ae_Fields ae), logCause (ae_Status ae) (Some err))
      | None \<Rightarrow>
          (case mapError e err of (status, msg, code) \<Rightarrow> (respond status msg code [], logCause status (Some err))))"

definition Render :: "errors \<Rightarrow> gerr \<Rightarrow> response \<times> (level \<times> int \<times> gerr) list" where
  "Render e err =
     (case as_APIError err of
        Some ae \<Rightarrow>
          (let out = normalized ae in (respond (ae_Status out) (ae_Message out) (ae_Code out) (ae_Fields out), []))
      | None \<Rightarrow>
          (case errors_as as_fiber err of
             Some (c, m) \<Rightarrow> (respond c m (CodeForStatus c) [], [])
           | None \<Rightarrow> WriteError e err))"

definition Fail :: "int \<Rightarrow> string \<Rightarrow> gerr option \<Rightarrow> gerr \<times> (level \<times> int \<times> gerr) list" where
  "Fail status public cause = (FiberErr status public, logCause status cause)"

section \<open>Metrics and the request log\<close>

definition requestMethod :: "string \<Rightarrow> string" where
  "requestMethod m =
     (if m \<in> {''GET'', ''HEAD'', ''POST'', ''PUT'', ''PATCH'', ''DELETE'', ''CONNECT'', ''OPTIONS'', ''TRACE''}
      then m else ''_OTHER'')"

definition skipLog :: "errors \<Rightarrow> string \<Rightarrow> int \<Rightarrow> bool" where
  "skipLog e path status =
     (if status \<ge> 400 then False
      else if status = 304 \<or> status = 101 then True
      else case er_QuietPath e of None \<Rightarrow> False | Some q \<Rightarrow> q path)"

definition log_level :: "int \<Rightarrow> level" where
  "log_level status = (if status \<ge> 500 then LError else if status \<ge> 400 then LWarn else LInfo)"

text \<open>The two instruments, active requests and durations by their attributes (the measured times are
  left out), and the summary lines; the newest entry comes last.\<close>

record instruments =
  hm_active :: "string \<times> string \<Rightarrow> int"
  hm_recorded :: "(string \<times> string \<times> string \<times> int) list"  \<comment> \<open>method, scheme, route, status\<close>
  hm_lines :: "(level \<times> string \<times> string \<times> int) list"

text \<open>What the rest of the chain does: it returns, with an error or nil, having matched a route and set
  a status, or it panics.\<close>

datatype chain_end = Returns "gerr option" string int | Panics

definition active_add :: "string \<times> string \<Rightarrow> int \<Rightarrow> instruments \<Rightarrow> instruments" where
  "active_add k d m = m\<lparr>hm_active := (hm_active m)(k := hm_active m k + d)\<rparr>"

definition observed :: "errors \<Rightarrow> gerr option \<Rightarrow> int \<Rightarrow> int" where
  "observed e err st = (case err of None \<Rightarrow> st | Some x \<Rightarrow> StatusForError e x)"

text \<open>The handler up to \<open>c.Next()\<close>, and from there on with its deferred decrement.\<close>

definition mw_begin :: "string \<Rightarrow> string \<Rightarrow> instruments \<Rightarrow> instruments" where
  "mw_begin method scheme m = active_add (requestMethod method, scheme) 1 m"

definition mw_summary :: "errors \<Rightarrow> string \<Rightarrow> string \<Rightarrow> gerr option \<Rightarrow> string \<Rightarrow> int \<Rightarrow> instruments \<Rightarrow> instruments" where
  "mw_summary e method scheme err path st m =
     (let status = observed e err st;
          m1 = m\<lparr>hm_recorded := hm_recorded m @ [(requestMethod method, scheme, path, status)]\<rparr>
      in if skipLog e path status then m1
         else m1\<lparr>hm_lines := hm_lines m1 @ [(log_level status, method, path, status)]\<rparr>)"

definition mw_end :: "errors \<Rightarrow> string \<Rightarrow> string \<Rightarrow> chain_end \<Rightarrow> instruments \<Rightarrow> instruments" where
  "mw_end e method scheme out m =
     active_add (requestMethod method, scheme) (- 1)
       (case out of Returns err path st \<Rightarrow> mw_summary e method scheme err path st m | Panics \<Rightarrow> m)"

text \<open>What the client gets: the status set, or the error that reaches Fiber rendered.\<close>

definition client_status :: "errors \<Rightarrow> gerr option \<Rightarrow> int \<Rightarrow> int" where
  "client_status e err st = (case err of None \<Rightarrow> wire st | Some x \<Rightarrow> rs_status (fst (Render e x)))"

text \<open>A server: the requests in flight and the statuses sent, requests starting and ending in any
  order. A panic passes this middleware on its way to the recover middleware, which newFiber mounts
  above it: recover turns the panic's value into an error \<open>x\<close> (itself when it is one), and the
  client gets that error rendered. The flag of a sent status tells whether the chain returned.\<close>

inductive serving :: "errors \<Rightarrow> instruments \<Rightarrow> (nat \<Rightarrow> (string \<times> string) option) \<Rightarrow> (bool \<times> int) list \<Rightarrow> bool" for e where
  up: "serving e \<lparr>hm_active = \<lambda>_. 0, hm_recorded = [], hm_lines = []\<rparr> (\<lambda>_. None) []"
| arrives: "serving e m fl sent \<Longrightarrow> fl p = None \<Longrightarrow>
    serving e (mw_begin method scheme m) (fl(p \<mapsto> (method, scheme))) sent"
| answers: "serving e m fl sent \<Longrightarrow> fl p = Some (method, scheme) \<Longrightarrow>
    serving e (mw_end e method scheme (Returns err path st) m) (fl(p := None)) (sent @ [(True, client_status e err st)])"
| recovers: "serving e m fl sent \<Longrightarrow> fl p = Some (method, scheme) \<Longrightarrow>
    serving e (mw_end e method scheme Panics m) (fl(p := None)) (sent @ [(False, client_status e (Some x) 200)])"

section \<open>Conditional requests\<close>

definition trim_prefix :: "string \<Rightarrow> string \<Rightarrow> string" where
  "trim_prefix s p = (if has_prefix s p then drop (length p) s else s)"

abbreviation quote :: char where "quote \<equiv> CHR 0x22"

definition trim_quotes :: "string \<Rightarrow> string" where
  "trim_quotes s = rev (dropWhile (\<lambda>c. c = quote) (rev (dropWhile (\<lambda>c. c = quote) s)))"

definition ETagForVersion :: "int \<Rightarrow> string" where
  "ETagForVersion version = ''W/'' @ quote # itoa version @ [quote]"

definition stale_write :: gerr where
  "stale_write = FiberErr 412 ''the resource was modified since you loaded it; reload and retry''"

definition CheckIfMatch :: "string \<Rightarrow> int \<Rightarrow> gerr option" where
  "CheckIfMatch if_match currentVersion =
     (let header = trim_space if_match;
          want = itoa currentVersion
      in if header = [] then None
         else if list_ex (\<lambda>cand. let c = trim_space cand in c = ''*'' \<or> trim_quotes (trim_prefix c ''W/'') = want)
                (split_on CHR '','' header)
         then None
         else Some stale_write)"

definition IfMatchVersion :: "string \<Rightarrow> int \<times> bool" where
  "IfMatchVersion if_match =
     (let header = trim_space if_match
      in if header = [] then (0, False)
         else
           let first = trim_space (fst (cut_at CHR '','' header))
           in if first = ''*'' then (0, False)
              else case atoi (trim_quotes (trim_prefix first ''W/'')) of
                     None \<Rightarrow> (- 1, True)
                   | Some v \<Rightarrow> (v, True))"

definition etag_of :: "string \<Rightarrow> string" where
  "etag_of digest = quote # hex_encode (take 16 digest) @ [quote]"

definition ETagForBytes :: "(string \<Rightarrow> string) \<Rightarrow> string \<Rightarrow> string" where
  "ETagForBytes sha256 data = etag_of (sha256 data)"

definition ETagForKey :: "(string \<Rightarrow> string) \<Rightarrow> string list \<Rightarrow> string" where
  "ETagForKey sha256 parts = etag_of (sha256 (join_char (CHR 0x00) parts))"

definition ETagMatches :: "string \<Rightarrow> string \<Rightarrow> bool" where
  "ETagMatches header etag =
     list_ex (\<lambda>cand. let c = trim_space cand in c \<noteq> [] \<and> (c = ''*'' \<or> trim_prefix c ''W/'' = etag))
       (split_on CHR '','' header)"

record etag_reply =
  er_status :: int
  er_ETag :: string
  er_CacheControl :: string
  er_ContentType :: "string option"
  er_body :: string

definition SendWithETag :: "string \<Rightarrow> string \<Rightarrow> string \<Rightarrow> string \<Rightarrow> string \<Rightarrow> etag_reply" where
  "SendWithETag if_none_match etag cacheControl contentType body =
     (if ETagMatches if_none_match etag
      then \<lparr>er_status = 304, er_ETag = etag, er_CacheControl = cacheControl, er_ContentType = None, er_body = []\<rparr>
      else \<lparr>er_status = 200, er_ETag = etag, er_CacheControl = cacheControl, er_ContentType = Some contentType,
             er_body = body\<rparr>)"

section \<open>Path parameters\<close>

definition hex_val :: "char \<Rightarrow> nat option" where
  "hex_val c =
     (let n = byte_of c
      in if 48 \<le> n \<and> n \<le> 57 then Some (n - 48)
         else if 97 \<le> n \<and> n \<le> 102 then Some (n - 87)
         else if 65 \<le> n \<and> n \<le> 70 then Some (n - 55)
         else None)"

text \<open>\<open>url.PathUnescape\<close>.\<close>

fun PathUnescape :: "string \<Rightarrow> string option" where
  "PathUnescape [] = Some []"
| "PathUnescape (c # s) =
     (if c = CHR 0x25
      then (case s of
              h # l # r \<Rightarrow>
                (case (hex_val h, hex_val l) of
                   (Some a, Some b) \<Rightarrow> map_option (Cons (char_of (16 * a + b))) (PathUnescape r)
                 | _ \<Rightarrow> None)
            | _ \<Rightarrow> None)
      else map_option (Cons c) (PathUnescape s))"

definition PathParam :: "string \<Rightarrow> string" where
  "PathParam raw = (case PathUnescape raw of None \<Rightarrow> raw | Some decoded \<Rightarrow> decoded)"

section \<open>Validation\<close>

text \<open>What the validator answers: nil, its list of failing fields with their tags, or another error.\<close>

datatype validation = Valid | Invalid "(string \<times> string) list" | NotValidated string

definition humanizeTag :: "string \<Rightarrow> string" where
  "humanizeTag tag =
     (if tag = ''required'' then ''required''
      else if tag = ''email'' then ''must be a valid email address''
      else if tag = ''min'' then ''value is too short''
      else if tag = ''max'' then ''value is too long''
      else if tag = ''oneof'' then ''must be one of the allowed values''
      else ''invalid value'')"

definition validationError :: "(string \<times> string) list + string \<Rightarrow> api_error" where
  "validationError err =
     (case err of
        Inr text \<Rightarrow> \<lparr>ae_Status = 400, ae_Message = text, ae_Code = ''validation_failed'', ae_Fields = []\<rparr>
      | Inl errs \<Rightarrow>
          \<lparr>ae_Status = 400,
           ae_Message = join_with '', '' (map (\<lambda>(field, tag). field @ '': '' @ humanizeTag tag) errs),
           ae_Code = ''validation_failed'',
           ae_Fields = map (\<lambda>(field, tag). (field, tag, humanizeTag tag)) errs\<rparr>)"

definition BindAndValidate :: "bool \<Rightarrow> validation \<Rightarrow> api_error option" where
  "BindAndValidate bound v =
     (if \<not> bound
      then Some \<lparr>ae_Status = 400, ae_Message = ''invalid request body'', ae_Code = ''invalid_body'', ae_Fields = []\<rparr>
      else case v of
             Valid \<Rightarrow> None
           | Invalid errs \<Rightarrow> Some (validationError (Inl errs))
           | NotValidated text \<Rightarrow> Some (validationError (Inr text)))"

text \<open>The field name \<open>NewValidator\<close> derives from a \<open>json\<close> tag; empty means the Go name.\<close>

definition json_name :: "string \<Rightarrow> string" where
  "json_name tag = (let name = fst (cut_at CHR '','' tag) in if name = ''-'' then [] else name)"

section \<open>Rate limits\<close>

definition clientIP :: "string \<Rightarrow> string \<Rightarrow> string" where
  "clientIP xff ip =
     (if xff \<noteq> []
      then (case cut_at CHR '','' xff of (before, _, found) \<Rightarrow> if found then trim_space before else trim_space xff)
      else ip)"

record limiter =
  lc_Max :: int
  lc_Expiration :: duration
  lc_Key :: "string \<Rightarrow> string \<Rightarrow> string"  \<comment> \<open>X-Forwarded-For, transport peer\<close>

definition RateLimiter :: "int \<Rightarrow> limiter" where
  "RateLimiter maxPerMinute = \<lparr>lc_Max = maxPerMinute, lc_Expiration = minute, lc_Key = clientIP\<rparr>"

definition RateLimiterByPeer :: "int \<Rightarrow> limiter" where
  "RateLimiterByPeer maxPerMinute = \<lparr>lc_Max = maxPerMinute, lc_Expiration = minute, lc_Key = \<lambda>_ ip. ip\<rparr>"

text \<open>The answer to a throttled request and its \<open>Retry-After\<close>.\<close>

definition limitReached :: "response \<times> string" where
  "limitReached = (respond 429 ''rate limit exceeded, please retry shortly'' ''rate_limited'' [], ''60'')"

section \<open>Lemmas\<close>

subsection \<open>Errors\<close>

lemma normalized_sel [simp]:
  "ae_Status (normalized a) = (if ae_Status a = 0 then 500 else ae_Status a)"
  "ae_Message (normalized a) = ae_Message a" "ae_Fields (normalized a) = ae_Fields a"
  "ae_Code (normalized a) = (if ae_Code a = [] then CodeForStatus (ae_Status (normalized a)) else ae_Code a)"
  by (simp_all add: normalized_def Let_def)

lemma CodeForStatus_nonempty [simp]: "CodeForStatus st \<noteq> []" "[] \<noteq> CodeForStatus st"
  by (simp_all add: CodeForStatus_def)

lemma rs_status_respond [simp]: "rs_status (respond st m c fs) = wire st"
  by (simp add: respond_def)

lemma respond_eq: "respond st m c fs = respond st' m' c' fs' \<longleftrightarrow> wire st = wire st' \<and> m = m' \<and> c = c' \<and> fs = fs'"
  by (simp add: respond_def)

lemma as_APIError_api_err [simp]: "as_APIError (api_err a) = Some a"
  by (simp add: as_APIError_def api_err_def errors_as_def)

lemma Render_status: "rs_status (fst (Render e err)) = wire (StatusForError e err)"
  by (auto simp: Render_def StatusForError_def WriteError_def Let_def split: option.split prod.split)

subsection \<open>Requests in flight\<close>

definition in_flight :: "(nat \<Rightarrow> (string \<times> string) option) \<Rightarrow> string \<times> string \<Rightarrow> nat set" where
  "in_flight fl k = {p. \<exists>method scheme. fl p = Some (method, scheme) \<and> (requestMethod method, scheme) = k}"

lemma in_flight_begin:
  "fl p = None \<Longrightarrow> in_flight (fl(p \<mapsto> (method, scheme))) k =
     (if (requestMethod method, scheme) = k then insert p (in_flight fl k) else in_flight fl k)"
  by (auto simp: in_flight_def)

lemma in_flight_end:
  "fl p = Some (method, scheme) \<Longrightarrow> in_flight (fl(p := None)) k =
     (if (requestMethod method, scheme) = k then in_flight fl k - {p} else in_flight fl k)"
  by (auto simp: in_flight_def)

lemma active_add_sel [simp]:
  "hm_active (active_add k d m) = (hm_active m)(k := hm_active m k + d)"
  "hm_recorded (active_add k d m) = hm_recorded m" "hm_lines (active_add k d m) = hm_lines m"
  by (simp_all add: active_add_def)

lemma mw_summary_sel [simp]:
  "hm_active (mw_summary e method scheme err path st m) = hm_active m"
  "hm_recorded (mw_summary e method scheme err path st m) =
     hm_recorded m @ [(requestMethod method, scheme, path, observed e err st)]"
  by (simp_all add: mw_summary_def Let_def)

lemma client_observed: "client_status e err st = wire (observed e err st)"
  by (simp add: client_status_def observed_def Render_status split: option.split)

definition counted :: "instruments \<Rightarrow> (nat \<Rightarrow> (string \<times> string) option) \<Rightarrow> string \<times> string \<Rightarrow> bool" where
  "counted m fl k \<longleftrightarrow> finite (in_flight fl k) \<and> hm_active m k = int (card (in_flight fl k))"

lemma counted_begin:
  assumes "counted m fl k" and "fl p = None"
  shows "counted (mw_begin method scheme m) (fl(p \<mapsto> (method, scheme))) k"
proof -
  have "p \<notin> in_flight fl k" using assms(2) by (auto simp: in_flight_def)
  with assms(1) show ?thesis unfolding counted_def in_flight_begin [of fl p, OF assms(2)] by (auto simp: mw_begin_def)
qed

lemma hm_active_mw_end:
  "hm_active (mw_end e method scheme out m) k =
     (if k = (requestMethod method, scheme) then hm_active m k - 1 else hm_active m k)"
  by (simp add: mw_end_def split: chain_end.split)

lemma counted_end:
  assumes "counted m fl k" and "fl p = Some (method, scheme)"
  shows "counted (mw_end e method scheme out m) (fl(p := None)) k"
proof (cases "(requestMethod method, scheme) = k")
  case True
  then have "p \<in> in_flight fl k" using assms(2) by (auto simp: in_flight_def)
  then have "int (card (in_flight fl k - {p})) = int (card (in_flight fl k)) - 1"
    using assms(1) card_Suc_Diff1 [of "in_flight fl k" p] by (simp add: counted_def)
  with True assms(1) show ?thesis
    unfolding counted_def in_flight_end [of fl p, OF assms(2)] by (simp add: hm_active_mw_end)
next
  case False
  with assms(1) show ?thesis unfolding counted_def in_flight_end [of fl p, OF assms(2)] by (auto simp: hm_active_mw_end)
qed

lemma serving_counted: "serving e m fl sent \<Longrightarrow> counted m fl k"
proof (induction rule: serving.induct)
  case up
  show ?case by (simp add: counted_def in_flight_def)
next
  case arrives
  then show ?case by (simp only: counted_begin)
next
  case answers
  then show ?case by (simp only: counted_end)
next
  case recovers
  then show ?case by (simp only: counted_end)
qed

lemma serving_sent:
  "serving e m fl sent \<Longrightarrow> map (\<lambda>(_, _, _, st). wire st) (hm_recorded m) = map snd (filter fst sent)"
  by (induction rule: serving.induct) (auto simp: mw_begin_def mw_end_def client_observed)

subsection \<open>Lists of entity tags\<close>

lemma leading_safe: "c \<notin> set (map hd space_runes) \<Longrightarrow> leading_space (c # s) = 0"
  by (force simp: leading_space_0_iff has_prefix_iff Cons_eq_append_conv dest: space_runes_nonempty)

lemma trailing_safe: "c \<notin> set (map last space_runes) \<Longrightarrow> trailing_space (s @ [c]) = 0"
  by (force simp: trailing_space_0_iff has_suffix_iff append_eq_append_conv2 append_eq_Cons_conv
      Cons_eq_append_conv dest: space_runes_nonempty)

lemma trim_space_blank [simp]: "trim_space (CHR '' '' # s) = trim_space s"
proof -
  have "leading_space (CHR '' '' # s) = 1" by (simp add: leading_space_def space_runes_def)
  then show ?thesis by (simp add: trim_space_def trim_left.simps [of "CHR '' '' # s"])
qed

definition entry :: "string \<Rightarrow> bool" where
  "entry w \<longleftrightarrow> leading_space w = 0 \<and> trailing_space w = 0 \<and> CHR '','' \<notin> set w"

lemma entry_trim: "entry w \<Longrightarrow> trim_space w = w"
  by (simp add: entry_def trim_space_id)

lemma split_list_header:
  "ws \<noteq> [] \<Longrightarrow> \<forall>w\<in>set ws. CHR '','' \<notin> set w \<Longrightarrow>
   split_on CHR '','' (join_with '', '' ws) = hd ws # map (Cons CHR '' '') (tl ws)"
  by (induction "'', ''" ws rule: join_with.induct) (simp_all add: split_on_append)

lemma list_header_entries:
  assumes "ws \<noteq> []" and "\<forall>w\<in>set ws. entry w"
  shows "list_ex (\<lambda>cand. P (trim_space cand)) (split_on CHR '','' (join_with '', '' ws)) = list_ex P ws"
proof -
  have "map trim_space (hd ws # map (Cons CHR '' '') (tl ws)) = map trim_space ws"
    using assms(1) by (cases ws) simp_all
  also have "\<dots> = ws" using assms(2) by (simp add: entry_trim map_idI)
  finally have "map trim_space (split_on CHR '','' (join_with '', '' ws)) = ws"
    using split_list_header [OF assms(1)] assms(2) by (simp add: entry_def)
  then have "list_ex P ws = list_ex P (map trim_space (split_on CHR '','' (join_with '', '' ws)))" by simp
  then show ?thesis by (simp add: list_ex_iff)
qed

lemma cut_at_split: "fst (cut_at c s) = hd (split_on c s)"
  by (induction s) (auto split: prod.split list.split simp: Let_def case_prod_beta)

lemma join_snoc: "ws \<noteq> [] \<Longrightarrow> \<forall>w\<in>set ws. \<exists>u. w = u @ [c] \<Longrightarrow> \<exists>u. join_with sep ws = u @ [c]"
proof (induction sep ws rule: join_with.induct)
  case (3 sep x y xs)
  then obtain u where "join_with sep (y # xs) = u @ [c]" by auto
  then have "join_with sep (x # y # xs) = (x @ sep @ u) @ [c]" by simp
  then show ?case by blast
qed auto

lemma join_with_first: "ws \<noteq> [] \<Longrightarrow> \<exists>r. join_with sep ws = hd ws @ r"
  by (cases "(sep, ws)" rule: join_with.cases) simp_all

text \<open>A tag: a quoted word without quotes, blanks or commas, weak or strong.\<close>

definition tag :: "bool \<times> string \<Rightarrow> string" where
  "tag t = (case t of (weak, w) \<Rightarrow> (if weak then ''W/'' else []) @ quote # w @ [quote])"

lemma tag_parts:
  assumes "CHR '','' \<notin> set w"
  shows "entry (tag (weak, w))" "tag (weak, w) \<noteq> []" "tag (weak, w) \<noteq> ''*''" "\<exists>u. tag (weak, w) = u @ [quote]"
    "trim_prefix (tag (weak, w)) ''W/'' = quote # w @ [quote]"
    "\<exists>c s. tag (weak, w) = c # s \<and> c \<notin> set (map hd space_runes)"
proof -
  have q: "quote \<notin> set (map last space_runes)" "quote \<notin> set (map hd space_runes)" "CHR ''W'' \<notin> set (map hd space_runes)"
    by (simp_all add: space_runes_def)
  have s: "tag (weak, w) = ((if weak then ''W/'' else []) @ quote # w) @ [quote]" by (simp add: tag_def)
  then show "\<exists>u. tag (weak, w) = u @ [quote]" by blast
  have "trailing_space (tag (weak, w)) = 0" unfolding s by (rule trailing_safe [OF q(1)])
  moreover show f: "\<exists>c s. tag (weak, w) = c # s \<and> c \<notin> set (map hd space_runes)"
    using q(2,3) by (cases weak) (simp_all add: tag_def)
  then have "leading_space (tag (weak, w)) = 0" using leading_safe by (metis (no_types))
  ultimately show "entry (tag (weak, w))" using assms by (simp add: entry_def tag_def)
  show "tag (weak, w) \<noteq> []" "tag (weak, w) \<noteq> ''*''" by (simp_all add: tag_def)
  show "trim_prefix (tag (weak, w)) ''W/'' = quote # w @ [quote]" by (simp add: tag_def trim_prefix_def)
qed

definition tags_ok :: "(bool \<times> string) list \<Rightarrow> bool" where
  "tags_ok ts \<longleftrightarrow> ts \<noteq> [] \<and> (\<forall>(weak, w)\<in>set ts. CHR '','' \<notin> set w)"

lemma tags_header:
  assumes "tags_ok ts"
  shows "trim_space (join_with '', '' (map tag ts)) = join_with '', '' (map tag ts)"
    "join_with '', '' (map tag ts) \<noteq> []"
    "list_ex (\<lambda>cand. P (trim_space cand)) (split_on CHR '','' (join_with '', '' (map tag ts))) = list_ex (\<lambda>t. P (tag t)) ts"
    "trim_space (fst (cut_at CHR '','' (join_with '', '' (map tag ts)))) = tag (hd ts)"
proof -
  let ?ws = "map tag ts"
  have ne: "?ws \<noteq> []" and each: "CHR '','' \<notin> set (snd t)" if "t \<in> set ts" for t
    using assms that by (auto simp: tags_ok_def)
  have ne: "?ws \<noteq> []" using assms by (simp add: tags_ok_def)
  have part: "entry w \<and> (\<exists>u. w = u @ [quote])" if "w \<in> set ?ws" for w
    using that each tag_parts(1,4) by (auto simp: surjective_pairing [symmetric])
  obtain u where u: "join_with '', '' ?ws = u @ [quote]" using join_snoc [OF ne] part by meson
  obtain r where r: "join_with '', '' ?ws = hd ?ws @ r" using join_with_first [OF ne] by blast
  obtain t where t: "hd ?ws = tag t" "t \<in> set ts" using ne by (cases ts) auto
  then obtain c s where c: "hd ?ws = c # s" "c \<notin> set (map hd space_runes)"
    using tag_parts(6) [OF each [OF t(2)], of "fst t"] by auto
  have q: "quote \<notin> set (map last space_runes)" by (simp add: space_runes_def)
  show "trim_space (join_with '', '' ?ws) = join_with '', '' ?ws"
  proof (rule trim_space_id)
    show "leading_space (join_with '', '' ?ws) = 0" unfolding r c(1) by (simp add: leading_safe [OF c(2)])
    show "trailing_space (join_with '', '' ?ws) = 0" unfolding u by (rule trailing_safe [OF q])
  qed
  show "join_with '', '' ?ws \<noteq> []" by (simp add: u)
  show "list_ex (\<lambda>cand. P (trim_space cand)) (split_on CHR '','' (join_with '', '' ?ws)) = list_ex (\<lambda>t. P (tag t)) ts"
    using list_header_entries [OF ne, of P] part by (simp add: list_ex_iff)
  have "fst (cut_at CHR '','' (join_with '', '' ?ws)) = hd ?ws"
    using split_list_header [OF ne] part by (simp add: cut_at_split entry_def)
  then show "trim_space (fst (cut_at CHR '','' (join_with '', '' ?ws))) = tag (hd ts)"
    using part ne by (simp add: entry_trim hd_map)
qed

lemma itoa_chars: "quote \<notin> set (itoa v)" "CHR '','' \<notin> set (itoa v)"
proof -
  have "\<not> is_digit quote" "\<not> is_digit CHR '',''" by (simp_all add: is_digit_def)
  then have "quote \<notin> set (dec_nat n)" "CHR '','' \<notin> set (dec_nat n)" for n
    using dec_nat_digits [of n] by (auto simp: list_all_iff)
  then show "quote \<notin> set (itoa v)" "CHR '','' \<notin> set (itoa v)" by (simp_all add: itoa_def)
qed

lemma trim_quotes_quoted: "quote \<notin> set w \<Longrightarrow> trim_quotes (quote # w @ [quote]) = w"
proof -
  assume "quote \<notin> set w"
  then have d: "dropWhile (\<lambda>c. c = quote) v = v" if "set v \<subseteq> set w" for v using that by (cases v) auto
  have "dropWhile (\<lambda>c. c = quote) (w @ [quote]) = (if w = [] then [] else w @ [quote])"
    using \<open>quote \<notin> set w\<close> by (cases w) auto
  then show ?thesis using d [of "rev w"] by (simp add: trim_quotes_def)
qed

lemma itoa_inj: "itoa a = itoa b \<longleftrightarrow> a = b"
proof -
  have "dec_nat m \<noteq> CHR ''-'' # s" for m s using dec_nat_Cons [of m] by auto
  moreover from this have "CHR ''-'' # s \<noteq> dec_nat m" for m s by (rule not_sym)
  ultimately show ?thesis by (auto simp: itoa_def dec_nat_inj)
qed

lemma hex_chars: "set (hex_encode s) \<subseteq> set hex_alphabet"
proof -
  have "hex_digit (byte_of c div 16) \<in> set hex_alphabet" "hex_digit (byte_of c mod 16) \<in> set hex_alphabet" for c
    using byte_of_less [of c] by (simp_all add: hex_digit_def alphabets(4))
  then show ?thesis by (auto simp: hex_encode_def Let_def byte_of_def)
qed

lemma hex_free: "CHR '','' \<notin> set (hex_encode s)" "quote \<notin> set (hex_encode s)"
  using hex_chars [of s] by (auto simp: hex_alphabet_def)

subsection \<open>Percent encoding\<close>

definition percent_encode :: "(char \<Rightarrow> bool) \<Rightarrow> string \<Rightarrow> string" where
  "percent_encode keep s = concat (map (\<lambda>c. if keep c then [c]
     else [CHR 0x25, ''0123456789ABCDEF'' ! (byte_of c div 16), ''0123456789ABCDEF'' ! (byte_of c mod 16)]) s)"

lemma hex_val_upper: "n < 16 \<Longrightarrow> hex_val (''0123456789ABCDEF'' ! n) = Some n"
proof -
  have "list_all (\<lambda>n. hex_val (''0123456789ABCDEF'' ! n) = Some n) [0..<16]" by code_simp
  then show "n < 16 \<Longrightarrow> hex_val (''0123456789ABCDEF'' ! n) = Some n" by (simp add: list_all_iff)
qed

lemma PathUnescape_encode:
  assumes "\<not> keep CHR 0x25"
  shows "PathUnescape (percent_encode keep s) = Some s"
proof (induction s)
  case (Cons c s)
  have "byte_of c div 16 < 16" "byte_of c mod 16 < 16" using byte_of_less [of c] by simp_all
  moreover have "char_of (16 * (byte_of c div 16) + byte_of c mod 16) = c" by (simp add: byte_of_def)
  ultimately show ?case
    using Cons assms by (auto simp: percent_encode_def hex_val_upper)
qed (simp add: percent_encode_def)

lemma PathUnescape_plain: "CHR 0x25 \<notin> set s \<Longrightarrow> PathUnescape s = Some s"
  by (induction s) auto

section \<open>Properties\<close>

text \<open>
  C22: the status the metrics and the log record for an error is the one the client gets from
  \<open>Render\<close>, for every error and every mapper; every envelope has a code when the mapper gives one;
  an error that carries no public message and is not the mapper's shows one of four fixed envelopes.
  \<open>WriteError\<close> answers the same exactly when the error carries no \<open>*APIError\<close> or one with its status
  and its code set: for a zero status it answers 200 where \<open>Render\<close> answers 500.
\<close>

theorem error_status:
  "rs_status (fst (Render e err)) = wire (StatusForError e err) \<and>
   (ask_mapper e err = None \<longrightarrow> rs_code (fst (Render e err)) \<noteq> []) \<and>
   (as_APIError err = None \<and> errors_as as_fiber err = None \<and> ask_mapper e err = None \<longrightarrow>
      fst (Render e err) \<in> {respond 404 ''not found'' ''not_found'' [], respond 400 ''invalid input'' ''invalid_input'' [],
        respond 409 ''conflict'' ''conflict'' [], respond 500 ''internal server error'' ''internal'' []}) \<and>
   (fst (WriteError e err) = fst (Render e err) \<longleftrightarrow>
      (case as_APIError err of None \<Rightarrow> True | Some ae \<Rightarrow> ae_Status ae \<noteq> 0 \<and> ae_Code ae \<noteq> []))"
proof (intro conjI)
  show "ask_mapper e err = None \<longrightarrow> rs_code (fst (Render e err)) \<noteq> []"
    by (auto simp: Render_def WriteError_def mapError_def stdMapper_def respond_def Let_def split: option.split)
  show "fst (WriteError e err) = fst (Render e err) \<longleftrightarrow>
      (case as_APIError err of None \<Rightarrow> True | Some ae \<Rightarrow> ae_Status ae \<noteq> 0 \<and> ae_Code ae \<noteq> [])"
    by (auto simp: Render_def WriteError_def mapError_def respond_eq wire_def Let_def split: option.split)
  show "as_APIError err = None \<and> errors_as as_fiber err = None \<and> ask_mapper e err = None \<longrightarrow>
      fst (Render e err) \<in> {respond 404 ''not found'' ''not_found'' [], respond 400 ''invalid input'' ''invalid_input'' [],
        respond 409 ''conflict'' ''conflict'' [], respond 500 ''internal server error'' ''internal'' []}"
    by (auto simp: Render_def WriteError_def mapError_def stdMapper_def)
qed (rule Render_status)

theorem error_status_witness:
  "\<exists>e err. rs_status (fst (Render e err)) = 500 \<and> rs_status (fst (WriteError e err)) = 200 \<and>
     StatusForError e err = 500 \<and>
     fst (Render e (Wrap ''load: '' (Sentinel ErrNotFound) [])) = respond 404 ''not found'' ''not_found'' [] \<and>
     rs_code (fst (Render e (Text ''disk full''))) \<noteq> []"
proof -
  define a where "a = \<lparr>ae_Status = 0, ae_Message = ''nope'', ae_Code = [], ae_Fields = []\<rparr>"
  let ?e = "NewErrors None"
  have none: "as_APIError (Text t) = None" "errors_as as_fiber (Text t) = None" "ask_mapper ?e err = None" for t err
    by (simp_all add: as_APIError_def ask_mapper_def NewErrors_def)
  have "StatusForError ?e (api_err a) = 500" by (simp add: StatusForError_def a_def)
  then have "rs_status (fst (Render ?e (api_err a))) = 500"
    using error_status [of ?e "api_err a"] by (simp add: wire_def)
  moreover have "rs_status (fst (WriteError ?e (api_err a))) = 200"
    by (simp add: WriteError_def a_def wire_def)
  moreover have "rs_code (fst (Render ?e (Text ''disk full''))) \<noteq> []"
    using error_status [of ?e "Text ''disk full''"] by (simp add: none)
  moreover have "fst (Render ?e (Wrap ''load: '' (Sentinel ErrNotFound) [])) = respond 404 ''not found'' ''not_found'' []"
    by (simp add: Render_def WriteError_def mapError_def as_APIError_def errors_as_def ask_mapper_def NewErrors_def stdMapper_def)
  ultimately show ?thesis using \<open>StatusForError ?e (api_err a) = 500\<close> by blast
qed

text \<open>
  C23: however requests overlap and whichever of them panic, the active-requests counter of each
  method and scheme is the number of such requests in flight. The recorded statuses are, in order,
  those sent for the requests whose chain returned, a status never set (0) going out as 200. A request
  whose handler panics is answered too, by recover with the error made of the panic, but leaves no
  record: there is one record less than answers for each of them.
\<close>

theorem requests_counted:
  assumes "serving e m fl sent"
  shows "hm_active m k = int (card {p. \<exists>method scheme. fl p = Some (method, scheme) \<and> (requestMethod method, scheme) = k}) \<and>
    map (\<lambda>(_, _, _, st). if st = 0 then 200 else st) (hm_recorded m) = map snd (filter fst sent) \<and>
    length sent = length (hm_recorded m) + length (filter (\<lambda>x. \<not> fst x) sent)"
proof -
  note sent = serving_sent [OF assms]
  have "length (hm_recorded m) = length (filter fst sent)" using arg_cong [OF sent, of length] by simp
  then have "length sent = length (hm_recorded m) + length (filter (\<lambda>x. \<not> fst x) sent)"
    using sum_length_filter_compl [of fst sent] by simp
  with sent serving_counted [OF assms, of k] show ?thesis by (simp add: counted_def in_flight_def wire_def)
qed

theorem requests_counted_witness:
  "\<exists>m fl :: nat \<Rightarrow> (string \<times> string) option. serving (NewErrors None) m fl [(True, 404), (False, 500)] \<and>
     hm_active m (''GET'', ''http'') = 1 \<and> hm_recorded m = [(''_OTHER'', ''http'', ''/'', 404)]"
proof -
  let ?e = "NewErrors None" and ?z = "\<lparr>hm_active = \<lambda>_. 0, hm_recorded = [], hm_lines = []\<rparr>"
  let ?err = "Some (FiberErr 404 ''x'')"
  let ?b = "\<lambda>p k fl. fl(p \<mapsto> (k, ''http''))" and ?d = "\<lambda>p (fl :: nat \<Rightarrow> (string \<times> string) option). fl(p := None)"
  let ?fl = "?d 2 (?b 2 ''GET'' (?d 0 (?b 1 ''GET'' (?b 0 ''BREW'' (\<lambda>_. None)))))"
  let ?m = "mw_end ?e ''GET'' ''http'' Panics (mw_begin ''GET'' ''http'' (mw_end ?e ''BREW'' ''http'' (Returns ?err ''/'' 200)
      (mw_begin ''GET'' ''http'' (mw_begin ''BREW'' ''http'' ?z))))"
  have c: "client_status ?e ?err 200 = 404" "client_status ?e (Some (Text ''boom'')) 200 = 500"
    by (simp_all add: client_observed observed_def StatusForError_def as_APIError_def errors_as_def mapError_def ask_mapper_def
        NewErrors_def stdMapper_def wire_def)
  have "serving ?e (mw_begin ''BREW'' ''http'' ?z) (?b 0 ''BREW'' (\<lambda>_. None)) []" by (rule arrives [OF up]) simp
  then have "serving ?e (mw_begin ''GET'' ''http'' (mw_begin ''BREW'' ''http'' ?z)) (?b 1 ''GET'' (?b 0 ''BREW'' (\<lambda>_. None))) []"
    by (rule arrives) simp
  then have "serving ?e (mw_end ?e ''BREW'' ''http'' (Returns ?err ''/'' 200) (mw_begin ''GET'' ''http'' (mw_begin ''BREW'' ''http'' ?z)))
      (?d 0 (?b 1 ''GET'' (?b 0 ''BREW'' (\<lambda>_. None)))) ([] @ [(True, client_status ?e ?err 200)])"
    by (rule answers) simp
  then have "serving ?e (mw_begin ''GET'' ''http'' (mw_end ?e ''BREW'' ''http'' (Returns ?err ''/'' 200)
      (mw_begin ''GET'' ''http'' (mw_begin ''BREW'' ''http'' ?z))))
      (?b 2 ''GET'' (?d 0 (?b 1 ''GET'' (?b 0 ''BREW'' (\<lambda>_. None))))) ([] @ [(True, client_status ?e ?err 200)])"
    by (rule arrives) simp
  then have "serving ?e ?m ?fl (([] @ [(True, client_status ?e ?err 200)]) @ [(False, client_status ?e (Some (Text ''boom'')) 200)])"
    by (rule recovers) simp
  then have s: "serving ?e ?m ?fl [(True, 404), (False, 500)]" unfolding c by simp
  from requests_counted [OF s, of "(''GET'', ''http'')"]
  have "hm_active ?m (''GET'', ''http'') = int (card {1 :: nat})"
    by (simp add: requestMethod_def)
  moreover have "hm_recorded ?m = [(''_OTHER'', ''http'', ''/'', 404)]"
    by (simp add: mw_end_def mw_begin_def requestMethod_def observed_def StatusForError_def as_APIError_def)
  ultimately show ?thesis using s by (intro exI [of _ ?m] exI [of _ ?fl]) simp
qed

text \<open>
  The two readings of \<open>If-Match\<close>, for a client that lists the tags of any versions, weak or
  strong: \<open>CheckIfMatch\<close> lets the write pass exactly when the current version is listed;
  \<open>IfMatchVersion\<close> demands the first one listed. The tag of one version so passes exactly at it.
\<close>

theorem if_match_versions:
  assumes "vs \<noteq> []" and "min_i64 \<le> snd (hd vs)" and "snd (hd vs) \<le> max_i64"
  defines "header \<equiv> join_with '', '' (map (\<lambda>(weak, v). if weak then ETagForVersion v else quote # itoa v @ [quote]) vs)"
  shows "CheckIfMatch header current = (if current \<in> snd ` set vs then None else Some stale_write) \<and>
    IfMatchVersion header = (snd (hd vs), True)"
proof -
  let ?ts = "map (\<lambda>(weak, v). (weak, itoa v)) vs"
  have h: "header = join_with '', '' (map tag ?ts)"
    unfolding header_def by (rule arg_cong [of _ _ "join_with _"]) (auto simp: ETagForVersion_def tag_def)
  have ok: "tags_ok ?ts" using assms(1) itoa_chars by (auto simp: tags_ok_def)
  have word: "trim_quotes (trim_prefix (tag (weak, itoa v)) ''W/'') = itoa v" "tag (weak, itoa v) \<noteq> ''*''" for weak v
    using tag_parts(3,5) [OF itoa_chars(2)] trim_quotes_quoted [OF itoa_chars(1)] by simp_all
  have "list_ex (\<lambda>cand. let c = trim_space cand in c = ''*'' \<or> trim_quotes (trim_prefix c ''W/'') = itoa current)
      (split_on CHR '','' header) = (current \<in> snd ` set vs)"
    unfolding h Let_def tags_header(3) [OF ok, of "\<lambda>c. c = ''*'' \<or> trim_quotes (trim_prefix c ''W/'') = itoa current"]
    by (auto simp: list_ex_iff word itoa_inj split_beta image_iff)
  then have "CheckIfMatch header current = (if current \<in> snd ` set vs then None else Some stale_write)"
    using tags_header(1,2) [OF ok] by (simp add: CheckIfMatch_def Let_def h)
  moreover have "hd ?ts = (fst (hd vs), itoa (snd (hd vs)))" using assms(1) by (cases vs) auto
  with tags_header [OF ok] have "IfMatchVersion header = (snd (hd vs), True)"
    by (simp add: IfMatchVersion_def Let_def h word atoi_itoa [OF assms(2,3)])
  ultimately show ?thesis by blast
qed

text \<open>At version 4 the header \<open>"3", W/"4"\<close> passes \<open>CheckIfMatch\<close>, and \<open>IfMatchVersion\<close> asks for 3.\<close>

theorem if_match_versions_witness:
  "CheckIfMatch (quote # ''3'' @ [quote] @ '', '' @ ETagForVersion 4) 4 = None \<and>
   IfMatchVersion (quote # ''3'' @ [quote] @ '', '' @ ETagForVersion 4) = (3, True)"
proof -
  have "itoa 3 = ''3''" by code_simp
  then show ?thesis using if_match_versions [of "[(False, 3), (True, 4)]" 4] by (simp add: min_i64_def max_i64_def)
qed

text \<open>
  A client that sends back the tags of any bodies it holds, weak or strong, gets 304 and no body
  exactly when the digest of the present body begins with the same 16 bytes as that of one of them;
  the tag and the cache policy are sent either way.
\<close>

theorem etag_304:
  fixes sha256 :: "string \<Rightarrow> string"
  assumes "held \<noteq> []"
  defines "header \<equiv> join_with '', '' (map (\<lambda>(weak, data). (if weak then ''W/'' else []) @ ETagForBytes sha256 data) held)"
  shows "SendWithETag header (ETagForBytes sha256 body) cc ct body =
    (if take 16 (sha256 body) \<in> (\<lambda>(_, data). take 16 (sha256 data)) ` set held
     then \<lparr>er_status = 304, er_ETag = ETagForBytes sha256 body, er_CacheControl = cc, er_ContentType = None, er_body = []\<rparr>
     else \<lparr>er_status = 200, er_ETag = ETagForBytes sha256 body, er_CacheControl = cc, er_ContentType = Some ct, er_body = body\<rparr>)"
proof -
  let ?w = "\<lambda>data. hex_encode (take 16 (sha256 data))"
  let ?ts = "map (\<lambda>(weak, data). (weak, ?w data)) held"
  have h: "header = join_with '', '' (map tag ?ts)"
    unfolding header_def by (rule arg_cong [of _ _ "join_with _"]) (auto simp: ETagForBytes_def etag_of_def tag_def)
  have ok: "tags_ok ?ts" using assms(1) hex_free by (auto simp: tags_ok_def)
  have "ETagMatches header (ETagForBytes sha256 body) = (\<exists>(_, data)\<in>set held. ?w data = ?w body)"
    unfolding ETagMatches_def h Let_def
      tags_header(3) [OF ok, of "\<lambda>c. c \<noteq> [] \<and> (c = ''*'' \<or> trim_prefix c ''W/'' = ETagForBytes sha256 body)"]
    using tag_parts(2,3,5) [OF hex_free(1)] by (auto simp: list_ex_iff ETagForBytes_def etag_of_def split_beta)
  also have "\<dots> = (take 16 (sha256 body) \<in> (\<lambda>(_, data). take 16 (sha256 data)) ` set held)"
    by (force simp: hex_encode_inj)
  finally show ?thesis by (simp add: SendWithETag_def)
qed

theorem etag_304_witness:
  "er_status (SendWithETag (ETagForBytes rev ''ab'' @ '', W/'' @ ETagForBytes rev ''cd'') (ETagForBytes rev ''cd'') [] [] ''cd'') = 304 \<and>
   er_status (SendWithETag (ETagForBytes rev ''ab'') (ETagForBytes rev ''cd'') [] [] ''cd'') = 200"
  using etag_304 [of "[(False, ''ab''), (True, ''cd'')]" rev "''cd''" "[]" "[]"]
    etag_304 [of "[(False, ''ab'')]" rev "''cd''" "[]" "[]"] by simp

text \<open>The key of \<open>ETagForKey\<close> tells lists of parts apart that hold no NUL, as its separator needs; parts
  that do can collide.\<close>

lemma key_parts_distinct:
  assumes "parts \<noteq> []" "parts' \<noteq> []" "\<forall>p\<in>set parts \<union> set parts'. CHR 0x00 \<notin> set p"
  shows "join_char (CHR 0x00) parts = join_char (CHR 0x00) parts' \<longleftrightarrow> parts = parts'"
proof
  assume "join_char (CHR 0x00) parts = join_char (CHR 0x00) parts'"
  then have "split_on (CHR 0x00) (join_char (CHR 0x00) parts) = split_on (CHR 0x00) (join_char (CHR 0x00) parts')"
    by (rule arg_cong)
  moreover have "split_on (CHR 0x00) (join_char (CHR 0x00) parts) = parts"
    using assms by (intro split_join) blast+
  moreover have "split_on (CHR 0x00) (join_char (CHR 0x00) parts') = parts'"
    using assms by (intro split_join) blast+
  ultimately show "parts = parts'" by (simp only:)
qed simp

lemma key_parts_collide: "ETagForKey sha256 [''a'' @ [CHR 0x00] @ ''b''] = ETagForKey sha256 [''a'', ''b'']"
  by (simp add: ETagForKey_def)

text \<open>
  \<open>PathParam\<close> gives back any id a client percent-encodes, whichever bytes other than \<open>%\<close> it leaves
  as they are; a segment without escapes is unchanged, and so is one with a malformed escape.
\<close>

theorem path_param:
  "(\<not> keep CHR 0x25 \<longrightarrow> PathParam (percent_encode keep s) = s) \<and>
   (CHR 0x25 \<notin> set raw \<longrightarrow> PathParam raw = raw) \<and>
   (hex_val h = None \<or> hex_val l = None \<longrightarrow>
      PathParam (raw @ CHR 0x25 # h # l # rest) = raw @ CHR 0x25 # h # l # rest)"
proof -
  have "hex_val CHR 0x25 = None" by code_simp
  have "PathUnescape (raw @ CHR 0x25 # h # l # rest) = None" if "hex_val h = None \<or> hex_val l = None"
  proof (induction raw rule: length_induct)
    case (1 raw)
    show ?case
    proof (cases "raw = [] \<or> hd raw \<noteq> CHR 0x25")
      case True
      then show ?thesis using that 1 by (cases raw) (auto split: option.split)
    next
      case False
      then obtain s where "raw = CHR 0x25 # s" by (cases raw) auto
      then show ?thesis
        using that \<open>hex_val CHR 0x25 = None\<close> 1 by (cases s; cases "tl s") (auto split: option.split)
    qed
  qed
  then show ?thesis by (auto simp: PathParam_def PathUnescape_encode PathUnescape_plain)
qed

theorem path_param_witness:
  "PathParam (percent_encode (\<lambda>c. c \<noteq> CHR 0x25 \<and> c \<noteq> CHR '':'') ''app:netflix'') = ''app:netflix'' \<and>
   percent_encode (\<lambda>c. c \<noteq> CHR 0x25 \<and> c \<noteq> CHR '':'') ''app:netflix'' = ''app'' @ CHR 0x25 # ''3Anetflix'' \<and>
   PathParam (''a'' @ CHR 0x25 # ''zz'') = ''a'' @ CHR 0x25 # ''zz''"
proof -
  have "percent_encode (\<lambda>c. c \<noteq> CHR 0x25 \<and> c \<noteq> CHR '':'') ''app:netflix'' = ''app'' @ CHR 0x25 # ''3Anetflix''"
    by code_simp
  moreover have "hex_val CHR ''z'' = None" by code_simp
  ultimately show ?thesis
    using path_param [of "\<lambda>c. c \<noteq> CHR 0x25 \<and> c \<noteq> CHR '':''" "''app:netflix''" "''a''" "CHR ''z''" "CHR ''z''" "[]"]
    by simp
qed

end
