(* ===== verification/Observe.thy ===== *)
theory Observe
  imports FiberX
begin

text \<open>
  The three signals: logx (logx.go, setup.go), metrics/metrics.go and tracing/tracing.go.

  \<open>log/slog\<close> is modelled as far as the code uses it: levels and their text, records, the
  attributes and groups a handler collects. The exporters, the resource detectors and the runtime
  instrumentation of OpenTelemetry are third-party: what their constructors answer is an argument,
  and a provider is the value they are called with. A span is OpenTelemetry's: nothing changes it
  once it has ended.
\<close>

section \<open>logx.go: what a record carries\<close>

type_synonym attr = "string \<times> string"

text \<open>The values a context carries: the request id, and the trace and span id of a valid span.\<close>

record log_ctx =
  lc_id :: "string option"
  lc_span :: "(string \<times> string) option"

definition WithRequestID :: "log_ctx \<Rightarrow> string \<Rightarrow> log_ctx" where
  "WithRequestID ctx rid = ctx\<lparr>lc_id := Some rid\<rparr>"

definition RequestID :: "log_ctx \<Rightarrow> string" where
  "RequestID ctx = (case lc_id ctx of Some rid \<Rightarrow> rid | None \<Rightarrow> [])"

record log_record =
  lr_level :: int
  lr_msg :: string
  lr_attrs :: "attr list"

definition add_attrs :: "attr list \<Rightarrow> log_record \<Rightarrow> log_record" where
  "add_attrs as r = r\<lparr>lr_attrs := lr_attrs r @ as\<rparr>"

text \<open>The handler that is wrapped. Attributes given to \<open>WithAttrs\<close> and those of a record are put
  into the groups opened before them; a group without a name is not opened.\<close>

record base_handler =
  bh_groups :: "string list"
  bh_pre :: "(string list \<times> attr) list"

definition bare :: base_handler where
  "bare = \<lparr>bh_groups = [], bh_pre = []\<rparr>"

definition base_WithAttrs :: "attr list \<Rightarrow> base_handler \<Rightarrow> base_handler" where
  "base_WithAttrs as h = h\<lparr>bh_pre := bh_pre h @ map (Pair (bh_groups h)) as\<rparr>"

definition base_WithGroup :: "string \<Rightarrow> base_handler \<Rightarrow> base_handler" where
  "base_WithGroup g h = (if g = [] then h else h\<lparr>bh_groups := bh_groups h @ [g]\<rparr>)"

definition base_Handle :: "base_handler \<Rightarrow> log_record \<Rightarrow> (string list \<times> attr) list" where
  "base_Handle h r = bh_pre h @ map (Pair (bh_groups h)) (lr_attrs r)"

datatype context_handler = ContextHandler base_handler

definition NewContextHandler :: "base_handler \<Rightarrow> context_handler" where
  "NewContextHandler h = ContextHandler h"

definition stamp :: "log_ctx \<Rightarrow> log_record \<Rightarrow> log_record" where
  "stamp ctx r =
     (let r1 = (if RequestID ctx \<noteq> [] then add_attrs [(''requestId'', RequestID ctx)] r else r)
      in case lc_span ctx of
           None \<Rightarrow> r1
         | Some (trace, span) \<Rightarrow> add_attrs [(''trace_id'', trace), (''span_id'', span)] r1)"

fun Handle :: "context_handler \<Rightarrow> log_ctx \<Rightarrow> log_record \<Rightarrow> (string list \<times> attr) list" where
  "Handle (ContextHandler h) ctx r = base_Handle h (stamp ctx r)"

fun WithAttrs :: "attr list \<Rightarrow> context_handler \<Rightarrow> context_handler" where
  "WithAttrs as (ContextHandler h) = ContextHandler (base_WithAttrs as h)"

fun WithGroup :: "string \<Rightarrow> context_handler \<Rightarrow> context_handler" where
  "WithGroup g (ContextHandler h) = ContextHandler (base_WithGroup g h)"

section \<open>setup.go: New\<close>

definition LevelDebug :: int where "LevelDebug = - 4"
definition LevelInfo :: int where "LevelInfo = 0"
definition LevelWarn :: int where "LevelWarn = 4"
definition LevelError :: int where "LevelError = 8"

lemmas slog_levels = LevelDebug_def LevelInfo_def LevelWarn_def LevelError_def

text \<open>\<open>strings.ToUpper\<close> as far as a comparison with the ASCII names goes: the dotless i and the
  long s are the two other characters whose upper case is ASCII.\<close>

fun to_upper :: "string \<Rightarrow> string" where
  "to_upper [] = []"
| "to_upper (c # s) =
     (if c = CHR 0xC4 \<and> has_prefix s [CHR 0xB1] then CHR ''I'' # to_upper (drop 1 s)
      else if c = CHR 0xC5 \<and> has_prefix s [CHR 0xBF] then CHR ''S'' # to_upper (drop 1 s)
      else if CHR ''a'' \<le> c \<and> c \<le> CHR ''z'' then char_of (of_char c - 32 :: nat) # to_upper s
      else c # to_upper s)"

definition signs :: "char \<Rightarrow> bool" where
  "signs c \<longleftrightarrow> c = CHR ''+'' \<or> c = CHR ''-''"

definition level_named :: "string \<Rightarrow> int option" where
  "level_named name =
     (if to_upper name = ''DEBUG'' then Some LevelDebug
      else if to_upper name = ''INFO'' then Some LevelInfo
      else if to_upper name = ''WARN'' then Some LevelWarn
      else if to_upper name = ''ERROR'' then Some LevelError
      else None)"

text \<open>\<open>slog.Level.UnmarshalText\<close>: a name in any case with an optional signed offset; None leaves the
  level as it was.\<close>

definition unmarshal_level :: "string \<Rightarrow> int option" where
  "unmarshal_level s =
     (let name = takeWhile (\<lambda>c. \<not> signs c) s; rest = dropWhile (\<lambda>c. \<not> signs c) s
      in if rest = [] then level_named name
         else Option.bind (atoi rest) (\<lambda>offset. map_option (\<lambda>l. i64 (l + offset)) (level_named name)))"

definition level_String :: "int \<Rightarrow> string" where
  "level_String l =
     (let str = (\<lambda>base v. if v = 0 then base else base @ (if v < 0 then [] else ''+'') @ itoa v)
      in if l < LevelInfo then str ''DEBUG'' (i64 (l - LevelDebug))
         else if l < LevelWarn then str ''INFO'' (l - LevelInfo)
         else if l < LevelError then str ''WARN'' (l - LevelWarn)
         else str ''ERROR'' (l - LevelError))"

record log_options =
  lo_App :: string
  lo_Version :: string
  lo_Level :: string
  lo_Format :: string

datatype backend = JSONHandler int | TextHandler int bool  \<comment> \<open>level; NoColor\<close>

fun min_level :: "backend \<Rightarrow> int" where
  "min_level (JSONHandler l) = l"
| "min_level (TextHandler l nc) = l"

record logger =
  lg_backend :: backend
  lg_handler :: context_handler

definition resolved_format :: "bool \<Rightarrow> string \<Rightarrow> string" where
  "resolved_format isTTY f =
     (if f = [] \<or> f = ''auto'' then (if isTTY then ''text'' else ''json'') else f)"

definition log_to :: "logger \<Rightarrow> log_ctx \<Rightarrow> log_record \<Rightarrow> (int \<times> string \<times> (string list \<times> attr) list) list" where
  "log_to l ctx r =
     (if min_level (lg_backend l) \<le> lr_level r
      then [(lr_level r, lr_msg r, Handle (lg_handler l) ctx r)] else [])"

definition background :: log_ctx where
  "background = \<lparr>lc_id = None, lc_span = None\<rparr>"

definition New_logger ::
    "bool \<Rightarrow> log_options \<Rightarrow> logger \<times> (int \<times> string \<times> (string list \<times> attr) list) list" where
  "New_logger isTTY opts =
     (let parsed = (if lo_Level opts = [] then Some LevelInfo else unmarshal_level (lo_Level opts));
          logLevel = (case parsed of Some l \<Rightarrow> l | None \<Rightarrow> LevelInfo);
          format = resolved_format isTTY (lo_Format opts);
          l = \<lparr>lg_backend = (if format = ''json'' then JSONHandler logLevel
                             else TextHandler logLevel (\<not> isTTY)),
               lg_handler = WithAttrs [(''app'', lo_App opts), (''version'', lo_Version opts)]
                              (NewContextHandler bare)\<rparr>
      in (l,
          (if parsed = None
           then log_to l background \<lparr>lr_level = LevelWarn,
                  lr_msg = ''invalid LOG_LEVEL, defaulting to info'',
                  lr_attrs = [(''value'', lo_Level opts)]\<rparr>
           else []) @
          log_to l background \<lparr>lr_level = LevelInfo, lr_msg = ''logging configured'',
            lr_attrs = [(''level_configured'', level_String logLevel), (''format'', format)]\<rparr>))"

text \<open>\<open>Setup\<close> also replaces the default logger, the second component.\<close>

definition Setup_logger ::
    "bool \<Rightarrow> log_options \<Rightarrow> logger \<Rightarrow> (logger \<times> logger) \<times> (int \<times> string \<times> (string list \<times> attr) list) list" where
  "Setup_logger isTTY opts old = (case New_logger isTTY opts of (l, ls) \<Rightarrow> ((l, l), ls))"

section \<open>metrics.go and tracing.go: Init\<close>

type_synonym getenv = "string \<Rightarrow> string"

datatype resource = Detected string string | Schemaless string string  \<comment> \<open>service name, version\<close>

definition new_resource :: "gerr option \<Rightarrow> string \<Rightarrow> string \<Rightarrow> resource" where
  "new_resource err name version =
     (case err of None \<Rightarrow> Detected name version | Some e \<Rightarrow> Schemaless name version)"

definition endpoint_of :: "getenv \<Rightarrow> string \<Rightarrow> string" where
  "endpoint_of env specific =
     (let e = env ''OTEL_EXPORTER_OTLP_ENDPOINT'' in if e = [] then env specific else e)"

datatype reader = PrometheusReader | PeriodicReader

record meter_provider =
  mp_resource :: resource
  mp_readers :: "reader list"

record metrics_config =
  mc_ServiceName :: string
  mc_Version :: string
  mc_Pull :: bool

text \<open>\<open>Shutdown\<close> stops a provider, or does nothing (None).\<close>

record pipeline =
  pl_Handler :: bool
  pl_Shutdown :: "meter_provider option"

datatype otel_log =
    EndpointDisabled gerr
  | PushDisabled gerr
  | RuntimeFailed gerr
  | MetricsEnabled bool string
  | TracingDisabled gerr
  | TracingEnabled string

text \<open>What the third-party constructors answer, nil being None.\<close>

record otel =
  ot_prometheus :: "gerr option"
  ot_otlp_metrics :: "gerr option"
  ot_otlp_traces :: "gerr option"
  ot_resource :: "gerr option"
  ot_runtime :: "gerr option"

text \<open>The process-wide providers and propagator; None is the SDK's no-op.\<close>

record globals =
  gl_meter :: "meter_provider option"
  gl_tracer :: "resource option"
  gl_propagates :: bool
  gl_log :: "otel_log list"

definition log_otel :: "otel_log \<Rightarrow> globals \<Rightarrow> globals" where
  "log_otel l g = g\<lparr>gl_log := gl_log g @ [l]\<rparr>"

definition pull_exit :: "otel \<Rightarrow> metrics_config \<Rightarrow> globals \<Rightarrow> globals \<times> reader list \<times> bool" where
  "pull_exit ot cfg g =
     (if mc_Pull cfg then
        (case ot_prometheus ot of
           Some err \<Rightarrow> (log_otel (EndpointDisabled err) g, [], False)
         | None \<Rightarrow> (g, [PrometheusReader], True))
      else (g, [], False))"

definition push_exit :: "otel \<Rightarrow> string \<Rightarrow> globals \<Rightarrow> globals \<times> reader list \<times> string" where
  "push_exit ot endpoint g =
     (if endpoint \<noteq> [] then
        (case ot_otlp_metrics ot of
           Some err \<Rightarrow> (log_otel (PushDisabled err) g, [], [])
         | None \<Rightarrow> (g, [PeriodicReader], endpoint))
      else (g, [], endpoint))"

definition Init_metrics ::
    "getenv \<Rightarrow> otel \<Rightarrow> metrics_config \<Rightarrow> globals \<Rightarrow> globals \<times> pipeline \<times> gerr option" where
  "Init_metrics env ot cfg g0 =
     (case pull_exit ot cfg g0 of (g1, pull, handler) \<Rightarrow>
        (case push_exit ot (endpoint_of env ''OTEL_EXPORTER_OTLP_METRICS_ENDPOINT'') g1 of (g2, push, endpoint) \<Rightarrow>
           (if pull @ push = [] then (g2, \<lparr>pl_Handler = False, pl_Shutdown = None\<rparr>, None)
            else
              (let mp = \<lparr>mp_resource = new_resource (ot_resource ot) (mc_ServiceName cfg) (mc_Version cfg),
                         mp_readers = pull @ push\<rparr>;
                   g3 = g2\<lparr>gl_meter := Some mp\<rparr>;
                   g4 = (case ot_runtime ot of Some err \<Rightarrow> log_otel (RuntimeFailed err) g3 | None \<Rightarrow> g3)
               in (log_otel (MetricsEnabled handler endpoint) g4,
                   \<lparr>pl_Handler = handler, pl_Shutdown = Some mp\<rparr>, None)))))"

record tracing_config =
  tg_ServiceName :: string
  tg_Version :: string

definition Init_tracing ::
    "getenv \<Rightarrow> otel \<Rightarrow> tracing_config \<Rightarrow> globals \<Rightarrow> globals \<times> resource option \<times> gerr option" where
  "Init_tracing env ot cfg g0 =
     (let g1 = g0\<lparr>gl_propagates := True\<rparr>;
          endpoint = endpoint_of env ''OTEL_EXPORTER_OTLP_TRACES_ENDPOINT''
      in if endpoint = [] then (g1, None, None)
         else
           (case ot_otlp_traces ot of
              Some err \<Rightarrow> (log_otel (TracingDisabled err) g1, None, None)
            | None \<Rightarrow>
                (let tp = new_resource (ot_resource ot) (tg_ServiceName cfg) (tg_Version cfg)
                 in (log_otel (TracingEnabled endpoint) (g1\<lparr>gl_tracer := Some tp\<rparr>), Some tp, None))))"

section \<open>tracing.go: Middleware\<close>

datatype span_status = Unset | SpanError string

datatype span_event = HandlerError gerr | PanicValue

record span =
  sp_name :: string
  sp_route :: string
  sp_status_code :: "int option"
  sp_status :: span_status
  sp_events :: "span_event list"
  sp_ended :: bool

definition alive :: "(span \<Rightarrow> span) \<Rightarrow> span \<Rightarrow> span" where
  "alive f sp = (if sp_ended sp then sp else f sp)"

definition span_End :: "span \<Rightarrow> span" where
  "span_End = alive (\<lambda>sp. sp\<lparr>sp_ended := True\<rparr>)"

definition SetStatus :: "span_status \<Rightarrow> span \<Rightarrow> span" where
  "SetStatus st = alive (\<lambda>sp. sp\<lparr>sp_status := st\<rparr>)"

definition RecordError :: "span_event \<Rightarrow> span \<Rightarrow> span" where
  "RecordError e = alive (\<lambda>sp. sp\<lparr>sp_events := sp_events sp @ [e]\<rparr>)"

definition SetStatusCode :: "int \<Rightarrow> span \<Rightarrow> span" where
  "SetStatusCode st = alive (\<lambda>sp. sp\<lparr>sp_status_code := Some st\<rparr>)"

text \<open>The headers handed to the propagator.\<close>

definition trace_carrier :: "(string \<Rightarrow> string) \<Rightarrow> (string \<times> string) list" where
  "trace_carrier get =
     concat (map (\<lambda>k. if get k \<noteq> [] then [(k, get k)] else []) [''traceparent'', ''tracestate'', ''baggage''])"

text \<open>\<open>route\<close> is what \<open>c.Route()\<close> answers when the middleware is entered.\<close>

definition Start_span :: "string \<Rightarrow> string \<Rightarrow> span" where
  "Start_span method route =
     \<lparr>sp_name = method @ '' '' @ route, sp_route = route, sp_status_code = None, sp_status = Unset,
      sp_events = [], sp_ended = False\<rparr>"

definition on_panic :: "bool \<Rightarrow> span \<Rightarrow> span" where
  "on_panic panicked sp =
     (if panicked then RecordError PanicValue (SetStatus (SpanError ''panic'') sp) else sp)"

text \<open>The deferred calls in the order they are registered; they run last first.\<close>

definition span_defers :: "bool \<Rightarrow> (span \<Rightarrow> span) list" where
  "span_defers panicked = [span_End, on_panic panicked]"

definition run_deferred :: "(span \<Rightarrow> span) list \<Rightarrow> span \<Rightarrow> span" where
  "run_deferred ds sp = fold (\<lambda>f. f) (rev ds) sp"

definition after_next :: "gerr option \<Rightarrow> int \<Rightarrow> span \<Rightarrow> span" where
  "after_next err st sp =
     (let sp1 = SetStatusCode (wire st) sp;
          sp2 = (if wire st \<ge> 500 then SetStatus (SpanError []) sp1 else sp1)
      in case err of Some e \<Rightarrow> RecordError (HandlerError e) sp2 | None \<Rightarrow> sp2)"

definition trace_request :: "string \<Rightarrow> string \<Rightarrow> chain_end \<Rightarrow> span \<times> chain_end" where
  "trace_request method route out =
     (let sp = Start_span method route
      in (case out of
            Panics \<Rightarrow> (run_deferred (span_defers True) sp, Panics)
          | Returns err path st \<Rightarrow>
              (run_deferred (span_defers False) (after_next err st sp), Returns err path st)))"

lemmas span_ops = span_End_def SetStatus_def RecordError_def SetStatusCode_def alive_def
lemmas span_flow = trace_request_def run_deferred_def span_defers_def on_panic_def after_next_def Start_span_def

section \<open>Lemmas\<close>

subsection \<open>Derived loggers\<close>

datatype derivation = With "attr list" | Group string

fun derive :: "derivation \<Rightarrow> context_handler \<Rightarrow> context_handler" where
  "derive (With as) h = WithAttrs as h"
| "derive (Group g) h = WithGroup g h"

fun base_derive :: "derivation \<Rightarrow> base_handler \<Rightarrow> base_handler" where
  "base_derive (With as) h = base_WithAttrs as h"
| "base_derive (Group g) h = base_WithGroup g h"

lemma derive_rewraps: "fold derive ds (ContextHandler h) = ContextHandler (fold base_derive ds h)"
proof (induction ds arbitrary: h)
  case (Cons d ds)
  then show ?case by (cases d) simp_all
qed simp

definition opened :: "derivation list \<Rightarrow> string list" where
  "opened ds = concat (map (\<lambda>d. case d of With as \<Rightarrow> [] | Group g \<Rightarrow> if g = [] then [] else [g]) ds)"

lemma base_groups: "bh_groups (fold base_derive ds h) = bh_groups h @ opened ds"
proof (induction ds arbitrary: h)
  case (Cons d ds)
  then show ?case by (cases d) (simp_all add: base_WithAttrs_def base_WithGroup_def opened_def)
qed (simp add: opened_def)

lemma stamp_attrs:
  "set (lr_attrs r) \<subseteq> set (lr_attrs (stamp ctx r))"
  "RequestID ctx \<noteq> [] \<Longrightarrow> (''requestId'', RequestID ctx) \<in> set (lr_attrs (stamp ctx r))"
  by (auto simp: stamp_def add_attrs_def Let_def split: option.split)

text \<open>Every logger derived from one with a context handler stamps the request id of the context on
  its records, but inside the groups it has opened: the key is \<open>requestId\<close> only for a logger that
  has none.\<close>

lemma derived_stamps:
  assumes "RequestID ctx \<noteq> []"
  shows "(opened ds, (''requestId'', RequestID ctx)) \<in>
    set (Handle (fold derive ds (NewContextHandler bare)) ctx r)"
proof -
  have "bh_groups (fold base_derive ds bare) = opened ds"
    by (simp add: base_groups) (simp add: bare_def)
  with stamp_attrs(2) [OF assms, of r] show ?thesis
    by (force simp: NewContextHandler_def derive_rewraps base_Handle_def)
qed

subsection \<open>The logger's level\<close>

lemma level_names:
  "unmarshal_level ''debug'' = Some LevelDebug" "unmarshal_level ''info'' = Some LevelInfo"
  "unmarshal_level ''warn'' = Some LevelWarn" "unmarshal_level ''error'' = Some LevelError"
  "unmarshal_level ''verbose'' = None" "unmarshal_level ''Warn+2'' = Some 6"
  by code_simp+

text \<open>The announcement appears exactly when its own level is enabled, and an invalid level is
  reported, always, before it.\<close>

lemma New_logger_lines:
  assumes "New_logger isTTY opts = (l, ls)"
  shows "unmarshal_level (lo_Level opts) = None \<Longrightarrow> lo_Level opts \<noteq> [] \<Longrightarrow>
      min_level (lg_backend l) = LevelInfo \<and> map (fst \<circ> snd) ls =
        [''invalid LOG_LEVEL, defaulting to info'', ''logging configured'']"
    and "lo_Level opts = [] \<or> unmarshal_level (lo_Level opts) \<noteq> None \<Longrightarrow>
      map (fst \<circ> snd) ls =
        (if min_level (lg_backend l) \<le> LevelInfo then [''logging configured''] else [])"
  using assms by (auto simp: New_logger_def log_to_def Let_def slog_levels split: if_splits)

subsection \<open>The pipelines\<close>

lemma endpoint_empty [simp]:
  "endpoint_of env k = [] \<longleftrightarrow> env ''OTEL_EXPORTER_OTLP_ENDPOINT'' = [] \<and> env k = []"
  by (simp add: endpoint_of_def Let_def)

lemma Init_tracing_ok: "snd (snd (Init_tracing env ot cfg g)) = None"
  by (simp add: Init_tracing_def Let_def split: option.split)

text \<open>Metrics never fail the boot; the handler is there exactly when the Prometheus reader is, and
  a provider is installed exactly when something reads it.\<close>

lemma Init_metrics_ok:
  assumes "Init_metrics env ot cfg g = (g', p, err)"
  shows "err = None" and "pl_Handler p \<longleftrightarrow> mc_Pull cfg \<and> ot_prometheus ot = None"
    and "pl_Shutdown p = None \<longleftrightarrow> \<not> pl_Handler p \<and>
      (endpoint_of env ''OTEL_EXPORTER_OTLP_METRICS_ENDPOINT'' = [] \<or> ot_otlp_metrics ot \<noteq> None)"
    and "pl_Shutdown p = None \<Longrightarrow> gl_meter g' = gl_meter g"
    and "pl_Shutdown p = Some m \<Longrightarrow> gl_meter g' = Some m \<and> mp_readers m \<noteq> []"
  using assms
  by (auto simp: Init_metrics_def pull_exit_def push_exit_def log_otel_def Let_def
      split: if_splits option.splits)

subsection \<open>Spans\<close>

lemma opaque_is_500:
  "observed (NewErrors None) (Some (Text t)) 0 = 500" "client_status (NewErrors None) (Some (Text t)) 0 = 500"
  by (simp_all add: observed_def client_status_def StatusForError_def Render_def WriteError_def as_APIError_def
      mapError_def ask_mapper_def NewErrors_def stdMapper_def respond_def wire_def)

text \<open>
  C35: Every request ends its span, and the response it continues with is untouched. A panic passes
  on after the span has got the status and the error event of a panic; a request that returns
  leaves the error it returned as an event. The status of the span is that of the response as the
  chain left it, which for a returned error is not the one the client is sent: a handler that
  returns an opaque error leaves a span that is unset, with the status code 200 of the untouched
  response, while the client gets, and the duration of the same request is recorded with, a 500.\<close>

theorem request_traced:
  shows "sp_ended (fst (trace_request method route out)) \<and>
    snd (trace_request method route out) = out \<and>
    (case out of
       Panics \<Rightarrow> sp_status (fst (trace_request method route out)) = SpanError ''panic'' \<and>
         sp_events (fst (trace_request method route out)) = [PanicValue]
     | Returns err path st \<Rightarrow>
         sp_status_code (fst (trace_request method route out)) = Some (wire st) \<and>
         (sp_status (fst (trace_request method route out)) = Unset) = (wire st < 500) \<and>
         sp_events (fst (trace_request method route out)) =
           (case err of None \<Rightarrow> [] | Some e \<Rightarrow> [HandlerError e])) \<and>
    (let blind = fst (trace_request method route (Returns (Some (Text t)) path 0)) in
       sp_status blind = Unset \<and> sp_status_code blind = Some 200 \<and>
       observed (NewErrors None) (Some (Text t)) 0 = 500 \<and>
       client_status (NewErrors None) (Some (Text t)) 0 = 500)"
  using opaque_is_500 [of t]
  by (cases out) (auto simp: span_flow span_ops Let_def wire_def split: option.split)

end
