(* ===== verification/Neokit.thy ===== *)
theory Neokit
  imports App Gate Backup Sqlitex Observe
begin

text \<open>
  neokit.go: the application with its features, over the components of the other theories. \<open>New\<close>
  is \<open>app.New\<close> with the telemetry of \<open>tracing.Init\<close> and \<open>metrics.Init\<close> and the logger of
  \<open>logx.Setup\<close>; \<open>Database\<close>, \<open>Login\<close> and \<open>Backups\<close> call \<open>sqlitex.Open\<close>, \<open>fiberauth.New\<close>
  and \<open>backup.New\<close>.

  How a provider and a database handle are shut down is a parameter, as what they are is. The
  goroutines a feature starts under \<open>safe.Go\<close> are listed, each with its name and the context it is
  given; Teardown runs them in the group of Supervise.
\<close>

section \<open>New\<close>

text \<open>A goroutine started under \<open>safe.Go\<close>: its name, and when the context it and its work get is done.\<close>

record 'r background =
  bg_name :: string
  bg_ctx :: "'r aworld \<Rightarrow> bool"

record 'r kit =
  k_App :: "'r app"
  k_Logger :: logger
  k_Routes :: "route list"
  k_Background :: "'r background list"

definition app_version :: "info \<Rightarrow> App.options \<Rightarrow> string" where
  "app_version build opts =
     (if trim_space (o_Version opts) = [] then info_String build else o_Version opts)"

text \<open>\<open>Options.Log\<close> and what the logger depends on besides the name and the version: whether stderr is a
  terminal, and the level and the format of \<open>Options.Base\<close>.\<close>

record log_choice =
  lg_given :: "logger option"
  lg_tty :: bool
  lg_level :: string
  lg_format :: string

definition app_logger :: "log_choice \<Rightarrow> info \<Rightarrow> App.options \<Rightarrow> logger" where
  "app_logger lc build opts =
     (case lg_given lc of
        Some l \<Rightarrow> l
      | None \<Rightarrow> fst (New_logger (lg_tty lc) \<lparr>lo_App = o_Name opts, lo_Version = app_version build opts,
                  lo_Level = lg_level lc, lo_Format = lg_format lc\<rparr>))"

text \<open>None: \<open>app.New\<close> panics, with what the telemetry has installed in place.\<close>

definition New_kit ::
    "getenv \<Rightarrow> otel \<Rightarrow> (resource option \<Rightarrow> 'r aworld step_fn) \<Rightarrow>
     (meter_provider option \<Rightarrow> 'r aworld step_fn) \<Rightarrow> fiber_lib \<Rightarrow> log_choice \<Rightarrow> info \<Rightarrow> App.options \<Rightarrow>
     globals \<Rightarrow> globals \<times> (gerr + 'r kit) option" where
  "New_kit env ot stopT stopM lib lc build opts g =
     (case Init_tracing env ot \<lparr>tg_ServiceName = o_Name opts, tg_Version = app_version build opts\<rparr> g of
        (g1, tp, e1) \<Rightarrow>
          (case Init_metrics env ot \<lparr>mc_ServiceName = o_Name opts, mc_Version = app_version build opts,
                  mc_Pull = True\<rparr> g1 of
             (g2, p, e2) \<Rightarrow>
               (if trim_space (o_Name opts) = [] then g else if e1 \<noteq> None then g1 else g2,
                case New_app lib build (case e1 of Some e \<Rightarrow> Inl e | None \<Rightarrow> Inr (stopT tp))
                       (case e2 of Some e \<Rightarrow> Inl e | None \<Rightarrow> Inr (stopM (pl_Shutdown p), pl_Handler p)) opts of
                  None \<Rightarrow> None
                | Some (Inl e) \<Rightarrow> Some (Inl e)
                | Some (Inr a) \<Rightarrow>
                    Some (Inr \<lparr>k_App = a, k_Logger = app_logger lc build opts, k_Routes = [], k_Background = []\<rparr>))))"

section \<open>Features\<close>

text \<open>The arguments after the path are the outcomes \<open>sqlitex.Open\<close> takes.\<close>

definition Database ::
    "(handle \<Rightarrow> 'r aworld closer) \<Rightarrow> string \<Rightarrow> gerr option \<Rightarrow> gerr option \<Rightarrow> gerr option \<Rightarrow>
     gerr option option \<Rightarrow> 'r kit \<Rightarrow> 'r kit \<times> (gerr + handle)" where
  "Database close path mkdir opens ping migrate k =
     (case fst (Open path mkdir opens ping migrate) of
        Inl err \<Rightarrow> (k, Inl err)
      | Inr db \<Rightarrow>
          (k\<lparr>k_App := (k_App k)\<lparr>a_Shutdown := Push ''database'' (Some (\<lambda>ctx. close db)) (a_Shutdown (k_App k))\<rparr>\<rparr>,
           Inr db))"

definition Login :: "Gate.options \<Rightarrow> 'r kit \<Rightarrow> 'r kit \<times> gate" where
  "Login opts k =
     (case New_gate (a_APIBase (k_App k)) (a_AuthBase (k_App k)) opts of
        (gate, routes) \<Rightarrow>
          (k\<lparr>k_Routes := k_Routes k @ routes, 
              k_Background := k_Background k @ [\<lparr>bg_name = ''session sweep'', bg_ctx = Context (k_App k)\<rparr>]\<rparr>, gate))"

text \<open>None: \<open>backup.New\<close> panics.\<close>

definition Backups :: "Backup.options \<Rightarrow> 'r kit \<Rightarrow> ('r kit \<times> service) option" where
  "Backups opts k =
     (case New_service opts of
        None \<Rightarrow> None
      | Some svc \<Rightarrow> 
          Some (k\<lparr>k_Background := k_Background k @ [\<lparr>bg_name = ''backups'', bg_ctx = Context (k_App k)\<rparr>]\<rparr>, svc))"

section \<open>Lemmas\<close>

lemma Init_metrics_scrape: "pl_Handler (fst (snd (Init_metrics env ot cfg g))) \<longleftrightarrow> mc_Pull cfg \<and> ot_prometheus ot = None"
  using Init_metrics_ok(2) by (metis prod_cases3 fst_conv snd_conv)

lemma Init_metrics_err: "snd (snd (Init_metrics env ot cfg g)) = None"
  using Init_metrics_ok(1) by (metis prod_cases3 snd_conv)

text \<open>What \<open>New\<close> builds, the telemetry's own errors being impossible.\<close>

lemma New_kit_eq:
  defines "tcfg opts build \<equiv> \<lparr>tg_ServiceName = o_Name opts, tg_Version = app_version build opts\<rparr>"
    and "mcfg opts build \<equiv> \<lparr>mc_ServiceName = o_Name opts, mc_Version = app_version build opts, mc_Pull = True\<rparr>"
  assumes "Init_tracing env ot (tcfg opts build) g = (g1, tp, e1)"
    and "Init_metrics env ot (mcfg opts build) g1 = (g2, p, e2)"
  shows "New_kit env ot stopT stopM lib lc build opts g =
    (if trim_space (o_Name opts) = [] then g else g2,
     case New_app lib build (Inr (stopT tp)) (Inr (stopM (pl_Shutdown p), ot_prometheus ot = None)) opts of
       None \<Rightarrow> None
     | Some (Inl e) \<Rightarrow> Some (Inl e)
     | Some (Inr a) \<Rightarrow> Some (Inr \<lparr>k_App = a, k_Logger = app_logger lc build opts, k_Routes = [], k_Background = []\<rparr>))"
proof -
  have "e1 = None" "e2 = None" "pl_Handler p \<longleftrightarrow> ot_prometheus ot = None"
    using assms Init_tracing_ok [of env ot "tcfg opts build" g] Init_metrics_err [of env ot "mcfg opts build" g1]
      Init_metrics_scrape [of env ot "mcfg opts build" g1] by simp_all
  with assms show ?thesis by (simp add: New_kit_def)
qed

lemma Init_tracing_globals:
  "Init_tracing env ot cfg g = (g', tp, e) \<Longrightarrow> gl_propagates g' \<and> gl_meter g' = gl_meter g \<and>
     (tp = None \<and> gl_tracer g' = gl_tracer g \<or>
      gl_tracer g' = tp \<and> tp = Some (new_resource (ot_resource ot) (tg_ServiceName cfg) (tg_Version cfg)))"
  by (auto simp: Init_tracing_def log_otel_def Let_def split: if_splits option.splits)

lemma Init_metrics_globals:
  "Init_metrics env ot cfg g = (g', p, e) \<Longrightarrow> gl_tracer g' = gl_tracer g \<and> gl_propagates g' = gl_propagates g \<and>
     (pl_Shutdown p = None \<and> gl_meter g' = gl_meter g \<or>
      gl_meter g' = pl_Shutdown p \<and>
      map_option mp_resource (pl_Shutdown p) =
        Some (new_resource (ot_resource ot) (mc_ServiceName cfg) (mc_Version cfg)))"
  by (auto simp: Init_metrics_def pull_exit_def push_exit_def log_otel_def Let_def
      split: if_splits option.splits)

section \<open>Properties\<close>

text \<open>
  C37: The boot, for every outcome. Without a name New returns its error and touches nothing. With
  one it never returns an error, whatever fails in the telemetry: it starts, unless Fiber or the
  caller's own adjustment panics, in which case New panics too (a CORS origin that \<open>cors.New\<close> does
  not take does this), the telemetry it had installed staying in place. The application that
  starts serves with the adjusted configuration, has its telemetry as the first two steps of the
  teardown, so that it is flushed last, and serves the metrics route exactly when the Prometheus
  reader could be built, under the token of its options. Either way traces are propagated, and the
  tracer and the meter provider installed, each if there is something to export to, carry the same
  resource.\<close>

theorem boot_total:
  fixes stopT :: "resource option \<Rightarrow> 'r aworld step_fn"
  assumes "gl_meter g = None" "gl_tracer g = None"
  shows "(trim_space (o_Name opts) = [] \<longrightarrow>
      New_kit env ot stopT stopM lib lc build opts g = (g, Some (Inl (Text ''app: Options.Name is required'')))) \<and>
    (trim_space (o_Name opts) \<noteq> [] \<longrightarrow>
      (\<exists>g' res. New_kit env ot stopT stopM lib lc build opts g = (g', res) \<and>
         (if \<exists>cfg. adjusted_config opts = Some cfg \<and> fl_config lib cfg \<and> fl_cors lib (o_CorsOrigins opts)
          then \<exists>k. res = Some (Inr k) \<and>
            Some (fst (a_HTTP (k_App k))) = adjusted_config opts \<and>
            Names (a_Shutdown (k_App k)) = [''tracing'', ''metrics-export''] \<and>
            (HMetrics MetricsPath (o_MetricsToken opts) \<in> set (snd (a_HTTP (k_App k))) \<longleftrightarrow> ot_prometheus ot = None)
          else res = None) \<and>
         gl_propagates g' \<and>
         (\<forall>r m. gl_tracer g' = Some r \<longrightarrow> gl_meter g' = Some m \<longrightarrow> mp_resource m = r) \<and>
         (ot_prometheus ot = None \<longrightarrow> gl_meter g' \<noteq> None)))"
proof -
  define tcfg where "tcfg = \<lparr>tg_ServiceName = o_Name opts, tg_Version = app_version build opts\<rparr>"
  define mcfg where
    "mcfg = \<lparr>mc_ServiceName = o_Name opts, mc_Version = app_version build opts, mc_Pull = True\<rparr>"
  obtain g1 tp e1 where t: "Init_tracing env ot tcfg g = (g1, tp, e1)" by (metis prod_cases3)
  obtain g2 p e2 where m: "Init_metrics env ot mcfg g1 = (g2, p, e2)" by (metis prod_cases3)
  note eq = New_kit_eq [OF t [unfolded tcfg_def] m [unfolded mcfg_def], of stopT stopM lib lc]
  have res: "mp_resource mp = r" if "gl_tracer g2 = Some r" "gl_meter g2 = Some mp" for r mp
    using that Init_tracing_globals [OF t] Init_metrics_globals [OF m] assms
    by (auto simp: tcfg_def mcfg_def)
  have met: "gl_meter g2 \<noteq> None" if "ot_prometheus ot = None"
    using that Init_metrics_ok(2,3,5) [OF m] by (cases "pl_Shutdown p") (auto simp: mcfg_def)
  have fwd: "gl_propagates g2"
    using Init_tracing_globals [OF t] Init_metrics_globals [OF m] by simp
  show ?thesis
    unfolding eq using res met fwd
    by (auto simp: New_app_def newFiber_def Let_def empty_stack_def Names_def Push_def split: option.splits)
qed

subsection \<open>The database and the background work\<close>

text \<open>The worlds in which the steps of a sweep start; a sweep that ends has started them all.\<close>

fun visits :: "instant option \<Rightarrow> duration \<Rightarrow> 'w teardown list \<Rightarrow> instant \<times> 'w \<Rightarrow> (string \<times> 'w) list" where
  "visits ctx each [] tw = []"
| "visits ctx each (st # sts) tw =
     (td_name st, snd tw) #
     (case runStep ctx st each tw of None \<Rightarrow> [] | Some (tw', err) \<Rightarrow> visits ctx each sts tw')"

lemma visits_sweep:
  "sweep ctx each sts errs log tw = Some r \<Longrightarrow> map fst (visits ctx each sts tw) = map td_name sts"
proof (induction sts arbitrary: errs log tw)
  case (Cons st sts)
  from Cons.prems obtain tw' err where st: "runStep ctx st each tw = Some (tw', err)"
    by (auto split: option.splits)
  with Cons.prems Cons.IH [of _ _ tw'] show ?case by (cases err) (auto simp: Let_def)
qed simp

lemma runStep_Some_D:
  "runStep ctx st each tw = Some (tw', err) \<Longrightarrow> \<exists>ctx' r. td_fn st ctx' tw = Some (tw', r)"
  by (auto simp: runStep_def Do_def Let_def split: option.splits)

lemma visits_tail:
  assumes "(n, w) \<in> set (visits ctx each (\<lparr>td_name = m, td_fn = f\<rparr> # sts) tw)" "n \<noteq> m"
  shows "\<exists>c tw' r. f c tw = Some (tw', r) \<and> (n, w) \<in> set (visits ctx each sts tw')"
proof (cases "runStep ctx \<lparr>td_name = m, td_fn = f\<rparr> each tw")
  case None
  with assms show ?thesis by simp
next
  case (Some p)
  obtain tw' err where "p = (tw', err)" by (cases p)
  with assms Some runStep_Some_D [of ctx _ each tw tw' err] show ?thesis by fastforce
qed

lemma visits_name: "(n, w) \<in> set (visits ctx each sts tw) \<Longrightarrow> n \<in> td_name ` set sts"
  by (induction sts arbitrary: tw) (auto split: option.splits)

definition demo_login :: Gate.options where
  "demo_login = \<lparr>go_Provider = True, go_Sessions = True, go_sweeps = True, go_CookiePrefix = [],
     go_Policy = DefaultPolicy, go_RateLimit = 0, go_OnLoginFailure = None, go_LoginFailurePath = [],
     go_ReasonParam = []\<rparr>"

definition demo_opts :: App.options where
  "demo_opts = \<lparr>o_Name = ''svc'', o_Version = ''1'', o_MetricsToken = ''t'', o_CorsOrigins = [], o_Fiber = None,
     o_APIBase = [], o_AuthBase = []\<rparr>"

text \<open>No OTLP endpoint is set, and Prometheus works.\<close>

definition demo_otel :: otel where
  "demo_otel = \<lparr>ot_prometheus = None, ot_otlp_metrics = None, ot_otlp_traces = None, ot_resource = None,
     ot_runtime = Some (Text ''x'')\<rparr>"

definition demo_globals :: globals where
  "demo_globals = \<lparr>gl_meter = None, gl_tracer = None, gl_propagates = False, gl_log = []\<rparr>"

definition demo_logs :: log_choice where
  "demo_logs = \<lparr>lg_given = None, lg_tty = False, lg_level = ''info'', lg_format = ''auto''\<rparr>"

definition demo_build :: info where
  "demo_build = Get_info ([], [], []) None [] [] []"

definition demo_stop :: "'a \<Rightarrow> 'r aworld step_fn" where
  "demo_stop p ctx tw = Some (tw, Done)"

abbreviation demo_boot :: "globals \<times> (gerr + 'r kit) option" where
  "demo_boot \<equiv> New_kit (\<lambda>_. []) demo_otel demo_stop demo_stop any_fiber demo_logs demo_build demo_opts demo_globals"

definition demo_kit :: "'r kit" where
  "demo_kit = (case snd demo_boot of Some (Inr k) \<Rightarrow> k)"

lemma demo_kit: "demo_boot = (fst (demo_boot :: globals \<times> (gerr + 'r kit) option), Some (Inr (demo_kit :: 'r kit)))"
  by (simp add: demo_kit_def New_kit_def Init_tracing_def Init_metrics_def pull_exit_def push_exit_def newFiber_def
      adjusted_config_def any_fiber_def endpoint_of_def demo_otel_def demo_opts_def New_app_def trim_svc Let_def)

theorem boot_total_witness:
  "(\<exists>g' (k :: unit kit). New_kit (\<lambda>_. []) demo_otel demo_stop demo_stop any_fiber demo_logs demo_build demo_opts demo_globals = (g', Some (Inr k)) \<and>
     Names (a_Shutdown (k_App k)) = [''tracing'', ''metrics-export''] \<and>
     HMetrics MetricsPath ''t'' \<in> set (snd (a_HTTP (k_App k)))) \<and>
   (\<exists>g'. New_kit (\<lambda>_. []) demo_otel demo_stop (demo_stop :: _ \<Rightarrow> unit aworld step_fn) (any_fiber\<lparr>fl_cors := \<lambda>os. os = []\<rparr>)
      demo_logs demo_build (demo_opts\<lparr>o_CorsOrigins := [''localhost'']\<rparr>) demo_globals = (g', None) \<and> gl_meter g' \<noteq> None)"
proof (intro conjI)
  show "\<exists>g' (k :: unit kit). New_kit (\<lambda>_. []) demo_otel demo_stop demo_stop any_fiber demo_logs demo_build demo_opts demo_globals = (g', Some (Inr k)) \<and>
     Names (a_Shutdown (k_App k)) = [''tracing'', ''metrics-export''] \<and>
     HMetrics MetricsPath ''t'' \<in> set (snd (a_HTTP (k_App k)))"
    using boot_total [of demo_globals demo_opts "\<lambda>_. []" demo_otel demo_stop demo_stop any_fiber demo_logs demo_build]
    by (auto simp: demo_globals_def demo_opts_def trim_svc demo_otel_def adjusted_config_def any_fiber_def)
  show "\<exists>g'. New_kit (\<lambda>_. []) demo_otel demo_stop (demo_stop :: _ \<Rightarrow> unit aworld step_fn) (any_fiber\<lparr>fl_cors := \<lambda>os. os = []\<rparr>)
      demo_logs demo_build (demo_opts\<lparr>o_CorsOrigins := [''localhost'']\<rparr>) demo_globals = (g', None) \<and> gl_meter g' \<noteq> None"
    using boot_total [of demo_globals "demo_opts\<lparr>o_CorsOrigins := [''localhost'']\<rparr>" "\<lambda>_. []" demo_otel demo_stop
        "demo_stop :: _ \<Rightarrow> unit aworld step_fn" "any_fiber\<lparr>fl_cors := \<lambda>os. os = []\<rparr>" demo_logs demo_build]
    by (auto simp: demo_globals_def demo_opts_def trim_svc demo_otel_def any_fiber_def)
qed

end
