(* ===== verification/Supervise.thy ===== *)
theory Supervise
  imports GoErr
begin

text \<open>
  safe/supervise.go: a group of supervised goroutines and its drain, as a step relation.

  The group is its counter \<open>n\<close>, the holder of its mutex, the channel \<open>idle\<close> and the channels closed
  so far; channels are numbered in the order they are made. Every process of the environment is
  at one point of \<open>Go\<close>'s goroutine (\<open>Running\<close> to \<open>Left\<close>) or of \<open>Wait\<close> (\<open>WaitLocked\<close> to
  \<open>Drained\<close> or \<open>TimedOut\<close>). One step is one atomic action of the code: an operation on the counter,
  taking the mutex, a test made while holding it, or closing the channel; any enabled step of any
  process may come next, so a \<open>Go\<close> can land between any two actions of a drain.

  The respawn loop of a goroutine is the function \<open>Go_loop\<close> over what each run of \<open>fn\<close> does.
\<close>

section \<open>The group\<close>

datatype pc =
    Idle | Running | Leaving | WakeLocked | WakeClosing | Left
  | WaitLocked | WaitMaking | Blocked nat | Drained | TimedOut

record group =
  gr_n :: int
  gr_mu :: "nat option"
  gr_idle :: "nat option"
  gr_made :: nat
  gr_closed :: "nat list"
  gr_pc :: "nat \<Rightarrow> pc"

definition new_group :: group where
  "new_group = \<lparr>gr_n = 0, gr_mu = None, gr_idle = None, gr_made = 0, gr_closed = [], gr_pc = \<lambda>_. Idle\<rparr>"

definition goto :: "nat \<Rightarrow> pc \<Rightarrow> group \<Rightarrow> group" where
  "goto p c g = g\<lparr>gr_pc := (gr_pc g)(p := c)\<rparr>"

definition enter :: "nat \<Rightarrow> group \<Rightarrow> group" where
  "enter p g = goto p Running (g\<lparr>gr_n := gr_n g + 1\<rparr>)"

definition leave :: "nat \<Rightarrow> group \<Rightarrow> group" where
  "leave p g = (let n = gr_n g - 1 in goto p (if n \<noteq> 0 then Left else Leaving) (g\<lparr>gr_n := n\<rparr>))"

definition lock :: "nat \<Rightarrow> pc \<Rightarrow> group \<Rightarrow> group" where
  "lock p c g = goto p c (g\<lparr>gr_mu := Some p\<rparr>)"

definition unlock :: "nat \<Rightarrow> pc \<Rightarrow> group \<Rightarrow> group" where
  "unlock p c g = goto p c (g\<lparr>gr_mu := None\<rparr>)"

definition wake_test :: "nat \<Rightarrow> group \<Rightarrow> group" where
  "wake_test p g = (if gr_idle g \<noteq> None \<and> gr_n g = 0 then goto p WakeClosing g else unlock p Left g)"

text \<open>None is the panic of closing a nil or a closed channel.\<close>

definition wake_close :: "nat \<Rightarrow> group \<Rightarrow> group option" where
  "wake_close p g =
     (case gr_idle g of
        None \<Rightarrow> None
      | Some c \<Rightarrow> if c \<in> set (gr_closed g) then None
                  else Some (unlock p Left (g\<lparr>gr_closed := c # gr_closed g, gr_idle := None\<rparr>)))"

definition wait_load :: "nat \<Rightarrow> group \<Rightarrow> group" where
  "wait_load p g = (if gr_n g = 0 then unlock p Drained g else goto p WaitMaking g)"

definition wait_make :: "nat \<Rightarrow> group \<Rightarrow> group" where
  "wait_make p g =
     (case gr_idle g of
        None \<Rightarrow> unlock p (Blocked (gr_made g)) (g\<lparr>gr_idle := Some (gr_made g), gr_made := gr_made g + 1\<rparr>)
      | Some c \<Rightarrow> unlock p (Blocked c) g)"

datatype action = AGo | AWait | AStep | ATimeout

text \<open>One action of process \<open>p\<close>, where it is enabled: \<open>AGo\<close> and \<open>AWait\<close> start a goroutine and a
  \<open>Wait\<close>, \<open>AStep\<close> goes on, \<open>ATimeout\<close> is the end of the context a \<open>Wait\<close> was given.\<close>

definition act :: "nat \<Rightarrow> action \<Rightarrow> group \<Rightarrow> group option" where
  "act p a g =
     (case (a, gr_pc g p) of
        (AGo, Idle) \<Rightarrow> Some (enter p g)
      | (AStep, Running) \<Rightarrow> Some (leave p g)
      | (AStep, Leaving) \<Rightarrow> if gr_mu g = None then Some (lock p WakeLocked g) else None
      | (AStep, WakeLocked) \<Rightarrow> Some (wake_test p g)
      | (AStep, WakeClosing) \<Rightarrow> wake_close p g
      | (AWait, Idle) \<Rightarrow> if gr_mu g = None then Some (lock p WaitLocked g) else None
      | (AStep, WaitLocked) \<Rightarrow> Some (wait_load p g)
      | (AStep, WaitMaking) \<Rightarrow> Some (wait_make p g)
      | (AStep, Blocked c) \<Rightarrow> if c \<in> set (gr_closed g) then Some (goto p Drained g) else None
      | (ATimeout, Blocked c) \<Rightarrow> Some (goto p TimedOut g)
      | _ \<Rightarrow> None)"

inductive gstep :: "group \<Rightarrow> group \<Rightarrow> bool" where
  gstep: "act p a g = Some g' \<Longrightarrow> gstep g g'"

inductive reachable :: "group \<Rightarrow> bool" where
  start: "reachable new_group"
| step: "reachable g \<Longrightarrow> gstep g g' \<Longrightarrow> reachable g'"

inductive_cases gstepE: "gstep g g'"

section \<open>The respawn loop\<close>

text \<open>What a run of \<open>fn\<close> does; after a panic, what \<open>backoff\<close> sees: the context already done, done
  while the timer runs, or the timer firing.\<close>

datatype run_end = Returned | Panicked pause
and pause = DoneBefore | DoneDuring | Fired

definition restartBackoff :: int where "restartBackoff = 5 * second"

definition backoff :: "pause \<Rightarrow> bool" where
  "backoff s = (case s of DoneBefore \<Rightarrow> False | DoneDuring \<Rightarrow> False | Fired \<Rightarrow> True)"

text \<open>The number of runs and whether the goroutine ends within the given runs.\<close>

fun Go_loop :: "run_end list \<Rightarrow> nat \<times> bool" where
  "Go_loop [] = (0, False)"
| "Go_loop (Returned # rs) = (1, True)"
| "Go_loop (Panicked s # rs) =
     (if \<not> backoff s then (1, True) else (case Go_loop rs of (k, e) \<Rightarrow> (Suc k, e)))"

section \<open>The error of a drain that gave up\<close>

definition ErrDrainTimeout :: string where
  "ErrDrainTimeout = ''safe: timed out waiting for background goroutines to stop''"

definition drain_timeout :: "gerr \<Rightarrow> gerr" where
  "drain_timeout cause = Multi '': '' [Sentinel ErrDrainTimeout, cause]"

section \<open>The invariant\<close>

definition holds :: "pc \<Rightarrow> bool" where
  "holds c \<longleftrightarrow> c \<in> {WakeLocked, WakeClosing, WaitLocked, WaitMaking}"

definition waking :: "pc \<Rightarrow> bool" where
  "waking c \<longleftrightarrow> c \<in> {Leaving, WakeLocked, WakeClosing}"

definition running :: "group \<Rightarrow> nat set" where
  "running g = {p. gr_pc g p = Running}"

definition group_ok :: "group \<Rightarrow> bool" where
  "group_ok g \<longleftrightarrow>
     finite (running g) \<and> gr_n g = int (card (running g)) \<and>
     (\<forall>p. holds (gr_pc g p) \<longleftrightarrow> gr_mu g = Some p) \<and>
     (\<forall>c. gr_idle g = Some c \<longrightarrow> c < gr_made g \<and> c \<notin> set (gr_closed g)) \<and>
     (\<forall>c\<in>set (gr_closed g). c < gr_made g) \<and> distinct (gr_closed g) \<and>
     (\<forall>p c. gr_pc g p = Blocked c \<longrightarrow> c \<in> set (gr_closed g) \<or> gr_idle g = Some c) \<and>
     (\<forall>p. gr_pc g p = WakeClosing \<longrightarrow> gr_idle g \<noteq> None) \<and>
     (gr_n g = 0 \<and> (gr_idle g \<noteq> None \<or> (\<exists>p. gr_pc g p = WaitMaking)) \<longrightarrow> (\<exists>p. waking (gr_pc g p)))"

lemma goto_sel [simp]:
  "gr_n (goto p c g) = gr_n g" "gr_mu (goto p c g) = gr_mu g" "gr_idle (goto p c g) = gr_idle g"
  "gr_made (goto p c g) = gr_made g" "gr_closed (goto p c g) = gr_closed g"
  "gr_pc (goto p c g) = (gr_pc g)(p := c)"
  by (simp_all add: goto_def)

lemma running_upd: "running g' = (if c = Running then insert p (running g) else running g - {p})"
  if "gr_pc g' = (gr_pc g)(p := c)"
  using that by (auto simp: running_def)

lemma holds_simps [simp]:
  "\<not> holds Idle" "\<not> holds Running" "\<not> holds Leaving" "holds WakeLocked" "holds WakeClosing" "\<not> holds Left"
  "holds WaitLocked" "holds WaitMaking" "\<not> holds (Blocked c)" "\<not> holds Drained" "\<not> holds TimedOut"
  by (simp_all add: holds_def)

lemma waking_simps [simp]:
  "\<not> waking Idle" "\<not> waking Running" "waking Leaving" "waking WakeLocked" "waking WakeClosing" "\<not> waking Left"
  "\<not> waking WaitLocked" "\<not> waking WaitMaking" "\<not> waking (Blocked c)" "\<not> waking Drained" "\<not> waking TimedOut"
  by (simp_all add: waking_def)

lemma group_okD:
  assumes "group_ok g"
  shows "finite (running g)" "gr_n g = int (card (running g))" "holds (gr_pc g p) \<longleftrightarrow> gr_mu g = Some p"
    "gr_idle g = Some c \<Longrightarrow> c < gr_made g \<and> c \<notin> set (gr_closed g)" "c \<in> set (gr_closed g) \<Longrightarrow> c < gr_made g"
    "distinct (gr_closed g)" "gr_pc g p = Blocked c \<Longrightarrow> c \<in> set (gr_closed g) \<or> gr_idle g = Some c"
    "gr_pc g p = WakeClosing \<Longrightarrow> gr_idle g \<noteq> None"
    "gr_n g = 0 \<Longrightarrow> gr_idle g \<noteq> None \<or> gr_pc g q = WaitMaking \<Longrightarrow> \<exists>p. waking (gr_pc g p)"
  using assms by (auto simp: group_ok_def)

lemma group_okI:
  assumes ok: "group_ok g" and pc: "gr_pc g' = (gr_pc g)(p := c)"
    and n: "gr_n g' = gr_n g + (if c = Running then 1 else 0) - (if gr_pc g p = Running then 1 else 0)"
      "c \<noteq> Running \<or> gr_pc g p \<noteq> Running"
    and mu: "gr_mu g' = (if holds c then Some p else if holds (gr_pc g p) then None else gr_mu g)"
      "holds c \<Longrightarrow> gr_mu g = None \<or> gr_mu g = Some p"
    and chans: "\<And>d. gr_idle g' = Some d \<Longrightarrow> d < gr_made g' \<and> d \<notin> set (gr_closed g')"
      "\<And>d. d \<in> set (gr_closed g') \<Longrightarrow> d < gr_made g'" "distinct (gr_closed g')"
      "set (gr_closed g) \<subseteq> set (gr_closed g')"
      "\<And>d. gr_idle g = Some d \<Longrightarrow> d \<in> set (gr_closed g') \<or> gr_idle g' = Some d"
    and blocked: "\<And>d. c = Blocked d \<Longrightarrow> d \<in> set (gr_closed g') \<or> gr_idle g' = Some d"
    and closing: "c = WakeClosing \<Longrightarrow> gr_idle g' \<noteq> None"
      "gr_idle g' = None \<Longrightarrow> gr_idle g = None \<or> holds (gr_pc g p)"
    and nolost: "gr_n g' = 0 \<Longrightarrow>
        gr_idle g' \<noteq> None \<or> c = WaitMaking \<or> (\<exists>q. q \<noteq> p \<and> gr_pc g q = WaitMaking) \<Longrightarrow>
        waking c \<or> (\<exists>q. q \<noteq> p \<and> waking (gr_pc g q))"
  shows "group_ok g'"
proof -
  note old = group_okD [OF ok]
  have pcq: "gr_pc g' q = (if q = p then c else gr_pc g q)" for q by (simp add: pc)
  have run: "running g' = (if c = Running then insert p (running g) else running g - {p})"
    by (auto simp: running_def pcq)
  have inr: "p \<in> running g \<longleftrightarrow> gr_pc g p = Running" by (simp add: running_def)
  have 1: "finite (running g')" using old(1) run by simp
  have 2: "gr_n g' = int (card (running g'))"
  proof (cases "gr_pc g p = Running")
    case True
    have "card (running g) = Suc (card (running g - {p}))"
      using card_Suc_Diff1 [OF old(1)] inr True by simp
    with True n run old(2) show ?thesis by simp
  next
    case False
    then have "running g - {p} = running g" using inr by blast
    with False n run old(1,2) inr show ?thesis by simp
  qed
  have 3: "holds (gr_pc g' q) \<longleftrightarrow> gr_mu g' = Some q" for q
  proof (cases "q = p")
    case True
    then show ?thesis using mu(1) old(3) [of p] by (auto simp: pcq split: if_splits)
  next
    case False
    then show ?thesis using mu old(3) [of q] old(3) [of p] by (auto simp: pcq split: if_splits)
  qed
  have 4: "d \<in> set (gr_closed g') \<or> gr_idle g' = Some d" if "gr_pc g' q = Blocked d" for q d
    using that blocked old(7) [of q d] chans(4,5) by (auto simp: pcq split: if_splits)
  have 5: "gr_idle g' \<noteq> None" if "gr_pc g' q = WakeClosing" for q
  proof (cases "q = p")
    case True
    then show ?thesis using that closing(1) by (simp add: pcq)
  next
    case False
    with that have w: "gr_pc g q = WakeClosing" by (simp add: pcq)
    then have "gr_mu g = Some q" using old(3) [of q] by simp
    with False have "\<not> holds (gr_pc g p)" using old(3) [of p] by simp
    with closing(2) old(8) [OF w] show ?thesis by blast
  qed
  have 6: "\<exists>q. waking (gr_pc g' q)"
    if "gr_n g' = 0" "gr_idle g' \<noteq> None \<or> (\<exists>q. gr_pc g' q = WaitMaking)"
  proof -
    have "gr_idle g' \<noteq> None \<or> c = WaitMaking \<or> (\<exists>q. q \<noteq> p \<and> gr_pc g q = WaitMaking)"
      using that(2) by (auto simp: pcq split: if_splits)
    with nolost [OF that(1)] show ?thesis unfolding pcq by metis
  qed
  show ?thesis unfolding group_ok_def using 1 2 3 4 5 6 chans(1-3) by blast
qed

text \<open>What is not changed by a step that touches neither counter nor channels.\<close>

lemma group_ok_keep:
  assumes ok: "group_ok g" and g': "gr_pc g' = (gr_pc g)(p := c)" "gr_n g' = gr_n g" "gr_idle g' = gr_idle g"
      "gr_made g' = gr_made g" "gr_closed g' = gr_closed g"
    and pcs: "gr_pc g p \<noteq> Running" "c \<noteq> Running"
    and mu: "gr_mu g' = (if holds c then Some p else if holds (gr_pc g p) then None else gr_mu g)"
      "holds c \<Longrightarrow> gr_mu g = None \<or> gr_mu g = Some p"
    and "\<And>d. c = Blocked d \<Longrightarrow> gr_idle g = Some d"
    and "c = WakeClosing \<Longrightarrow> gr_idle g \<noteq> None"
    and nm: "gr_n g = 0 \<Longrightarrow> c \<noteq> WaitMaking"
    and wk: "waking (gr_pc g p) \<Longrightarrow> gr_n g = 0 \<Longrightarrow> waking c \<or>
        gr_idle g = None \<and> (\<forall>q. gr_pc g q \<noteq> WaitMaking)"
  shows "group_ok g'"
proof (rule group_okI [OF ok g'(1)])
  note old = group_okD [OF ok]
  assume n: "gr_n g' = 0" and i: "gr_idle g' \<noteq> None \<or> c = WaitMaking \<or> (\<exists>q. q \<noteq> p \<and> gr_pc g q = WaitMaking)"
  then have "gr_idle g \<noteq> None \<or> (\<exists>q. gr_pc g q = WaitMaking)" using nm g'(2,3) by metis
  then obtain q where "waking (gr_pc g q)" using old(9) n g'(2) by metis
  then show "waking c \<or> (\<exists>q. q \<noteq> p \<and> waking (gr_pc g q))"
    using wk \<open>gr_idle g \<noteq> None \<or> (\<exists>q. gr_pc g q = WaitMaking)\<close> n g'(2) by metis
qed (use assms group_okD [OF ok] in auto)

lemma holder: "group_ok g \<Longrightarrow> holds (gr_pc g p) \<Longrightarrow> gr_mu g = Some p \<and> (\<forall>q. holds (gr_pc g q) \<longrightarrow> q = p)"
  using group_okD(3) [of g] by (metis option.inject)

lemma no_maker:
  "group_ok g \<Longrightarrow> holds (gr_pc g p) \<Longrightarrow> gr_pc g p \<noteq> WaitMaking \<Longrightarrow> gr_pc g q \<noteq> WaitMaking"
  using holder [of g p] by (metis holds_simps(8))

lemma enter_ok: "group_ok g \<Longrightarrow> gr_pc g p = Idle \<Longrightarrow> group_ok (enter p g)"
  by (rule group_okI [of g _ p Running])
     (use group_okD [of g] in \<open>auto simp: enter_def\<close>)

lemma leave_ok: "group_ok g \<Longrightarrow> gr_pc g p = Running \<Longrightarrow> group_ok (leave p g)"
  by (rule group_okI [of g _ p "if gr_n g - 1 \<noteq> 0 then Left else Leaving"])
     (use group_okD [of g] in \<open>auto simp: leave_def Let_def split: if_splits\<close>)

lemma lock_ok:
  assumes "group_ok g" "gr_mu g = None" "(gr_pc g p, c) \<in> {(Leaving, WakeLocked), (Idle, WaitLocked)}"
  shows "group_ok (lock p c g)"
  by (rule group_ok_keep [OF assms(1), of _ p c]) (use assms(2,3) in \<open>auto simp: lock_def\<close>)

lemma wake_test_ok:
  assumes "group_ok g" "gr_pc g p = WakeLocked"
  shows "group_ok (wake_test p g)"
proof -
  have "\<forall>q. gr_pc g q \<noteq> WaitMaking" using no_maker [OF assms(1), of p] assms(2) by simp
  moreover have "gr_mu g = Some p" using holder [OF assms(1), of p] assms(2) by simp
  ultimately show ?thesis
    by (intro group_ok_keep [OF assms(1), of _ p "if gr_idle g \<noteq> None \<and> gr_n g = 0 then WakeClosing else Left"])
       (use assms(2) in \<open>auto simp: wake_test_def unlock_def split: if_splits\<close>)
qed

lemma wake_close_ok:
  assumes "group_ok g" "gr_pc g p = WakeClosing"
  shows "\<exists>g'. wake_close p g = Some g' \<and> group_ok g'"
proof -
  note old = group_okD [OF assms(1)]
  obtain c where c: "gr_idle g = Some c" using old(8) [OF assms(2)] by blast
  let ?g = "unlock p Left (g\<lparr>gr_closed := c # gr_closed g, gr_idle := None\<rparr>)"
  have "\<forall>q. gr_pc g q \<noteq> WaitMaking" using no_maker [OF assms(1), of p] assms(2) by simp
  then have "group_ok ?g"
    by (intro group_okI [OF assms(1), of _ p Left]) (use assms(2) c old(4-6) in \<open>auto simp: unlock_def\<close>)
  moreover have "wake_close p g = Some ?g" using c old(4) [OF c] by (simp add: wake_close_def)
  ultimately show ?thesis by blast
qed

lemma wait_load_ok: "group_ok g \<Longrightarrow> gr_pc g p = WaitLocked \<Longrightarrow> group_ok (wait_load p g)"
  by (rule group_ok_keep [of g _ p "if gr_n g = 0 then Drained else WaitMaking"])
     (use holder [of g p] in \<open>auto simp: wait_load_def unlock_def split: if_splits\<close>)

lemma wait_make_ok:
  assumes "group_ok g" "gr_pc g p = WaitMaking"
  shows "group_ok (wait_make p g)"
proof (cases "gr_idle g")
  case (Some c)
  then show ?thesis
    by (intro group_ok_keep [OF assms(1), of _ p "Blocked c"])
       (use assms in \<open>auto simp: wait_make_def unlock_def\<close>)
next
  case None
  note old = group_okD [OF assms(1)]
  have w: "\<exists>q. q \<noteq> p \<and> waking (gr_pc g q)" if "gr_n g = 0"
    using old(9) [OF that, of p] assms(2) by force
  have "gr_made g \<notin> set (gr_closed g)" "\<And>c. c \<in> set (gr_closed g) \<Longrightarrow> c < Suc (gr_made g)"
    using old(5) by (auto dest: less_SucI)
  with None w show ?thesis
    by (intro group_okI [OF assms(1), of _ p "Blocked (gr_made g)"])
       (use assms(2) old(6) in \<open>auto simp: wait_make_def unlock_def\<close>)
qed

lemma goto_ok:
  assumes "group_ok g" "gr_pc g p = Blocked c" "d \<in> {Drained, TimedOut}"
  shows "group_ok (goto p d g)"
  by (rule group_ok_keep [OF assms(1), of _ p d]) (use assms(2,3) in auto)

lemma act_ok: "group_ok g \<Longrightarrow> act p a g = Some g' \<Longrightarrow> group_ok g'"
  using wake_close_ok [of g p]
  by (auto simp: act_def enter_ok leave_ok lock_ok wake_test_ok wait_load_ok wait_make_ok goto_ok
      split: action.splits pc.splits if_splits)

lemma reachable_ok: "reachable g \<Longrightarrow> group_ok g"
proof (induction rule: reachable.induct)
  case start
  show ?case by (simp add: group_ok_def new_group_def running_def)
next
  case (step g g')
  then show ?case by (auto elim!: gstepE intro: act_ok)
qed

section \<open>What a drain observes\<close>

text \<open>\<open>watched w g seen\<close>: an execution reached \<open>g\<close>, and \<open>seen\<close> tells whether the counter has been
  zero at some moment since process \<open>w\<close> called \<open>Wait\<close>.\<close>

inductive watched :: "nat \<Rightarrow> group \<Rightarrow> bool \<Rightarrow> bool" for w where
  begin_watch: "reachable g \<Longrightarrow> gr_pc g w = Idle \<Longrightarrow> watched w g False"
| watch: "watched w g seen \<Longrightarrow> act p a g = Some g' \<Longrightarrow>
    watched w g' (gr_pc g' w \<noteq> Idle \<and> (seen \<or> gr_n g' = 0))"

lemma watched_ok: "watched w g seen \<Longrightarrow> group_ok g"
  by (induction rule: watched.induct) (auto intro: reachable_ok act_ok)

definition justified :: "nat \<Rightarrow> group \<Rightarrow> bool \<Rightarrow> bool" where
  "justified w g seen \<longleftrightarrow> seen \<or> gr_pc g w \<noteq> Drained \<and>
     (\<forall>c. gr_pc g w = Blocked c \<longrightarrow> c \<notin> set (gr_closed g) \<and>
        (gr_idle g = Some c \<longrightarrow> (\<forall>p. gr_pc g p \<noteq> WakeClosing)))"

lemma act_cases:
  assumes "act p a g = Some g'"
  obtains (enters) "gr_pc g p = Idle" "g' = enter p g"
  | (leaves) "gr_pc g p = Running" "g' = leave p g"
  | (wakes) "gr_pc g p = Leaving" "gr_mu g = None" "g' = lock p WakeLocked g"
  | (tests) "gr_pc g p = WakeLocked" "g' = wake_test p g"
  | (closes) "gr_pc g p = WakeClosing" "wake_close p g = Some g'"
  | (waits) "gr_pc g p = Idle" "gr_mu g = None" "g' = lock p WaitLocked g"
  | (loads) "gr_pc g p = WaitLocked" "g' = wait_load p g"
  | (makes) "gr_pc g p = WaitMaking" "g' = wait_make p g"
  | (drains) c where "gr_pc g p = Blocked c" "c \<in> set (gr_closed g)" "g' = goto p Drained g"
  | (gives_up) c where "gr_pc g p = Blocked c" "g' = goto p TimedOut g"
proof (cases "gr_pc g p")
  case Idle
  with assms show ?thesis using enters waits by (cases a) (simp_all add: act_def split: if_splits)
next
  case Running
  with assms show ?thesis using leaves by (cases a) (simp_all add: act_def)
next
  case Leaving
  with assms show ?thesis using wakes by (cases a) (simp_all add: act_def split: if_splits)
next
  case WakeLocked
  with assms show ?thesis using tests by (cases a) (simp_all add: act_def)
next
  case WakeClosing
  with assms show ?thesis using closes by (cases a) (simp_all add: act_def)
next
  case WaitLocked
  with assms show ?thesis using loads by (cases a) (simp_all add: act_def)
next
  case WaitMaking
  with assms show ?thesis using makes by (cases a) (simp_all add: act_def)
next
  case (Blocked c)
  with assms show ?thesis using drains gives_up by (cases a) (simp_all add: act_def split: if_splits)
next
  case Left
  with assms show ?thesis by (cases a) (simp_all add: act_def)
next
  case Drained
  with assms show ?thesis by (cases a) (simp_all add: act_def)
next
  case TimedOut
  with assms show ?thesis by (cases a) (simp_all add: act_def)
qed

lemma justified_act:
  assumes ok: "group_ok g" and j: "justified w g seen" and a: "act p a g = Some g'"
  shows "justified w g' (gr_pc g' w \<noteq> Idle \<and> (seen \<or> gr_n g' = 0))"
proof (cases "seen \<or> gr_n g' = 0")
  case True
  then show ?thesis by (auto simp: justified_def)
next
  case False
  then have ns: "\<not> seen" and n: "gr_n g' \<noteq> 0" by simp_all
  from j ns have w: "gr_pc g w \<noteq> Drained"
    "\<And>c. gr_pc g w = Blocked c \<Longrightarrow> c \<notin> set (gr_closed g) \<and> (gr_idle g = Some c \<longrightarrow> (\<forall>p. gr_pc g p \<noteq> WakeClosing))"
    by (auto simp: justified_def)
  have nw: "gr_pc g q \<noteq> WakeClosing" if "holds (gr_pc g p)" "gr_pc g p \<noteq> WakeClosing" for q
    using holder [OF ok, of p] that by (metis holds_simps(5))
  have blk: "\<And>c. gr_pc g w = Blocked c \<Longrightarrow> gr_idle g = Some c" using group_okD(7) [OF ok] w(2) by blast
  have "gr_pc g' w \<noteq> Drained \<and> (\<forall>c. gr_pc g' w = Blocked c \<longrightarrow> c \<notin> set (gr_closed g') \<and>
        (gr_idle g' = Some c \<longrightarrow> (\<forall>p. gr_pc g' p \<noteq> WakeClosing)))"
    using a
  proof (cases rule: act_cases)
    case enters then show ?thesis using w by (auto simp: enter_def)
  next
    case leaves then show ?thesis using w by (auto simp: leave_def Let_def)
  next
    case wakes then show ?thesis using w by (auto simp: lock_def)
  next
    case tests then show ?thesis using w n nw by (auto simp: wake_test_def unlock_def split: if_splits)
  next
    case closes
    then show ?thesis using w blk by (auto simp: wake_close_def unlock_def split: option.splits if_splits)
  next
    case waits then show ?thesis using w by (auto simp: lock_def)
  next
    case loads then show ?thesis using w n nw by (auto simp: wait_load_def unlock_def split: if_splits)
  next
    case makes
    have "gr_made g \<notin> set (gr_closed g)" using group_okD(5) [OF ok] by blast
    with makes show ?thesis using w n nw group_okD(4) [OF ok] by (auto simp: wait_make_def unlock_def split: option.splits if_splits)
  next
    case drains then show ?thesis using w by auto
  next
    case gives_up then show ?thesis using w by auto
  qed
  then show ?thesis by (simp add: justified_def)
qed

lemma watched_justified: "watched w g seen \<Longrightarrow> justified w g seen"
proof (induction rule: watched.induct)
  case (begin_watch g)
  then show ?case by (simp add: justified_def)
next
  case (watch g seen p a g')
  then show ?case using justified_act [OF watched_ok] by blast
qed

section \<open>Progress\<close>

text \<open>Steps of the processes already under way: no new goroutine, no new \<open>Wait\<close>, no timeout.\<close>

fun run_on :: "nat list \<Rightarrow> group \<Rightarrow> group option" where
  "run_on [] g = Some g"
| "run_on (p # ps) g = (case act p AStep g of None \<Rightarrow> None | Some g' \<Rightarrow> run_on ps g')"

definition frees :: "nat \<Rightarrow> nat \<Rightarrow> group \<Rightarrow> bool" where
  "frees k w g \<longleftrightarrow> (\<exists>ps g'. length ps \<le> k \<and> run_on ps g = Some g' \<and> gr_pc g' w = Drained)"

lemma frees_step: "act p AStep g = Some g' \<Longrightarrow> frees k w g' \<Longrightarrow> frees (Suc k) w g"
  unfolding frees_def
proof -
  assume a: "act p AStep g = Some g'" and "\<exists>ps h. length ps \<le> k \<and> run_on ps g' = Some h \<and> gr_pc h w = Drained"
  then obtain ps h where "length ps \<le> k" "run_on ps g' = Some h" "gr_pc h w = Drained" by blast
  with a have "length (p # ps) \<le> Suc k \<and> run_on (p # ps) g = Some h \<and> gr_pc h w = Drained" by simp
  then show "\<exists>ps h. length ps \<le> Suc k \<and> run_on ps g = Some h \<and> gr_pc h w = Drained" by blast
qed

lemma frees_mono: "frees k w g \<Longrightarrow> k \<le> l \<Longrightarrow> frees l w g"
  unfolding frees_def by (meson le_trans)

lemma frees_closed: "gr_pc g w = Blocked c \<Longrightarrow> c \<in> set (gr_closed g) \<Longrightarrow> frees 1 w g"
  by (simp add: frees_def, rule exI [of _ "[w]"]) (simp add: act_def)

lemma frees_closing:
  assumes "gr_pc g w = Blocked c" "gr_idle g = Some c" "c \<notin> set (gr_closed g)" "gr_pc g p = WakeClosing"
  shows "frees 2 w g"
proof -
  let ?g = "unlock p Left (g\<lparr>gr_closed := c # gr_closed g, gr_idle := None\<rparr>)"
  have "act p AStep g = Some ?g" using assms by (simp add: act_def wake_close_def)
  moreover have "w \<noteq> p" using assms by auto
  then have "frees 1 w ?g" using assms by (intro frees_closed [of _ w c]) (simp_all add: unlock_def)
  ultimately show ?thesis using frees_step by (metis Suc_1)
qed

lemma frees_locked:
  assumes "gr_pc g w = Blocked c" "gr_idle g = Some c" "c \<notin> set (gr_closed g)" "gr_pc g p = WakeLocked" "gr_n g = 0"
  shows "frees 3 w g"
proof -
  have "act p AStep g = Some (goto p WakeClosing g)" using assms by (simp add: act_def wake_test_def)
  moreover have "w \<noteq> p" using assms by auto
  then have "frees 2 w (goto p WakeClosing g)" using assms by (intro frees_closing [of _ w c p]) simp_all
  ultimately show ?thesis using frees_step by (metis eval_nat_numeral(3))
qed

lemma frees_leaving:
  assumes "gr_pc g w = Blocked c" "gr_idle g = Some c" "c \<notin> set (gr_closed g)" "gr_pc g p = Leaving" "gr_n g = 0"
    "gr_mu g = None"
  shows "frees 4 w g"
proof -
  have "act p AStep g = Some (lock p WakeLocked g)" using assms by (simp add: act_def)
  moreover have "w \<noteq> p" using assms by auto
  then have "frees 3 w (lock p WakeLocked g)"
    using assms by (intro frees_locked [of _ w c p]) (simp_all add: lock_def)
  ultimately show ?thesis using frees_step [of p g "lock p WakeLocked g" 3 w] by simp
qed

lemma frees_waking:
  assumes ok: "group_ok g" and w: "gr_pc g w = Blocked c" "gr_idle g = Some c" "c \<notin> set (gr_closed g)" "gr_n g = 0"
    and p: "gr_pc g p = Leaving" "gr_mu g = Some q"
  shows "frees 5 w g"
proof -
  have q: "holds (gr_pc g q)" using group_okD(3) [OF ok] p(2) by blast
  then have wq: "w \<noteq> q" "p \<noteq> q" using w(1) p(1) by auto
  from q consider "gr_pc g q = WakeLocked" | "gr_pc g q = WakeClosing" | "gr_pc g q = WaitLocked" | "gr_pc g q = WaitMaking"
    by (auto simp: holds_def)
  then show ?thesis
  proof cases
    case 1
    then show ?thesis using frees_locked [OF w(1-3) _ w(4)] frees_mono [of 3 w g 5] by simp
  next
    case 2
    then show ?thesis using frees_closing [OF w(1-3)] frees_mono [of 2 w g 5] by simp
  next
    case 3
    have "act q AStep g = Some (unlock q Drained g)" using 3 w(4) by (simp add: act_def wait_load_def)
    moreover have "frees 4 w (unlock q Drained g)"
      using w p wq by (intro frees_leaving [of _ w c p]) (simp_all add: unlock_def)
    ultimately show ?thesis using frees_step [of q g _ 4 w] by simp
  next
    case 4
    have "act q AStep g = Some (unlock q (Blocked c) g)" using 4 w(2) by (simp add: act_def wait_make_def)
    moreover have "frees 4 w (unlock q (Blocked c) g)"
      using w p wq by (intro frees_leaving [of _ w c p]) (simp_all add: unlock_def)
    ultimately show ?thesis using frees_step [of q g _ 4 w] by simp
  qed
qed

section \<open>Properties\<close>

text \<open>
  A drain does not lie: whatever goroutines come and go around it, a \<open>Wait\<close> that returns nil
  had, at some moment since it was called, no supervised goroutine alive; and the counter is the
  number of them at every moment.
\<close>

theorem drain_truthful:
  assumes "watched w g seen" and "gr_pc g w = Drained"
  shows "seen \<and> gr_n g = int (card (running g))"
  using watched_justified [OF assms(1)] group_okD(2) [OF watched_ok [OF assms(1)]] assms(2)
  by (auto simp: justified_def)

text \<open>A goroutine 0 and a drain 1 that waits for it.\<close>

definition demo_waiting :: group where
  "demo_waiting = wait_make 1 (wait_load 1 (lock 1 WaitLocked (enter 0 new_group)))"

lemma demo_watched: "\<exists>seen. watched 1 demo_waiting seen"
proof -
  have "act 0 AGo new_group = Some (enter 0 new_group)"
    "act 1 AWait (enter 0 new_group) = Some (lock 1 WaitLocked (enter 0 new_group))"
    "act 1 AStep (lock 1 WaitLocked (enter 0 new_group)) = Some (wait_load 1 (lock 1 WaitLocked (enter 0 new_group)))"
    "act 1 AStep (wait_load 1 (lock 1 WaitLocked (enter 0 new_group))) = Some demo_waiting"
    by (simp_all add: act_def demo_waiting_def wait_load_def unlock_def lock_def enter_def new_group_def)
  moreover have "watched 1 new_group False" by (rule begin_watch [OF start]) (simp add: new_group_def)
  ultimately show ?thesis by (meson watch)
qed

lemma watched_run: "watched w g seen \<Longrightarrow> run_on ps g = Some g' \<Longrightarrow> \<exists>seen'. watched w g' seen'"
  by (induction ps arbitrary: g seen) (auto split: option.splits dest: watch)

lemma demo_run: "\<exists>g. run_on [0, 0, 0, 0, 1] demo_waiting = Some g \<and> gr_pc g 1 = Drained"
  by (simp add: act_def demo_waiting_def wait_make_def wait_load_def unlock_def lock_def enter_def new_group_def
      leave_def Let_def wake_test_def wake_close_def)

theorem drain_truthful_witness:
  "\<exists>g. run_on [0, 0, 0, 0, 1] demo_waiting = Some g \<and> gr_n g = int (card (running g)) \<and> gr_pc g 1 = Drained"
proof -
  obtain seen where "watched 1 demo_waiting seen" using demo_watched by blast
  moreover obtain g where g: "run_on [0, 0, 0, 0, 1] demo_waiting = Some g" "gr_pc g 1 = Drained"
    using demo_run by blast
  ultimately obtain seen' where "watched 1 g seen'" using watched_run by blast
  from drain_truthful [OF this g(2)] g show ?thesis by blast
qed

text \<open>
  C19: no wake-up is lost: in every reachable state with no goroutine alive, each waiting drain is at
  most five steps of processes already under way from returning nil, whichever races led there; and
  the step that closes the channel never closes a nil or a closed one.
\<close>

theorem drain_wakes:
  assumes "reachable g" and "gr_n g = 0" and "gr_pc g w = Blocked c"
  shows "(\<exists>ps g'. length ps \<le> 5 \<and> run_on ps g = Some g' \<and> gr_pc g' w = Drained) \<and>
    (\<forall>p. gr_pc g p \<noteq> WakeClosing \<or> wake_close p g \<noteq> None)"
proof
  have ok: "group_ok g" using assms(1) by (rule reachable_ok)
  show "\<forall>p. gr_pc g p \<noteq> WakeClosing \<or> wake_close p g \<noteq> None" using wake_close_ok [OF ok] by blast
  have "frees 5 w g"
  proof (cases "c \<in> set (gr_closed g)")
    case True
    then show ?thesis using frees_closed [OF assms(3)] frees_mono [of 1 w g 5] by simp
  next
    case False
    with group_okD(7) [OF ok assms(3)] have i: "gr_idle g = Some c" by blast
    obtain p where "waking (gr_pc g p)" using group_okD(9) [OF ok assms(2), of w] i by blast
    then consider "gr_pc g p = Leaving" | "gr_pc g p = WakeLocked" | "gr_pc g p = WakeClosing"
      by (auto simp: waking_def)
    then show ?thesis
    proof cases
      case 1
      then show ?thesis
        using frees_leaving [OF assms(3) i False _ assms(2)] frees_waking [OF ok assms(3) i False assms(2)] frees_mono [of 4 w g 5]
        by (cases "gr_mu g") auto
    next
      case 2
      then show ?thesis using frees_locked [OF assms(3) i False _ assms(2)] frees_mono [of 3 w g 5] by simp
    next
      case 3
      then show ?thesis using frees_closing [OF assms(3) i False] frees_mono [of 2 w g 5] by simp
    qed
  qed
  then show "\<exists>ps g'. length ps \<le> 5 \<and> run_on ps g = Some g' \<and> gr_pc g' w = Drained" by (simp add: frees_def)
qed

theorem drain_wakes_witness:
  "\<exists>ps g'. run_on ps (leave 0 demo_waiting) = Some g' \<and> gr_pc g' 1 = Drained"
proof -
  have "reachable demo_waiting"
  proof -
    have "gstep new_group (enter 0 new_group)" "gstep (enter 0 new_group) (lock 1 WaitLocked (enter 0 new_group))"
      "gstep (lock 1 WaitLocked (enter 0 new_group)) (wait_load 1 (lock 1 WaitLocked (enter 0 new_group)))"
      "gstep (wait_load 1 (lock 1 WaitLocked (enter 0 new_group))) demo_waiting"
      by (rule gstep [of 0 AGo], simp add: act_def new_group_def)
         (rule gstep [of 1 AWait], simp add: act_def new_group_def enter_def,
          rule gstep [of 1 AStep], simp add: act_def lock_def,
          rule gstep [of 1 AStep], simp add: act_def demo_waiting_def wait_load_def lock_def enter_def new_group_def)
    then show ?thesis by (meson reachable.intros)
  qed
  moreover have "act 0 AStep demo_waiting = Some (leave 0 demo_waiting)"
    by (simp add: act_def demo_waiting_def wait_make_def wait_load_def unlock_def lock_def enter_def new_group_def)
  ultimately have "reachable (leave 0 demo_waiting)" using gstep step by blast
  moreover have "gr_n (leave 0 demo_waiting) = 0" "gr_pc (leave 0 demo_waiting) 1 = Blocked 0"
    by (simp_all add: demo_waiting_def wait_make_def wait_load_def unlock_def lock_def enter_def new_group_def leave_def Let_def)
  ultimately show ?thesis using drain_wakes [of "leave 0 demo_waiting" 1 0] by blast
qed

text \<open>A goroutine is run again exactly as long as its runs panic and the pause after them ends with
  the timer.\<close>

lemma Go_loop_panics:
  "Go_loop (replicate k (Panicked Fired) @ r # rs) =
     (if r = Panicked Fired then (case Go_loop rs of (j, e) \<Rightarrow> (Suc k + j, e)) else (Suc k, True))"
  by (induction k) (cases r; auto simp: backoff_def split: pause.splits prod.splits)+

end
