(* ===== verification/Teardown.thy ===== *)
theory Teardown
  imports Neokit Supervise
begin

text \<open>
  app/run.go, lifecycle/lifecycle.go and safe/supervise.go together: the teardown of a running
  application with the process-wide group of Supervise in its world. \<open>WaitGo\<close>, a parameter of App, is
  here the drain of that group: between the start of its step and its end the goroutines and the
  \<open>Wait\<close> of process \<open>w\<close> take steps in whatever order \<open>sched\<close> says, and it returns when \<open>Wait\<close> does.
\<close>

section \<open>The drain as a step of the teardown\<close>

record 'r jworld =
  jw_group :: group
  jw_own :: 'r

abbreviation group_of :: "instant \<times> 'r jworld aworld \<Rightarrow> group" where
  "group_of tw \<equiv> jw_group (aw_rest (snd tw))"

type_synonym schedule = "instant option \<Rightarrow> instant \<Rightarrow> group \<Rightarrow> (nat \<times> action) list \<times> instant \<times> gerr"

fun run_acts :: "(nat \<times> action) list \<Rightarrow> group \<Rightarrow> group option" where
  "run_acts [] g = Some g"
| "run_acts ((p, a) # as) g = (case act p a g of None \<Rightarrow> None | Some g' \<Rightarrow> run_acts as g')"

text \<open>What happens while it waits, when it returns and with which cause it would give up are
  arguments; it hangs (None) if its \<open>Wait\<close> has not returned then.\<close>

definition WaitGo :: "schedule \<Rightarrow> nat \<Rightarrow> 'r jworld aworld step_fn" where
  "WaitGo sched w ctx tw =
     (let (as, t', cause) = sched ctx (fst tw) (group_of tw) in
      case run_acts as (group_of tw) of
        None \<Rightarrow> None
      | Some g \<Rightarrow>
          (let tw' = (t', (snd tw)\<lparr>aw_rest := (aw_rest (snd tw))\<lparr>jw_group := g\<rparr>\<rparr>) in
           case gr_pc g w of
             Drained \<Rightarrow> Some (tw', Done)
           | TimedOut \<Rightarrow> Some (tw', Failed (drain_timeout cause))
           | _ \<Rightarrow> None))"

section \<open>A drain that returned nil\<close>

lemma run_acts_append:
  "run_acts (as @ bs) g = (case run_acts as g of None \<Rightarrow> None | Some g' \<Rightarrow> run_acts bs g')"
  by (induction as g rule: run_acts.induct) (auto split: option.split)

text \<open>The moment a drain has seen.\<close>

lemma run_acts_watched:
  assumes "reachable g" and "gr_pc g w = Idle"
  shows "run_acts as g = Some g' \<Longrightarrow>
    \<exists>seen. watched w g' seen \<and> (seen \<longrightarrow> (\<exists>as1 as2 g0. as = as1 @ as2 \<and> run_acts as1 g = Some g0 \<and> gr_n g0 = 0 \<and> group_ok g0))"
proof (induction as arbitrary: g' rule: rev_induct)
  case Nil
  then show ?case using begin_watch [OF assms] by auto
next
  case (snoc x as)
  obtain p a where x: "x = (p, a)" by (cases x)
  obtain g1 where 1: "run_acts as g = Some g1" and a: "act p a g1 = Some g'"
    using snoc.prems by (auto simp: run_acts_append x split: option.splits)
  from snoc.IH [OF 1] obtain seen where s: "watched w g1 seen"
    "seen \<longrightarrow> (\<exists>as1 as2 g0. as = as1 @ as2 \<and> run_acts as1 g = Some g0 \<and> gr_n g0 = 0 \<and> group_ok g0)" by blast
  note ww = watch [OF s(1) a]
  have "\<exists>as1 as2 g0. as @ [x] = as1 @ as2 \<and> run_acts as1 g = Some g0 \<and> gr_n g0 = 0 \<and> group_ok g0"
    if "gr_pc g' w \<noteq> Idle \<and> (seen \<or> gr_n g' = 0)"
    using that
  proof (elim conjE disjE)
    assume seen
    then obtain as1 as2 g0 where "as = as1 @ as2" "run_acts as1 g = Some g0" "gr_n g0 = 0" "group_ok g0" using s(2) by blast
    then show ?thesis by (intro exI [of _ as1] exI [of _ "as2 @ [x]"]) auto
  next
    assume "gr_n g' = 0"
    then show ?thesis using snoc.prems watched_ok [OF ww] by (intro exI [of _ "as @ [x]"] exI [of _ "[]"]) auto
  qed
  with ww show ?case by blast
qed

lemma act_running: "act p a g = Some g' \<Longrightarrow> a \<noteq> AGo \<Longrightarrow> running g' \<subseteq> running g"
  by (auto simp: act_def running_def leave_def lock_def unlock_def wake_test_def wake_close_def wait_load_def wait_make_def
      Let_def split: action.splits pc.splits if_splits option.splits)

lemma run_acts_running:
  "run_acts as g = Some g' \<Longrightarrow> (\<And>p. (p, AGo) \<notin> set as) \<Longrightarrow> running g' \<subseteq> running g"
proof (induction as g rule: run_acts.induct)
  case (2 p a as g)
  then obtain g1 where 1: "act p a g = Some g1" "run_acts as g1 = Some g'" by (auto split: option.splits)
  from "2.prems"(2) have "a \<noteq> AGo" "\<And>p. (p, AGo) \<notin> set as" by auto
  with "2.IH" [OF 1(1,2)] act_running [OF 1(1)] show ?case by blast
qed simp

text \<open>\<open>joined g g'\<close>: between \<open>g\<close> and \<open>g'\<close> there was a moment with no goroutine running, and there is
  none in \<open>g'\<close> unless one was started after it.\<close>

definition joined :: "group \<Rightarrow> group \<Rightarrow> bool" where
  "joined g g' \<longleftrightarrow> (\<exists>as1 as2 g0. run_acts as1 g = Some g0 \<and> running g0 = {} \<and> run_acts as2 g0 = Some g' \<and>
     (running g' = {} \<or> (\<exists>p. (p, AGo) \<in> set as2)))"

lemma WaitGo_ends:
  assumes "WaitGo sched w ctx tw = Some (tw', r)" and "reachable (group_of tw)" and "gr_pc (group_of tw) w = Idle"
  shows "r = Done \<and> joined (group_of tw) (group_of tw') \<or> (\<exists>c. r = Failed (drain_timeout c))"
proof -
  obtain as t' cause where sc: "sched ctx (fst tw) (group_of tw) = (as, t', cause)" by (metis prod_cases3)
  obtain g where g: "run_acts as (group_of tw) = Some g" using assms(1) by (auto simp: WaitGo_def sc split: option.splits)
  show ?thesis
  proof (cases "gr_pc g w = Drained")
    case True
    with assms(1) g have r: "r = Done" "group_of tw' = g" by (auto simp: WaitGo_def sc Let_def)
    obtain seen where "watched w g seen"
      and m: "seen \<longrightarrow> (\<exists>as1 as2 g0. as = as1 @ as2 \<and> run_acts as1 (group_of tw) = Some g0 \<and> gr_n g0 = 0 \<and> group_ok g0)"
      using run_acts_watched [OF assms(2,3) g] by blast
    with watched_justified True have seen by (auto simp: justified_def)
    with m obtain as1 as2 g0 where "as = as1 @ as2" and 1: "run_acts as1 (group_of tw) = Some g0" "gr_n g0 = 0" "group_ok g0"
      by blast
    with g have 2: "run_acts as2 g0 = Some g" by (simp add: run_acts_append)
    have 0: "running g0 = {}" using 1(2,3) group_okD(1,2) [OF 1(3)] by simp
    with run_acts_running [OF 2] have "running g = {} \<or> (\<exists>p. (p, AGo) \<in> set as2)" by blast
    with 0 1 2 r show ?thesis by (auto simp: joined_def)
  next
    case False
    with assms(1) g have "r = Failed (drain_timeout cause)" by (auto simp: WaitGo_def sc Let_def split: pc.splits)
    then show ?thesis by blast
  qed
qed

text \<open>The first step of a sweep that ended: how it ran, and what the sweep makes of it.\<close>

lemma sweep_keeps: "sweep ctx each sts errs log tw = Some (tw', errs', log') \<Longrightarrow> set errs \<subseteq> set errs'"
  by (drule sweep_logs) auto

lemma sweep_firstD:
  assumes "sweep ctx each (\<lparr>td_name = n, td_fn = f\<rparr> # sts) errs log tw = Some (z, errs', log')"
  obtains c tw' r errs1 log1 where "f c tw = Some (tw', r)"
    "visits ctx each (\<lparr>td_name = n, td_fn = f\<rparr> # sts) tw = (n, snd tw) # visits ctx each sts tw'"
    "sweep ctx each sts errs1 log1 tw' = Some (z, errs', log')" "\<And>e. r = Failed e \<Longrightarrow> step_error n e \<in> set errs'"
proof -
  obtain tw' err where st: "runStep ctx \<lparr>td_name = n, td_fn = f\<rparr> each tw = Some (tw', err)"
    using assms by (auto split: option.splits)
  then obtain c r where c: "f c tw = Some (tw', r)" and e: "\<And>e. r = Failed e \<Longrightarrow> err = Some e"
    by (auto simp: runStep_def Do_def Let_def split: option.splits outcome.splits if_splits)
  have v: "visits ctx each (\<lparr>td_name = n, td_fn = f\<rparr> # sts) tw = (n, snd tw) # visits ctx each sts tw'"
    by (simp add: st)
  show ?thesis
  proof (cases err)
    case None
    with assms st obtain log1 where "sweep ctx each sts errs log1 tw' = Some (z, errs', log')" by (auto simp: Let_def)
    with None e show ?thesis by (intro that [OF c v]) auto
  next
    case (Some x)
    with assms st obtain log1 where s: "sweep ctx each sts (errs @ [step_error n x]) log1 tw' = Some (z, errs', log')"
      by (auto simp: Let_def)
    with Some e sweep_keeps [OF s] show ?thesis by (intro that [OF c v s]) auto
  qed
qed

text \<open>The four steps \<open>Run\<close> pushes, in a sweep that ended.\<close>

lemma run_steps_worlds:
  assumes "sweep ctx each
     (\<lparr>td_name = ''streams'', td_fn = (\<lambda>ctx. signalShutdown)\<rparr> #
      \<lparr>td_name = ''api'', td_fn = (\<lambda>ctx. drain httpDrainTimeout)\<rparr> #
      \<lparr>td_name = ''background-context'', td_fn = (\<lambda>ctx. app_cancel)\<rparr> #
      \<lparr>td_name = ''background-work'', td_fn = waitGo\<rparr> # own) errs log tw = Some (z, errs', log')" (is "sweep _ _ ?sts _ _ _ = _")
  obtains w2 r2 c nx r where "drain httpDrainTimeout (fst tw, (snd tw)\<lparr>aw_released := True\<rparr>) = Some (w2, r2)"
    "waitGo c (fst w2, (snd w2)\<lparr>aw_cancelled := True\<rparr>) = Some (nx, r)"
    "visits ctx each ?sts tw = [(''streams'', snd tw), (''api'', (snd tw)\<lparr>aw_released := True\<rparr>), (''background-context'', snd w2),
      (''background-work'', (snd w2)\<lparr>aw_cancelled := True\<rparr>)] @ visits ctx each own nx"
    "\<forall>e. r = Failed e \<longrightarrow> step_error ''background-work'' e \<in> set errs'"
proof -
  from assms obtain w1 r1 errs1 log1 where 1: "signalShutdown tw = Some (w1, r1)"
    and v1: "visits ctx each ?sts tw = (''streams'', snd tw) # visits ctx each (tl ?sts) w1"
    and s1: "sweep ctx each (tl ?sts) errs1 log1 w1 = Some (z, errs', log')"
    by (rule sweep_firstD) simp
  from s1 [unfolded list.sel] obtain w2 r2 errs2 log2 where 2: "drain httpDrainTimeout w1 = Some (w2, r2)"
    and v2: "visits ctx each (tl ?sts) w1 = (''api'', snd w1) # visits ctx each (tl (tl ?sts)) w2"
    and s2: "sweep ctx each (tl (tl ?sts)) errs2 log2 w2 = Some (z, errs', log')"
    by (rule sweep_firstD) simp
  from s2 [unfolded list.sel] obtain w3 r3 errs3 log3 where 3: "app_cancel w2 = Some (w3, r3)"
    and v3: "visits ctx each (tl (tl ?sts)) w2 = (''background-context'', snd w2) # visits ctx each (tl (tl (tl ?sts))) w3"
    and s3: "sweep ctx each (tl (tl (tl ?sts))) errs3 log3 w3 = Some (z, errs', log')"
    by (rule sweep_firstD) simp
  from s3 [unfolded list.sel] obtain c nx r where 4: "waitGo c w3 = Some (nx, r)"
    and v4: "visits ctx each (tl (tl (tl ?sts))) w3 = (''background-work'', snd w3) # visits ctx each own nx"
    and e: "\<And>e. r = Failed e \<Longrightarrow> step_error ''background-work'' e \<in> set errs'"
    by (rule sweep_firstD) simp
  have w: "w1 = (fst tw, (snd tw)\<lparr>aw_released := True\<rparr>)" "w3 = (fst w2, (snd w2)\<lparr>aw_cancelled := True\<rparr>)"
    using 1 3 by (simp_all add: signalShutdown_def app_cancel_def)
  show ?thesis
    by (rule that [OF 2 [unfolded w] 4 [unfolded w]]) (use v1 v2 v3 v4 w e in simp_all)
qed

lemma drain_timeout_is [simp]: "errors_is (Multi s es) x = (\<exists>e\<in>set es. errors_is e x)"
  "errors_is (step_error n e) x = errors_is e x" "errors_is (drain_timeout c) ErrDrainTimeout"
  by (auto simp: errors_is_def step_error_def drain_timeout_def)

lemma WaitGo_keeps:
  "WaitGo sched w ctx tw = Some (tw', r) \<Longrightarrow>
     aw_released (snd tw') = aw_released (snd tw) \<and> aw_cancelled (snd tw') = aw_cancelled (snd tw)"
  by (auto simp: WaitGo_def Let_def split: option.splits prod.splits pc.splits)

text \<open>The teardown of a running application, up to the start of its own steps.\<close>

lemma joins_or_reports:
  fixes tw :: "instant \<times> 'r jworld aworld"
  assumes "\<not> sk_done (a_Shutdown a)"
    and drain: "\<And>u u' r. drain httpDrainTimeout u = Some (u', r) \<Longrightarrow> reachable (group_of u) \<Longrightarrow> gr_pc (group_of u) w = Idle \<Longrightarrow>
      aw_released (snd u) \<Longrightarrow> reachable (group_of u') \<and> gr_pc (group_of u') w = Idle \<and> aw_released (snd u')"
    and "reachable (group_of tw)" and "gr_pc (group_of tw) w = Idle"
    and "Close_app (pushRunSteps drain (WaitGo sched w) a) tw = Some (a', tw', err)"
  obtains pre wk nx where
    "visits (Some (fst tw + shutdownGraceTimeout)) shutdownStepTimeout
      (rev (sk_steps (a_Shutdown (pushRunSteps drain (WaitGo sched w) a)))) tw =
      pre @ (''background-work'', snd wk) # visits (Some (fst tw + shutdownGraceTimeout)) shutdownStepTimeout (rev (sk_steps (a_Shutdown a))) nx"
    "map fst pre = [''streams'', ''api'', ''background-context'']" "aw_released (snd wk)" "aw_cancelled (snd wk)"
    "aw_released (snd nx)" "aw_cancelled (snd nx)"
    "joined (group_of wk) (group_of nx) \<or> (\<exists>e. err = Some e \<and> errors_is e ErrDrainTimeout)"
proof -
  let ?ctx = "Some (fst tw + shutdownGraceTimeout)" and ?own = "rev (sk_steps (a_Shutdown a))"
  note steps = pushRunSteps_steps [OF assms(1), of drain "WaitGo sched w"]
  have rv: "rev (sk_steps (a_Shutdown (pushRunSteps drain (WaitGo sched w) a))) =
      \<lparr>td_name = ''streams'', td_fn = (\<lambda>ctx. signalShutdown)\<rparr> #
      \<lparr>td_name = ''api'', td_fn = (\<lambda>ctx. drain httpDrainTimeout)\<rparr> #
      \<lparr>td_name = ''background-context'', td_fn = (\<lambda>ctx. app_cancel)\<rparr> #
      \<lparr>td_name = ''background-work'', td_fn = WaitGo sched w\<rparr> # ?own"
    by (simp only: steps) simp
  obtain log z errs log' where sw: "sweep ?ctx shutdownStepTimeout
      (rev (sk_steps (a_Shutdown (pushRunSteps drain (WaitGo sched w) a)))) [] log tw = Some (z, errs, log')"
    and err: "err = errors_join errs"
    using assms(5) steps by (auto simp: Close_app_def Shutdown_first split: option.splits prod.splits)
  from sw [unfolded rv] obtain w2 r2 c nx r
    where d: "drain httpDrainTimeout (fst tw, (snd tw)\<lparr>aw_released := True\<rparr>) = Some (w2, r2)"
      and g: "WaitGo sched w c (fst w2, (snd w2)\<lparr>aw_cancelled := True\<rparr>) = Some (nx, r)"
      and v: "visits ?ctx shutdownStepTimeout (rev (sk_steps (a_Shutdown (pushRunSteps drain (WaitGo sched w) a)))) tw =
        [(''streams'', snd tw), (''api'', (snd tw)\<lparr>aw_released := True\<rparr>), (''background-context'', snd w2),
         (''background-work'', (snd w2)\<lparr>aw_cancelled := True\<rparr>)] @ visits ?ctx shutdownStepTimeout ?own nx"
      and e: "\<forall>e. r = Failed e \<longrightarrow> step_error ''background-work'' e \<in> set errs"
    unfolding rv by (rule run_steps_worlds)
  let ?wk = "(fst w2, (snd w2)\<lparr>aw_cancelled := True\<rparr>)"
  have k: "reachable (group_of w2)" "gr_pc (group_of w2) w = Idle" "aw_released (snd w2)"
    using drain [OF d] assms(3,4) by simp_all
  then have "r = Done \<and> joined (group_of ?wk) (group_of nx) \<or> (\<exists>c. r = Failed (drain_timeout c))"
    using WaitGo_ends [OF g] by simp
  then have "joined (group_of ?wk) (group_of nx) \<or> (\<exists>e. err = Some e \<and> errors_is e ErrDrainTimeout)"
  proof (elim disjE exE)
    fix c assume "r = Failed (drain_timeout c)"
    with e have "step_error ''background-work'' (drain_timeout c) \<in> set errs" by blast
    moreover have "errors_is (step_error ''background-work'' (drain_timeout c)) ErrDrainTimeout" by simp
    ultimately have "\<exists>e\<in>set errs. errors_is e ErrDrainTimeout" by (rule bexI [rotated])
    then show ?thesis by (auto simp: err errors_join_def)
  qed simp
  then show ?thesis
    by (intro that [of "[(''streams'', snd tw), (''api'', (snd tw)\<lparr>aw_released := True\<rparr>), (''background-context'', snd w2)]" ?wk nx])
      (use v k(3) WaitGo_keeps [OF g] in simp_all)
qed

section \<open>Properties\<close>

text \<open>
  C6: no store is closed under a running job, or Close says so. In the teardown of a running
  application, when the step after background-work starts (the first of the application's own, in
  reverse: what it closes is what its jobs write to), the streams have been released, the context
  of the jobs cancelled, and either there was since then a moment at which no supervised goroutine
  was running, with none running now unless one was started later, or the error Close returns wraps
  ErrDrainTimeout.
\<close>

theorem joined_or_reported:
  fixes tw :: "instant \<times> 'r jworld aworld"
  assumes "\<not> sk_done (a_Shutdown a)"
    and drain: "\<And>u u' r. drain httpDrainTimeout u = Some (u', r) \<Longrightarrow> reachable (group_of u) \<Longrightarrow> gr_pc (group_of u) w = Idle \<Longrightarrow>
      aw_released (snd u) \<Longrightarrow> reachable (group_of u') \<and> gr_pc (group_of u') w = Idle \<and> aw_released (snd u')"
    and "reachable (group_of tw)" and "gr_pc (group_of tw) w = Idle"
    and "Close_app (pushRunSteps drain (WaitGo sched w) a) tw = Some (a', tw', err)"
  shows "\<exists>pre wk nx.
    visits (Some (fst tw + shutdownGraceTimeout)) shutdownStepTimeout
      (rev (sk_steps (a_Shutdown (pushRunSteps drain (WaitGo sched w) a)))) tw =
      pre @ (''background-work'', snd wk) # visits (Some (fst tw + shutdownGraceTimeout)) shutdownStepTimeout (rev (sk_steps (a_Shutdown a))) nx \<and>
    map fst pre = [''streams'', ''api'', ''background-context''] \<and> aw_released (snd wk) \<and> aw_cancelled (snd wk) \<and>
    (joined (group_of wk) (group_of nx) \<or> (\<exists>e. err = Some e \<and> errors_is e ErrDrainTimeout))"
proof (rule joins_or_reports [OF assms(1) _ assms(3-5)])
  show "reachable (group_of u') \<and> gr_pc (group_of u') w = Idle \<and> aw_released (snd u')"
    if "drain httpDrainTimeout u = Some (u', r)" "reachable (group_of u)" "gr_pc (group_of u) w = Idle" "aw_released (snd u)" for u u' r
    by (rule drain [OF that])
qed (intro exI conjI)

text \<open>An application with a database and one job, process 0, that ends while process 1 drains; and
  the same with a job that does not.\<close>

definition job_world :: "unit jworld aworld" where
  "job_world = \<lparr>aw_cancelled = False, aw_released = False, aw_rest = \<lparr>jw_group = enter 0 new_group, jw_own = ()\<rparr>\<rparr>"

definition db_app :: "unit jworld app" where
  "db_app = \<lparr>a_Name = ''svc'', a_Version = ''1'', a_Shutdown = Push ''database'' (Some (\<lambda>ctx tw. Some (tw, Done))) empty_stack,
     a_APIBase = [], a_AuthBase = [], a_HTTP = (\<lparr>fc_AppName = [], fc_BodyLimit = 0, fc_ReadTimeout = 0, fc_IdleTimeout = 0\<rparr>, [])\<rparr>"

definition job_ends :: schedule where
  "job_ends ctx t g = ([(1, AWait), (1, AStep), (1, AStep), (0, AStep), (0, AStep), (0, AStep), (0, AStep), (1, AStep)], t + 3,
     Sentinel ctx_deadline)"

definition job_hangs :: schedule where
  "job_hangs ctx t g = ([(1, AWait), (1, AStep), (1, AStep), (1, ATimeout)], t + 15, Sentinel ctx_deadline)"

lemma db_app_close:
  "\<exists>a' tw'. Close_app (pushRunSteps (\<lambda>d tw. Some (tw, Done)) (WaitGo job_ends 1) db_app) (0, job_world) = Some (a', tw', None)"
  "\<exists>a' tw' e. Close_app (pushRunSteps (\<lambda>d tw. Some (tw, Done)) (WaitGo job_hangs 1) db_app) (0, job_world) = Some (a', tw', Some e)"
  by (simp_all add: Close_app_def pushRunSteps_def db_app_def empty_stack_def Push_def Shutdown_def take_steps_def runStep_def
      Do_def signalShutdown_def app_cancel_def WaitGo_def job_ends_def job_hangs_def job_world_def act_def enter_def new_group_def
      lock_def unlock_def wait_load_def wait_make_def leave_def wake_test_def wake_close_def Let_def errors_join_def)

theorem joined_or_reported_witness:
  "\<exists>pre wk nx. visits (Some (0 + shutdownGraceTimeout)) shutdownStepTimeout
      (rev (sk_steps (a_Shutdown (pushRunSteps (\<lambda>d tw. Some (tw, Done)) (WaitGo job_ends 1) db_app)))) (0, job_world) =
      pre @ [(''background-work'', snd wk), (''database'', snd nx)] \<and>
    aw_cancelled (snd wk) \<and> joined (group_of wk) (group_of nx)"
proof -
  obtain a' tw' where c: "Close_app (pushRunSteps (\<lambda>d tw. Some (tw, Done)) (WaitGo job_ends 1) db_app) (0, job_world) = Some (a', tw', None)"
    using db_app_close by blast
  have r: "reachable (group_of (0, job_world))" "gr_pc (group_of (0, job_world)) 1 = Idle"
    using step [OF start gstep [of 0 AGo]] by (simp_all add: job_world_def act_def enter_def new_group_def)
  have nd: "\<not> sk_done (a_Shutdown db_app)" by (simp add: db_app_def empty_stack_def)
  let ?run = "rev (sk_steps (a_Shutdown (pushRunSteps (\<lambda>d tw. Some (tw, Done)) (WaitGo job_ends 1) db_app)))"
  let ?see = "visits (Some (fst (0 :: instant, job_world) + shutdownGraceTimeout)) shutdownStepTimeout"
  have "\<exists>pre wk nx. ?see ?run (0, job_world) = pre @ (''background-work'', snd wk) # ?see (rev (sk_steps (a_Shutdown db_app))) nx \<and>
      map fst pre = [''streams'', ''api'', ''background-context''] \<and> aw_released (snd wk) \<and> aw_cancelled (snd wk) \<and>
      (joined (group_of wk) (group_of nx) \<or> (\<exists>e. None = Some e \<and> errors_is e ErrDrainTimeout))"
    by (rule joined_or_reported [OF nd _ r c]) simp
  then obtain pre wk nx where v: "?see ?run (0, job_world) =
      pre @ (''background-work'', snd wk) # ?see (rev (sk_steps (a_Shutdown db_app))) nx"
    and j: "aw_cancelled (snd wk)" "joined (group_of wk) (group_of nx)"
    by (elim exE conjE disjE) (rule that, simp_all)
  have "visits (Some (0 + shutdownGraceTimeout)) shutdownStepTimeout (rev (sk_steps (a_Shutdown db_app))) nx = [(''database'', snd nx)]"
    by (simp add: db_app_def empty_stack_def Push_def runStep_def Do_def Let_def)
  with v j show ?thesis by auto
qed

section \<open>The database and the background work\<close>

text \<open>What the features start under \<open>safe.Go\<close>, as goroutines of the group: the processes \<open>ps\<close>.\<close>

definition start_background :: "nat list \<Rightarrow> 'r background list \<Rightarrow> group \<Rightarrow> group option" where
  "start_background ps bs = run_acts (map (\<lambda>(p, b). (p, AGo)) (zip ps bs))"

lemma act_other: "act p a g = Some g' \<Longrightarrow> q \<noteq> p \<Longrightarrow> gr_pc g' q = gr_pc g q"
  by (auto simp: act_def enter_def leave_def lock_def unlock_def wake_test_def wake_close_def wait_load_def wait_make_def
      Let_def split: action.splits pc.splits if_splits option.splits)

lemma run_acts_other: "run_acts as g = Some g' \<Longrightarrow> q \<notin> fst ` set as \<Longrightarrow> gr_pc g' q = gr_pc g q"
  by (induction as g rule: run_acts.induct) (auto split: option.splits dest: act_other)

lemma act_AGo: "act p AGo g = Some g' \<Longrightarrow> gr_pc g' p = Running"
  by (auto simp: act_def enter_def split: pc.splits)

lemma start_background_running:
  assumes "start_background [p, q] bs g = Some g1" "length bs = 2" "run_acts as g1 = Some g2" "fst ` set as \<inter> {p, q} = {}"
  shows "{p, q} \<subseteq> running g2"
proof -
  obtain b c where "bs = [b, c]" using assms(2) by (auto simp: length_Suc_conv numeral_2_eq_2)
  with assms(1) obtain g0 where 1: "act p AGo g = Some g0" and 2: "act q AGo g0 = Some g1"
    by (auto simp: start_background_def split: option.splits)
  have "gr_pc g1 q = Running" using act_AGo [OF 2] .
  moreover have "gr_pc g1 p = Running" using act_AGo [OF 1] act_AGo [OF 2] act_other [OF 2, of p] by (cases "p = q") simp_all
  ultimately show ?thesis using run_acts_other [OF assms(3)] assms(4) by (auto simp: running_def)
qed

text \<open>An application with a database, a login and backups: its own steps, and what it has started.\<close>

lemma kit_steps:
  assumes "New_kit env ot stopT stopM lib lc build opts g = (g', Some (Inr k))"
    and "Database close path mkdir opens ping migrate k = (k1, Inr db)"
    and "Backups bopts (fst (Login lopts k1)) = Some (k2, svc)"
  obtains T M where "sk_steps (a_Shutdown (k_App k2)) = [\<lparr>td_name = ''tracing'', td_fn = T\<rparr>,
      \<lparr>td_name = ''metrics-export'', td_fn = M\<rparr>, \<lparr>td_name = ''database'', td_fn = (\<lambda>ctx. close db)\<rparr>]"
    "\<not> sk_done (a_Shutdown (k_App k2))"
    "map bg_name (k_Background k2) = [''session sweep'', ''backups'']"
    "\<forall>b\<in>set (k_Background k2). \<forall>u. bg_ctx b u = aw_cancelled u"
proof -
  obtain T M where k: "sk_steps (a_Shutdown (k_App k)) = [\<lparr>td_name = ''tracing'', td_fn = T\<rparr>, \<lparr>td_name = ''metrics-export'', td_fn = M\<rparr>]"
    "\<not> sk_done (a_Shutdown (k_App k))" "k_Background k = []"
    using assms(1) by (auto simp: New_kit_def New_app_def empty_stack_def Let_def
        split: prod.splits if_splits option.splits sum.splits)
  show ?thesis
    by (rule that) (use assms(2,3) k in \<open>auto simp: Database_def Login_def Backups_def Context_def
        split: prod.splits sum.splits option.splits\<close>)
qed

text \<open>A Close that returns has started every step.\<close>

lemma Close_visits:
  assumes "\<not> sk_done (a_Shutdown a)" "Close_app a tw = Some (a', tw', err)"
  shows "map fst (visits (Some (fst tw + shutdownGraceTimeout)) shutdownStepTimeout (rev (sk_steps (a_Shutdown a))) tw) =
    map td_name (rev (sk_steps (a_Shutdown a)))"
proof -
  obtain log r where "sweep (Some (fst tw + shutdownGraceTimeout)) shutdownStepTimeout (rev (sk_steps (a_Shutdown a))) [] log tw = Some r"
    using assms by (auto simp: Close_app_def Shutdown_first split: option.splits)
  then show ?thesis by (rule visits_sweep)
qed

text \<open>
  C38: The database and the work that writes to it. In the teardown of an application that runs,
  the steps are streams, api, background-context, background-work, database, metrics-export and
  tracing. When the database's starts, the streams have been released and the context that Login and
  Backups gave their goroutines is done, as it was when the join began, and either since then there
  was a moment at which no supervised goroutine ran, with none running now unless one was started
  later, or the error Close returns wraps ErrDrainTimeout (then the database closes under the work
  that did not end). An application closed before it runs, as by the deferred Close of a start-up
  that fails, has no such steps: it closes its database first of all, while the session sweep and
  the backups started are running goroutines with a live context, unless they ended by themselves.\<close>

theorem database_closes:
  fixes close :: "handle \<Rightarrow> 'r jworld aworld closer" and tw :: "instant \<times> 'r jworld aworld"
  assumes "New_kit env ot stopT stopM lib lc build opts g = (g', Some (Inr k))"
    and "Database close path mkdir opens ping migrate k = (k1, Inr db)"
    and "Backups bopts (fst (Login lopts k1)) = Some (k2, svc)"
    and drain: "\<forall>u u' r. drain httpDrainTimeout u = Some (u', r) \<longrightarrow> reachable (group_of u) \<longrightarrow> gr_pc (group_of u) w = Idle \<longrightarrow>
      aw_released (snd u) \<longrightarrow> reachable (group_of u') \<and> gr_pc (group_of u') w = Idle \<and> aw_released (snd u')"
  shows "(reachable (group_of tw) \<longrightarrow> gr_pc (group_of tw) w = Idle \<longrightarrow>
      Close_app (pushRunSteps drain (WaitGo sched w) (k_App k2)) tw = Some (a', tw', err) \<longrightarrow>
      (\<exists>pre wk nx post.
        visits (Some (fst tw + shutdownGraceTimeout)) shutdownStepTimeout
          (rev (sk_steps (a_Shutdown (pushRunSteps drain (WaitGo sched w) (k_App k2))))) tw =
          pre @ [(''background-work'', snd wk), (''database'', snd nx)] @ post \<and>
        map fst pre = [''streams'', ''api'', ''background-context''] \<and>
        map fst post = [''metrics-export'', ''tracing''] \<and>
        aw_released (snd nx) \<and>
        (\<forall>b\<in>set (k_Background k2). bg_ctx b (snd wk) \<and> bg_ctx b (snd nx)) \<and>
        (joined (group_of wk) (group_of nx) \<or> (\<exists>e. err = Some e \<and> errors_is e ErrDrainTimeout)))) \<and>
    map bg_name (k_Background k2) = [''session sweep'', ''backups''] \<and>
    (start_background [p, q] (k_Background k2) g0 = Some g1 \<longrightarrow> run_acts as g1 = Some (group_of tw) \<longrightarrow>
      fst ` set as \<inter> {p, q} = {} \<longrightarrow> \<not> aw_cancelled (snd tw) \<longrightarrow>
      map td_name (rev (sk_steps (a_Shutdown (k_App k2)))) = [''database'', ''metrics-export'', ''tracing''] \<and>
      hd (visits ctx each (rev (sk_steps (a_Shutdown (k_App k2)))) tw) = (''database'', snd tw) \<and>
      {p, q} \<subseteq> running (group_of tw) \<and> (\<forall>b\<in>set (k_Background k2). \<not> bg_ctx b (snd tw)))"
proof -
  obtain T M where st: "sk_steps (a_Shutdown (k_App k2)) = [\<lparr>td_name = ''tracing'', td_fn = T\<rparr>,
      \<lparr>td_name = ''metrics-export'', td_fn = M\<rparr>, \<lparr>td_name = ''database'', td_fn = (\<lambda>ctx. close db)\<rparr>]"
    and nd: "\<not> sk_done (a_Shutdown (k_App k2))"
    and bg: "map bg_name (k_Background k2) = [''session sweep'', ''backups'']"
    and cx: "\<forall>b\<in>set (k_Background k2). \<forall>u. bg_ctx b u = aw_cancelled u"
    by (rule kit_steps [OF assms(1-3)])
  let ?see = "visits (Some (fst tw + shutdownGraceTimeout)) shutdownStepTimeout"
  let ?all = "rev (sk_steps (a_Shutdown (pushRunSteps drain (WaitGo sched w) (k_App k2))))"
  have "\<exists>pre wk nx post. ?see ?all tw = pre @ [(''background-work'', snd wk), (''database'', snd nx)] @ post \<and>
      map fst pre = [''streams'', ''api'', ''background-context''] \<and> map fst post = [''metrics-export'', ''tracing''] \<and>
      aw_released (snd nx) \<and> (\<forall>b\<in>set (k_Background k2). bg_ctx b (snd wk) \<and> bg_ctx b (snd nx)) \<and>
      (joined (group_of wk) (group_of nx) \<or> (\<exists>e. err = Some e \<and> errors_is e ErrDrainTimeout))"
    if live: "reachable (group_of tw)" "gr_pc (group_of tw) w = Idle"
      and cl: "Close_app (pushRunSteps drain (WaitGo sched w) (k_App k2)) tw = Some (a', tw', err)"
  proof -
    obtain pre wk nx where v: "?see ?all tw = pre @ (''background-work'', snd wk) # ?see (rev (sk_steps (a_Shutdown (k_App k2)))) nx"
      and m: "map fst pre = [''streams'', ''api'', ''background-context'']" "aw_cancelled (snd wk)"
        "aw_released (snd nx)" "aw_cancelled (snd nx)"
        "joined (group_of wk) (group_of nx) \<or> (\<exists>e. err = Some e \<and> errors_is e ErrDrainTimeout)"
      by (rule joins_or_reports [OF nd _ live cl]) (use drain in blast)
    have "map fst (?see ?all tw) = map td_name ?all" by (rule Close_visits [OF _ cl]) (simp add: nd pushRunSteps_steps)
    moreover have "map td_name ?all = [''streams'', ''api'', ''background-context'', ''background-work'', ''database'',
        ''metrics-export'', ''tracing'']"
      using pushRunSteps_steps [OF nd, of drain "WaitGo sched w"] st by simp
    ultimately have names: "map fst (?see (rev (sk_steps (a_Shutdown (k_App k2)))) nx) = [''database'', ''metrics-export'', ''tracing'']"
      using v m(1) by simp
    obtain post where "?see (rev (sk_steps (a_Shutdown (k_App k2)))) nx = (''database'', snd nx) # post"
      by (simp add: st)
    with names v m cx show ?thesis by (intro exI [of _ pre] exI [of _ wk] exI [of _ nx] exI [of _ post]) simp
  qed
  moreover have "{p, q} \<subseteq> running (group_of tw)"
    if "start_background [p, q] (k_Background k2) g0 = Some g1" "run_acts as g1 = Some (group_of tw)" "fst ` set as \<inter> {p, q} = {}"
    by (rule start_background_running [OF that(1) _ that(2,3)]) (use bg in \<open>metis length_map length_Cons list.size(3) numeral_2_eq_2\<close>)
  ultimately show ?thesis using bg cx by (simp add: st)
qed

text \<open>The application of Neokit with a database that closes at once, its two goroutines the processes 0 and 2,
  which end while process 1 drains.\<close>

definition demo_close :: "handle \<Rightarrow> unit jworld aworld closer" where
  "demo_close db tw = Some (tw, Done)"

definition both_end :: schedule where
  "both_end ctx t g = ([(1, AWait), (0, AStep), (1, AStep), (1, AStep), (2, AStep), (2, AStep), (2, AStep), (2, AStep), (1, AStep)], t + 3,
     Sentinel ctx_deadline)"

definition both_running :: group where
  "both_running = enter 2 (enter 0 new_group)"

definition both_world :: "unit jworld aworld" where
  "both_world = \<lparr>aw_cancelled = False, aw_released = False, aw_rest = \<lparr>jw_group = both_running, jw_own = ()\<rparr>\<rparr>"

lemma both_running: "start_background [0, 2] [b, c] new_group = Some both_running" "reachable both_running" "gr_pc both_running 1 = Idle"
proof -
  have a: "act 0 AGo new_group = Some (enter 0 new_group)" "act 2 AGo (enter 0 new_group) = Some both_running"
    by (simp_all add: act_def enter_def new_group_def both_running_def)
  then show "start_background [0, 2] [b, c] new_group = Some both_running" by (simp add: start_background_def)
  show "reachable both_running" using step [OF step [OF start gstep [OF a(1)]] gstep [OF a(2)]] .
  show "gr_pc both_running 1 = Idle" by (simp add: both_running_def enter_def new_group_def)
qed

lemma both_close:
  assumes "sk_steps (a_Shutdown a) = [\<lparr>td_name = ''tracing'', td_fn = demo_stop x\<rparr>,
      \<lparr>td_name = ''metrics-export'', td_fn = demo_stop y\<rparr>, \<lparr>td_name = ''database'', td_fn = (\<lambda>ctx. demo_close db)\<rparr>]"
    and "\<not> sk_done (a_Shutdown a)"
  shows "\<exists>a' tw'. Close_app (pushRunSteps (\<lambda>d tw. Some (tw, Done)) (WaitGo both_end 1) a) (0, both_world) = Some (a', tw', None)"
  using assms
  by (simp add: Close_app_def pushRunSteps_def Push_def Shutdown_def take_steps_def runStep_def demo_stop_def demo_close_def
      Do_def signalShutdown_def app_cancel_def WaitGo_def both_end_def both_world_def both_running_def act_def enter_def new_group_def
      lock_def unlock_def wait_load_def wait_make_def leave_def wake_test_def wake_close_def Let_def errors_join_def)

lemma demo_kit_steps:
  "\<exists>x y. sk_steps (a_Shutdown (k_App demo_kit)) = [\<lparr>td_name = ''tracing'', td_fn = demo_stop (x :: resource option)\<rparr>,
     \<lparr>td_name = ''metrics-export'', td_fn = demo_stop (y :: meter_provider option)\<rparr>] \<and>
   \<not> sk_done (a_Shutdown (k_App demo_kit)) \<and> k_Background demo_kit = []"
  by (simp add: demo_kit_def New_kit_def Init_tracing_def Init_metrics_def pull_exit_def push_exit_def newFiber_def
      adjusted_config_def any_fiber_def endpoint_of_def demo_otel_def demo_opts_def New_app_def trim_svc empty_stack_def Push_def Let_def) blast

theorem database_closes_witness:
  "\<exists>k1 db k2 svc. Database demo_close ''x.db'' None None None None demo_kit = (k1, Inr db) \<and>
     Backups demo_options (fst (Login demo_login k1)) = Some (k2, svc) \<and>
     (\<exists>(wk :: instant \<times> unit jworld aworld) nx. (''database'', snd nx) \<in> set (visits (Some (0 + shutdownGraceTimeout)) shutdownStepTimeout
          (rev (sk_steps (a_Shutdown (pushRunSteps (\<lambda>d tw. Some (tw, Done)) (WaitGo both_end 1) (k_App k2))))) (0, both_world)) \<and>
        joined (group_of wk) (group_of nx) \<and> (\<forall>b\<in>set (k_Background k2). bg_ctx b (snd nx))) \<and>
     hd (visits None 0 (rev (sk_steps (a_Shutdown (k_App k2)))) (0, both_world)) = (''database'', both_world) \<and>
     {0, 2} \<subseteq> running (group_of (0, both_world)) \<and> (\<forall>b\<in>set (k_Background k2). \<not> bg_ctx b both_world)"
proof -
  have "leading_space ''x.db'' = 0" "trailing_space ''x.db'' = 0" by code_simp+
  then have "trim_space ''x.db'' = ''x.db''" by (rule trim_space_id)
  then obtain k1 db where d: "Database demo_close ''x.db'' None None None None demo_kit = (k1, Inr db)"
    by (simp add: Database_def Open_def Let_def)
  obtain k2 svc where b: "Backups demo_options (fst (Login demo_login k1)) = Some (k2, svc)"
    by (simp add: Backups_def New_service_def demo_options_def clock_valid_def DefaultHour_def)
  obtain x :: "resource option" and y :: "meter_provider option" where
    st: "sk_steps (a_Shutdown (k_App k2)) = [\<lparr>td_name = ''tracing'', td_fn = demo_stop x\<rparr>,
      \<lparr>td_name = ''metrics-export'', td_fn = demo_stop y\<rparr>, \<lparr>td_name = ''database'', td_fn = (\<lambda>ctx. demo_close db)\<rparr>]"
    and nd: "\<not> sk_done (a_Shutdown (k_App k2))" and bg: "\<exists>b c. k_Background k2 = [b, c]"
    using demo_kit_steps d b by (auto simp: Database_def Login_def Backups_def split: prod.splits sum.splits option.splits)
  obtain a' tw' where c: "Close_app (pushRunSteps (\<lambda>d tw. Some (tw, Done)) (WaitGo both_end 1) (k_App k2)) (0, both_world) = Some (a', tw', None)"
    using both_close [OF st nd] by blast
  have g: "group_of (0, both_world) = both_running" "\<not> aw_cancelled (snd (0, both_world))" by (simp_all add: both_world_def)
  have sb: "start_background [0, 2] (k_Background k2) new_group = Some both_running" using bg both_running(1) by auto
  note all = database_closes [OF demo_kit d b, of "\<lambda>d tw. Some (tw, Done)" 1 "(0, both_world)" both_end a' tw' None
      0 2 new_group both_running "[]" None 0]
  have keeps: "\<forall>u u' r. Some (u, Done) = Some (u', r) \<longrightarrow> reachable (group_of u) \<longrightarrow> gr_pc (group_of u) 1 = Idle \<longrightarrow>
      aw_released (snd u) \<longrightarrow> reachable (group_of u') \<and> gr_pc (group_of u') 1 = Idle \<and> aw_released (snd u')"
    by simp
  have r: "reachable (group_of (0, both_world))" "gr_pc (group_of (0, both_world)) 1 = Idle"
    using both_running(2,3) g by simp_all
  have n: "run_acts [] both_running = Some (group_of (0, both_world))" "fst ` set ([] :: (nat \<times> action) list) \<inter> {0, 2} = {}"
    using g by simp_all
  have run: "\<exists>(wk :: instant \<times> unit jworld aworld) nx. (''database'', snd nx) \<in> set (visits (Some (0 + shutdownGraceTimeout)) shutdownStepTimeout
      (rev (sk_steps (a_Shutdown (pushRunSteps (\<lambda>d tw. Some (tw, Done)) (WaitGo both_end 1) (k_App k2))))) (0, both_world)) \<and>
      joined (group_of wk) (group_of nx) \<and> (\<forall>b\<in>set (k_Background k2). bg_ctx b (snd nx))"
  proof -
    note ran = conjunct1 [OF all [OF keeps]]
    from mp [OF mp [OF mp [OF ran r(1)] r(2)] c] obtain pre wk nx post where
      "visits (Some (fst (0 :: instant, both_world) + shutdownGraceTimeout)) shutdownStepTimeout
        (rev (sk_steps (a_Shutdown (pushRunSteps (\<lambda>d tw. Some (tw, Done)) (WaitGo both_end 1) (k_App k2))))) (0, both_world) =
        pre @ [(''background-work'', snd wk), (''database'', snd nx)] @ post"
      "\<forall>b\<in>set (k_Background k2). bg_ctx b (snd wk) \<and> bg_ctx b (snd nx)" "joined (group_of wk) (group_of nx)"
      by blast
    then show ?thesis by - (rule exI [of _ wk], rule exI [of _ nx], simp)
  qed
  have not_run: "hd (visits None 0 (rev (sk_steps (a_Shutdown (k_App k2)))) (0, both_world)) = (''database'', both_world) \<and>
      {0, 2} \<subseteq> running (group_of (0, both_world)) \<and> (\<forall>b\<in>set (k_Background k2). \<not> bg_ctx b both_world)"
    using conjunct2 [OF conjunct2 [OF all [OF keeps]]] sb n g(2) by simp
  show ?thesis
    by (rule exI [of _ k1], rule exI [of _ db], rule exI [of _ k2], rule exI [of _ svc])
      (intro conjI d b run not_run [THEN conjunct1] not_run [THEN conjunct2, THEN conjunct1] not_run [THEN conjunct2, THEN conjunct2])
qed

end
