(* ===== verification/Ssrf.thy ===== *)
theory Ssrf
  imports Fault "HOL-Library.Word"
begin

unbundle bit_operations_syntax

text \<open>
  httpc/ssrf.go: which addresses a guarded fetch refuses, and the shape of a URL it accepts.

  An address is \<open>netip.Addr\<close>: 32 or 128 bits; zones play no part in these tests. The predicates
  of package netip are written out on the bits. \<open>net.SplitHostPort\<close>, \<open>netip.ParseAddr\<close> and
  \<open>url.Parse\<close> are parameters.
\<close>

datatype addr = V4 "32 word" | V6 "128 word"

text \<open>An IPv4 address written inside IPv6 (::ffff:a.b.c.d) is the IPv4 address.\<close>

fun Unmap :: "addr \<Rightarrow> addr" where
  "Unmap (V4 a) = V4 a"
| "Unmap (V6 a) = (if drop_bit 32 a = 0xFFFF then V4 (ucast a) else V6 a)"

fun IsPrivate :: "addr \<Rightarrow> bool" where
  "IsPrivate (V4 a) = (drop_bit 24 a = 10 \<or> drop_bit 20 a = 0xAC1 \<or> drop_bit 16 a = 0xC0A8)"
| "IsPrivate (V6 a) = (drop_bit 121 a = 0x7E)"

fun IsLoopback :: "addr \<Rightarrow> bool" where
  "IsLoopback (V4 a) = (drop_bit 24 a = 127)"
| "IsLoopback (V6 a) = (a = 1)"

fun IsLinkLocalUnicast :: "addr \<Rightarrow> bool" where
  "IsLinkLocalUnicast (V4 a) = (drop_bit 16 a = 0xA9FE)"
| "IsLinkLocalUnicast (V6 a) = (drop_bit 118 a = 0x3FA)"

fun IsLinkLocalMulticast :: "addr \<Rightarrow> bool" where
  "IsLinkLocalMulticast (V4 a) = (drop_bit 8 a = 0xE00000)"
| "IsLinkLocalMulticast (V6 a) = (drop_bit 112 a AND 0xFF0F = 0xFF02)"

fun IsUnspecified :: "addr \<Rightarrow> bool" where
  "IsUnspecified (V4 a) = (a = 0)"
| "IsUnspecified (V6 a) = (a = 0)"

fun IsMulticast :: "addr \<Rightarrow> bool" where
  "IsMulticast (V4 a) = (drop_bit 28 a = 0xE)"
| "IsMulticast (V6 a) = (drop_bit 120 a = 0xFF)"

definition IsInternalAddr :: "addr \<Rightarrow> bool" where
  "IsInternalAddr ip0 =
     (let ip = Unmap ip0 in
      IsLoopback ip \<or> IsLinkLocalUnicast ip \<or> IsLinkLocalMulticast ip \<or> IsUnspecified ip \<or> IsMulticast ip)"

definition IsPrivateAddr :: "addr \<Rightarrow> bool" where
  "IsPrivateAddr ip0 = (let ip = Unmap ip0 in IsPrivate ip \<or> IsInternalAddr ip)"

type_synonym policy = "addr \<Rightarrow> bool"

text \<open>The dialer's Control callback of \<open>GuardedTransport\<close>: None lets the connection through.\<close>

definition guard_control ::
    "(string \<Rightarrow> string option) \<Rightarrow> (string \<Rightarrow> addr option) \<Rightarrow> (addr \<Rightarrow> string) \<Rightarrow> (string \<Rightarrow> string) \<Rightarrow>
     policy option \<Rightarrow> string \<Rightarrow> gerr option" where
  "guard_control split_host parse_addr print_addr quote deny0 address =
     (let deny = (case deny0 of None \<Rightarrow> IsPrivateAddr | Some d \<Rightarrow> d) in
      case split_host address of
        None \<Rightarrow> Some (Text (''ssrf guard: unparsable address '' @ quote address))
      | Some host \<Rightarrow>
          (case parse_addr host of
             None \<Rightarrow> Some (Text (''ssrf guard: unparsable address '' @ quote host))
           | Some ip \<Rightarrow>
               if deny ip
               then Some (Text (''ssrf guard: refusing to fetch a private/internal address ('' @ print_addr ip @ '')''))
               else None))"

definition SafeAbsoluteURL :: "(string \<Rightarrow> url option) \<Rightarrow> string \<Rightarrow> bool" where
  "SafeAbsoluteURL parse raw =
     (case parse raw of
        None \<Rightarrow> False
      | Some u \<Rightarrow>
          if u_Scheme u \<noteq> ''http'' \<and> u_Scheme u \<noteq> ''https'' then False
          else if u_User u \<noteq> None then False
          else trim_space (u_Hostname u) \<noteq> [])"

section \<open>Lemmas\<close>

lemma drop_bit_uint: "uint (drop_bit n (a :: 'a::len word)) = uint a div 2 ^ n"
proof -
  have "take_bit LENGTH('a) (uint a) = uint a"
    using uint_bounded [of a] by (intro take_bit_int_eq_self) simp_all
  then show ?thesis unfolding unsigned_drop_bit_eq by (simp add: drop_bit_eq_div [symmetric])
qed

text \<open>A prefix of bits is a range of numbers.\<close>

lemma prefix_range:
  fixes a :: "'a::len word"
  assumes "uint (k :: 'a word) = p"
  shows "drop_bit n a = k \<longleftrightarrow> p * 2 ^ n \<le> uint a \<and> uint a < (p + 1) * 2 ^ n"
proof -
  have "drop_bit n a = k \<longleftrightarrow> uint a div 2 ^ n = p"
    by (metis assms drop_bit_uint word_uint_eq_iff)
  also have "\<dots> \<longleftrightarrow> p \<le> uint a div 2 ^ n \<and> uint a div 2 ^ n < p + 1" by linarith
  also have "\<dots> \<longleftrightarrow> p * 2 ^ n \<le> uint a \<and> uint a < (p + 1) * 2 ^ n"
    by (simp only: int_le_div_iff int_div_less_iff zero_less_power zero_less_numeral)
  finally show ?thesis .
qed

lemma Unmap_Unmap [simp]: "Unmap (Unmap ip) = Unmap ip"
  by (cases ip) simp_all

lemma internal_private: "IsInternalAddr ip \<Longrightarrow> IsPrivateAddr ip"
  by (simp add: IsPrivateAddr_def IsInternalAddr_def Let_def)

lemma guard_refuses:
  "split_host address = Some host \<Longrightarrow> parse_addr host = Some ip \<Longrightarrow>
   guard_control split_host parse_addr print_addr quote deny address = None \<longleftrightarrow>
   \<not> (case deny of None \<Rightarrow> IsPrivateAddr ip | Some d \<Rightarrow> d ip)"
  by (simp add: guard_control_def Let_def split: option.split)

definition blocked_v4 :: "int \<Rightarrow> bool" where
  "blocked_v4 n \<longleftrightarrow> n = 0 \<or> 0x0A000000 \<le> n \<and> n \<le> 0x0AFFFFFF \<or> 0x7F000000 \<le> n \<and> n \<le> 0x7FFFFFFF \<or>
     0xA9FE0000 \<le> n \<and> n \<le> 0xA9FEFFFF \<or> 0xAC100000 \<le> n \<and> n \<le> 0xAC1FFFFF \<or>
     0xC0A80000 \<le> n \<and> n \<le> 0xC0A8FFFF \<or> 0xE0000000 \<le> n \<and> n \<le> 0xEFFFFFFF"

definition mapped :: "32 word \<Rightarrow> 128 word" where
  "mapped a = word_of_int (0xFFFF * 2 ^ 32 + uint a)"

lemma uint_lt32: "0 \<le> uint a \<and> uint a < 2 ^ 32" for a :: "32 word"
  using uint_bounded [of a] by simp

lemma uint_mapped: "uint (mapped a) = 0xFFFF * 2 ^ 32 + uint a"
  unfolding mapped_def uint_word_of_int
  by (rule mod_pos_pos_trivial) (use uint_lt32 [of a] in simp_all)

lemma Unmap_mapped: "Unmap (V6 (mapped a)) = V4 a"
proof -
  have "drop_bit 32 (mapped a) = 0xFFFF"
    using uint_lt32 [of a] by (subst prefix_range [where p = "0xFFFF"]) (simp_all add: uint_mapped)
  moreover have "uint (ucast (mapped a) :: 32 word) = uint a"
  proof -
    have "uint (ucast (mapped a) :: 32 word) = (0xFFFF * 2 ^ 32 + uint a) mod 2 ^ 32"
      unfolding unsigned_ucast_eq uint_mapped by (simp add: take_bit_eq_mod)
    also have "\<dots> = uint a mod 2 ^ 32" by (rule mod_mult_self3)
    also have "\<dots> = uint a" by (rule mod_pos_pos_trivial) (use uint_lt32 [of a] in simp_all)
    finally show ?thesis .
  qed
  then have "ucast (mapped a) = a" by (metis word_uint_eq_iff)
  ultimately show ?thesis by simp
qed

section \<open>Properties\<close>

text \<open>
  C12: the strict policy on IPv4 refuses exactly 0.0.0.0, 10/8, 127/8, 169.254/16, 172.16/12,
  192.168/16 and 224/4, as ranges of addresses, in either spelling, IPv4 or IPv4 inside IPv6; and
  a transport guarded without a policy refuses to connect to any of them.
\<close>

theorem private_v4_exact:
  "(IsPrivateAddr (V4 a) \<longleftrightarrow> blocked_v4 (uint a)) \<and>
   (IsPrivateAddr (V6 (mapped a)) \<longleftrightarrow> blocked_v4 (uint a)) \<and>
   (split_host address = Some host \<and> parse_addr host \<in> {Some (V4 a), Some (V6 (mapped a))} \<longrightarrow>
      guard_control split_host parse_addr print_addr quote None address = None \<longleftrightarrow> \<not> blocked_v4 (uint a))"
proof -
  have z: "a = 0 \<longleftrightarrow> uint a = 0" by (metis uint_0_iff)
  have v4: "IsPrivateAddr (V4 a) \<longleftrightarrow> blocked_v4 (uint a)"
    by (simp add: IsPrivateAddr_def IsInternalAddr_def blocked_v4_def z
        prefix_range [where p = 10] prefix_range [where p = "0xAC1"] prefix_range [where p = "0xC0A8"]
        prefix_range [where p = 127] prefix_range [where p = "0xA9FE"] prefix_range [where p = "0xE00000"]
        prefix_range [where p = "0xE"]) linarith
  moreover have v6: "IsPrivateAddr (V6 (mapped a)) \<longleftrightarrow> IsPrivateAddr (V4 a)"
    by (simp only: IsPrivateAddr_def IsInternalAddr_def Unmap_mapped Unmap_Unmap) simp
  ultimately show ?thesis by (auto simp: guard_refuses)
qed

theorem private_v4_exact_witness:
  "guard_control (\<lambda>s. Some s) (\<lambda>s. Some (V4 0xA9FEA9FE)) (\<lambda>a. []) (\<lambda>s. s) None ''metadata'' \<noteq> None"
  using private_v4_exact [of "0xA9FEA9FE" "\<lambda>s. Some s" "''metadata''" "''metadata''" "\<lambda>s. Some (V4 0xA9FEA9FE)" "\<lambda>a. []" "\<lambda>s. s"]
  by (simp add: blocked_v4_def)

end
