(* ===== verification/Pool.thy ===== *)
theory Pool
  imports Supervise
begin

text \<open>
  safe/pool.go and safe/all.go. The pool is a step relation: its mutex sections and every operation
  on the semaphore and the wait group are one step each, and any enabled step of any task or drain
  may come next. A task is at one point of \<open>Go\<close> (\<open>TNew\<close> to \<open>TDone\<close>), a drain at one of \<open>Wait\<close>.
  \<open>pl_runs\<close> counts how often the function of a task was entered; the limit is fixed, as the code
  asks.

  \<open>All\<close> gives every item its own goroutine; what it returns is computed for any order in which they
  finish.
\<close>

section \<open>The pool\<close>

datatype tpc =
    TNew | TRefused | TQueued | THeld | TFree | TRunning | TLeaving | TDone
  | WBlocked | WNil | WTimedOut

record pool =
  pl_limit :: int
  pl_closed :: bool
  pl_sem :: "nat option"  \<comment> \<open>the semaphore, once made: the slots taken\<close>
  pl_wg :: int
  pl_runs :: "nat \<Rightarrow> nat"
  pl_pc :: "nat \<Rightarrow> tpc"

definition new_pool :: "int \<Rightarrow> pool" where
  "new_pool limit = \<lparr>pl_limit = limit, pl_closed = False, pl_sem = None, pl_wg = 0,
     pl_runs = \<lambda>_. 0, pl_pc = \<lambda>_. TNew\<rparr>"

definition pgoto :: "nat \<Rightarrow> tpc \<Rightarrow> pool \<Rightarrow> pool" where
  "pgoto p c s = s\<lparr>pl_pc := (pl_pc s)(p := c)\<rparr>"

text \<open>\<open>Go\<close> up to the goroutine; \<open>done\<close>: the context has already ended.\<close>

definition pool_Go :: "nat \<Rightarrow> bool \<Rightarrow> pool \<Rightarrow> pool" where
  "pool_Go p ctx_done s =
     (if pl_closed s \<or> ctx_done then pgoto p TRefused s
      else
        let sem = (if pl_sem s = None \<and> pl_limit s > 0 then Some 0 else pl_sem s)
        in pgoto p (if sem = None then TFree else TQueued) (s\<lparr>pl_sem := sem, pl_wg := pl_wg s + 1\<rparr>))"

definition acquire :: "nat \<Rightarrow> pool \<Rightarrow> pool option" where
  "acquire p s =
     (case pl_sem s of
        None \<Rightarrow> None
      | Some k \<Rightarrow> if int k < pl_limit s then Some (pgoto p THeld (s\<lparr>pl_sem := Some (Suc k)\<rparr>)) else None)"

definition release :: "nat \<Rightarrow> tpc \<Rightarrow> pool \<Rightarrow> pool" where
  "release p c s = pgoto p c (s\<lparr>pl_sem := (case pl_sem s of None \<Rightarrow> None | Some k \<Rightarrow> Some (k - 1))\<rparr>)"

definition run_task :: "nat \<Rightarrow> pool \<Rightarrow> pool" where
  "run_task p s = pgoto p TRunning (s\<lparr>pl_runs := (pl_runs s)(p := pl_runs s p + 1)\<rparr>)"

definition task_done :: "nat \<Rightarrow> pool \<Rightarrow> pool" where
  "task_done p s = pgoto p TDone (s\<lparr>pl_wg := pl_wg s - 1\<rparr>)"

datatype pact =
    PGo bool | PStep | PCtx  \<comment> \<open>\<open>PCtx\<close>: the same step with the context ended\<close>
  | PWait | PTimeout

text \<open>\<open>Wait\<close>: it closes the pool and blocks until the wait group is done or its context is.\<close>

definition pool_Wait :: "nat \<Rightarrow> pool \<Rightarrow> pool" where
  "pool_Wait p s = pgoto p WBlocked (s\<lparr>pl_closed := True\<rparr>)"

definition wait_returns :: "nat \<Rightarrow> pool \<Rightarrow> pool option" where
  "wait_returns p s = (if pl_wg s = 0 then Some (pgoto p WNil s) else None)"

definition wait_gives_up :: "nat \<Rightarrow> pool \<Rightarrow> pool" where
  "wait_gives_up p s = pgoto p WTimedOut s"

lemmas pool_drain [simp] = pool_Wait_def wait_returns_def wait_gives_up_def

definition pool_act :: "nat \<Rightarrow> pact \<Rightarrow> pool \<Rightarrow> pool option" where
  "pool_act p a s =
     (case (a, pl_pc s p) of
        (PGo d, TNew) \<Rightarrow> Some (pool_Go p d s)
      | (PStep, TQueued) \<Rightarrow> acquire p s
      | (PCtx, TQueued) \<Rightarrow> Some (pgoto p TLeaving s)
      | (PStep, THeld) \<Rightarrow> Some (run_task p s)
      | (PCtx, THeld) \<Rightarrow> Some (release p TLeaving s)
      | (PStep, TFree) \<Rightarrow> Some (run_task p s)
      | (PStep, TRunning) \<Rightarrow> Some (release p TLeaving s)
      | (PStep, TLeaving) \<Rightarrow> Some (task_done p s)
      | (PWait, TNew) \<Rightarrow> Some (pool_Wait p s)
      | (PStep, WBlocked) \<Rightarrow> wait_returns p s
      | (PTimeout, WBlocked) \<Rightarrow> Some (wait_gives_up p s)
      | _ \<Rightarrow> None)"

inductive pool_reachable :: "int \<Rightarrow> pool \<Rightarrow> bool" for limit where
  pool_start: "pool_reachable limit (new_pool limit)"
| pool_step: "pool_reachable limit s \<Longrightarrow> pool_act p a s = Some s' \<Longrightarrow> pool_reachable limit s'"

inductive pool_later :: "pool \<Rightarrow> pool \<Rightarrow> bool" for s where
  later_refl: "pool_later s s"
| later_step: "pool_later s t \<Longrightarrow> pool_act p a t = Some u \<Longrightarrow> pool_later s u"

section \<open>The invariant\<close>

definition active :: "tpc \<Rightarrow> bool" where
  "active c \<longleftrightarrow> c \<in> {TQueued, THeld, TFree, TRunning, TLeaving}"

definition in_slot :: "tpc \<Rightarrow> bool" where
  "in_slot c \<longleftrightarrow> c \<in> {THeld, TRunning}"

definition tasks :: "(tpc \<Rightarrow> bool) \<Rightarrow> pool \<Rightarrow> nat set" where
  "tasks P s = {p. P (pl_pc s p)}"

definition pool_ok :: "pool \<Rightarrow> bool" where
  "pool_ok s \<longleftrightarrow>
     finite (tasks active s) \<and> pl_wg s = int (card (tasks active s)) \<and>
     (pl_limit s > 0 \<longrightarrow> (\<forall>p. pl_pc s p \<noteq> TFree)) \<and>
     (pl_limit s \<le> 0 \<longrightarrow> pl_sem s = None \<and> (\<forall>p. pl_pc s p \<notin> {TQueued, THeld})) \<and>
     (pl_sem s = None \<and> pl_limit s > 0 \<longrightarrow> tasks active s = {}) \<and>
     (\<forall>k. pl_sem s = Some k \<longrightarrow> k = card (tasks in_slot s) \<and> int k \<le> pl_limit s) \<and>
     (\<forall>p. pl_runs s p \<le> 1 \<and> (pl_pc s p \<in> {TNew, TRefused, TQueued, THeld, TFree} \<longrightarrow> pl_runs s p = 0)) \<and>
     (\<forall>p. pl_pc s p \<in> {WBlocked, WNil, WTimedOut} \<longrightarrow> pl_closed s) \<and>
     (\<forall>p. pl_pc s p = WNil \<longrightarrow> pl_wg s = 0)"

lemma pgoto_sel [simp]:
  "pl_limit (pgoto p c s) = pl_limit s" "pl_closed (pgoto p c s) = pl_closed s" "pl_sem (pgoto p c s) = pl_sem s"
  "pl_wg (pgoto p c s) = pl_wg s" "pl_runs (pgoto p c s) = pl_runs s" "pl_pc (pgoto p c s) = (pl_pc s)(p := c)"
  by (simp_all add: pgoto_def)

lemma active_simps [simp]:
  "\<not> active TNew" "\<not> active TRefused" "active TQueued" "active THeld" "active TFree" "active TRunning"
  "active TLeaving" "\<not> active TDone" "\<not> active WBlocked" "\<not> active WNil" "\<not> active WTimedOut"
  by (simp_all add: active_def)

lemma in_slot_simps [simp]:
  "\<not> in_slot TNew" "\<not> in_slot TRefused" "\<not> in_slot TQueued" "in_slot THeld" "\<not> in_slot TFree" "in_slot TRunning"
  "\<not> in_slot TLeaving" "\<not> in_slot TDone" "\<not> in_slot WBlocked" "\<not> in_slot WNil" "\<not> in_slot WTimedOut"
  by (simp_all add: in_slot_def)

lemma in_slot_active: "in_slot c \<Longrightarrow> active c"
  by (auto simp: in_slot_def)

lemma tasks_upd:
  "pl_pc s' = (pl_pc s)(p := c) \<Longrightarrow> tasks P s' = (if P c then insert p (tasks P s) else tasks P s - {p})"
  by (auto simp: tasks_def)

text \<open>How a step of one task changes the number of tasks with a property.\<close>

lemma tasks_card:
  assumes "finite (tasks P s)" "pl_pc s' = (pl_pc s)(p := c)"
  shows "finite (tasks P s')" "int (card (tasks P s')) =
     int (card (tasks P s)) + (if P c then 1 else 0) - (if P (pl_pc s p) then 1 else 0)"
proof -
  have m: "p \<in> tasks P s \<longleftrightarrow> P (pl_pc s p)" by (simp add: tasks_def)
  show "finite (tasks P s')" using assms by (simp add: tasks_upd)
  show "int (card (tasks P s')) =
     int (card (tasks P s)) + (if P c then 1 else 0) - (if P (pl_pc s p) then 1 else 0)"
  proof (cases "P (pl_pc s p)")
    case True
    then have "card (tasks P s) = Suc (card (tasks P s - {p}))"
      using card_Suc_Diff1 [OF assms(1)] m by simp
    moreover have "insert p (tasks P s) = tasks P s" using m True by blast
    ultimately show ?thesis using True assms by (simp add: tasks_upd)
  next
    case False
    then have "tasks P s - {p} = tasks P s" using m by blast
    then show ?thesis using False assms m by (simp add: tasks_upd)
  qed
qed

lemma pool_okD:
  assumes "pool_ok s"
  shows "finite (tasks active s)" "pl_wg s = int (card (tasks active s))"
    "pl_limit s > 0 \<Longrightarrow> pl_pc s p \<noteq> TFree" "pl_limit s \<le> 0 \<Longrightarrow> pl_sem s = None \<and> pl_pc s p \<notin> {TQueued, THeld}"
    "pl_sem s = None \<Longrightarrow> pl_limit s > 0 \<Longrightarrow> tasks active s = {}"
    "pl_sem s = Some k \<Longrightarrow> k = card (tasks in_slot s) \<and> int k \<le> pl_limit s"
    "pl_runs s p \<le> 1" "pl_pc s p \<in> {TNew, TRefused, TQueued, THeld, TFree} \<Longrightarrow> pl_runs s p = 0"
    "pl_pc s p \<in> {WBlocked, WNil, WTimedOut} \<Longrightarrow> pl_closed s" "pl_pc s p = WNil \<Longrightarrow> pl_wg s = 0"
    "finite (tasks in_slot s)"
proof -
  have "tasks in_slot s \<subseteq> tasks active s" by (auto simp: tasks_def in_slot_active)
  with assms show "finite (tasks in_slot s)" by (auto simp: pool_ok_def dest: finite_subset)
qed (use assms in \<open>auto simp: pool_ok_def\<close>)

lemma pool_okI:
  assumes ok: "pool_ok s" and pc: "pl_pc s' = (pl_pc s)(p := c)" and lim: "pl_limit s' = pl_limit s"
    and wg: "pl_wg s' = pl_wg s + (if active c then 1 else 0) - (if active (pl_pc s p) then 1 else 0)"
    and free: "pl_limit s > 0 \<Longrightarrow> c \<noteq> TFree" "pl_limit s \<le> 0 \<Longrightarrow> c \<notin> {TQueued, THeld}"
    and sem: "pl_limit s \<le> 0 \<Longrightarrow> pl_sem s' = None"
      "pl_sem s' = None \<Longrightarrow> pl_limit s > 0 \<Longrightarrow> \<not> active c \<and> pl_sem s = None"
      "\<And>k. pl_sem s' = Some k \<Longrightarrow> int k =
         int (card (tasks in_slot s)) + (if in_slot c then 1 else 0) - (if in_slot (pl_pc s p) then 1 else 0) \<and>
         int k \<le> pl_limit s"
    and runs: "\<And>q. q \<noteq> p \<Longrightarrow> pl_runs s' q = pl_runs s q" "pl_runs s' p \<le> 1"
      "c \<in> {TNew, TRefused, TQueued, THeld, TFree} \<Longrightarrow> pl_runs s' p = 0"
    and closed: "pl_closed s \<Longrightarrow> pl_closed s'" "c \<in> {WBlocked, WNil, WTimedOut} \<Longrightarrow> pl_closed s'"
    and wnil: "c = WNil \<Longrightarrow> pl_wg s' = 0"
      "pl_wg s = 0 \<Longrightarrow> pl_closed s \<Longrightarrow> pl_wg s' = 0"
  shows "pool_ok s'"
proof -
  note old = pool_okD [OF ok]
  have pcq: "pl_pc s' q = (if q = p then c else pl_pc s q)" for q by (simp add: pc)
  note ca = tasks_card [OF old(1) pc] and ci = tasks_card [OF old(11) pc]
  have 1: "finite (tasks active s')" "pl_wg s' = int (card (tasks active s'))" using ca wg old(2) by simp_all
  have 2: "pl_limit s' > 0 \<longrightarrow> (\<forall>q. pl_pc s' q \<noteq> TFree)" using free(1) old(3) lim by (simp add: pcq)
  have 3: "pl_limit s' \<le> 0 \<longrightarrow> pl_sem s' = None \<and> (\<forall>q. pl_pc s' q \<notin> {TQueued, THeld})"
    using free(2) old(4) lim sem(1) by (simp add: pcq)
  have 4: "pl_sem s' = None \<and> pl_limit s' > 0 \<longrightarrow> tasks active s' = {}"
    using sem(2) old(5) lim by (simp add: tasks_upd [OF pc])
  have 5: "k = card (tasks in_slot s') \<and> int k \<le> pl_limit s'" if "pl_sem s' = Some k" for k
    using sem(3) [OF that] ci(2) lim by simp
  have 6: "pl_runs s' q \<le> 1 \<and> (pl_pc s' q \<in> {TNew, TRefused, TQueued, THeld, TFree} \<longrightarrow> pl_runs s' q = 0)" for q
    using runs old(7,8) [of q] by (cases "q = p") (simp_all add: pcq)
  have 7: "pl_pc s' q \<in> {WBlocked, WNil, WTimedOut} \<longrightarrow> pl_closed s'" for q
    using closed old(9) [of q] by (cases "q = p") (auto simp: pcq)
  have 8: "pl_pc s' q = WNil \<longrightarrow> pl_wg s' = 0" for q
    using wnil old(9,10) [of q] by (cases "q = p") (auto simp: pcq)
  show ?thesis unfolding pool_ok_def using 1 2 3 4 5 6 7 8 by blast
qed

lemma pool_sem:
  assumes "pool_ok s" "active (pl_pc s p)" "pl_limit s > 0"
  obtains k where "pl_sem s = Some k" "int k = int (card (tasks in_slot s))" "int k \<le> pl_limit s"
proof -
  have "p \<in> tasks active s" using assms(2) by (simp add: tasks_def)
  then have "pl_sem s \<noteq> None" using pool_okD(5) [OF assms(1)] assms(3) by blast
  then obtain k where k: "pl_sem s = Some k" by blast
  from pool_okD(6) [OF assms(1) k] have "k = card (tasks in_slot s)" "int k \<le> pl_limit s" by blast+
  then show ?thesis by (intro that [OF k]) (simp_all only: of_nat_eq_iff)
qed

lemma slot_taken: "pool_ok s \<Longrightarrow> in_slot (pl_pc s p) \<Longrightarrow> 1 \<le> card (tasks in_slot s)"
proof -
  assume ok: "pool_ok s" and "in_slot (pl_pc s p)"
  then have "p \<in> tasks in_slot s" by (simp add: tasks_def)
  then show ?thesis using pool_okD(11) [OF ok] by (metis One_nat_def Suc_leI card_gt_0_iff empty_iff)
qed

lemma active_wg: "pool_ok s \<Longrightarrow> active (pl_pc s p) \<Longrightarrow> pl_wg s \<noteq> 0"
proof -
  assume ok: "pool_ok s" and "active (pl_pc s p)"
  then have "p \<in> tasks active s" by (simp add: tasks_def)
  then show ?thesis using pool_okD(1,2) [OF ok] by (auto simp: card_eq_0_iff)
qed

lemma pool_Go_ok:
  assumes ok: "pool_ok s" and "pl_pc s p = TNew"
  shows "pool_ok (pool_Go p d s)"
proof (cases "pl_closed s \<or> d")
  case True
  show ?thesis
    by (rule pool_okI [OF ok, of _ p TRefused])
       (use True assms(2) pool_okD [OF ok] in \<open>auto simp: pool_Go_def\<close>)
next
  case False
  have none: "card (tasks in_slot s) = 0" if "pl_sem s = None" "pl_limit s > 0"
  proof -
    have "tasks in_slot s \<subseteq> tasks active s" by (auto simp: tasks_def in_slot_active)
    with pool_okD(5) [OF ok that] show ?thesis by simp
  qed
  show ?thesis
  proof (cases "pl_limit s > 0")
    case True
    have "pool_Go p d s = pgoto p TQueued (s\<lparr>pl_sem := (if pl_sem s = None then Some 0 else pl_sem s), pl_wg := pl_wg s + 1\<rparr>)"
      using True False by (auto simp: pool_Go_def Let_def)
    then show ?thesis
      by (intro pool_okI [OF ok, of _ p TQueued])
         (use True False assms(2) pool_okD(6) [OF ok] pool_okD(8) [OF ok, of p] none in \<open>auto split: if_splits\<close>)
  next
    case lim: False
    then have "pl_sem s = None" using pool_okD(4) [OF ok, of p] by simp
    then have "pool_Go p d s = pgoto p TFree (s\<lparr>pl_wg := pl_wg s + 1\<rparr>)"
      using lim False by (simp add: pool_Go_def)
    then show ?thesis
      by (intro pool_okI [OF ok, of _ p TFree])
         (use lim False assms(2) pool_okD(8) [OF ok, of p] \<open>pl_sem s = None\<close> in auto)
  qed
qed

lemma acquire_ok:
  assumes ok: "pool_ok s" and "pl_pc s p = TQueued" "acquire p s = Some s'"
  shows "pool_ok s'"
proof -
  have lim: "pl_limit s > 0" using pool_okD(4) [OF ok, of p] assms(2) by force
  obtain k where k: "pl_sem s = Some k" "int k < pl_limit s" "s' = pgoto p THeld (s\<lparr>pl_sem := Some (Suc k)\<rparr>)"
    using assms(3) by (auto simp: acquire_def split: option.splits if_splits)
  show ?thesis
    by (rule pool_okI [OF ok, of _ p THeld])
       (use assms(2) k lim pool_okD(6) [OF ok k(1)] pool_okD(8) [OF ok, of p] in auto)
qed

lemma release_ok:
  assumes ok: "pool_ok s" and "pl_pc s p \<in> {THeld, TRunning}"
  shows "pool_ok (release p TLeaving s)"
proof (cases "pl_limit s > 0")
  case True
  have a: "active (pl_pc s p)" "in_slot (pl_pc s p)" using assms(2) by auto
  obtain k where k: "pl_sem s = Some k" "int k = int (card (tasks in_slot s))" "int k \<le> pl_limit s"
    using pool_sem [OF ok a(1) True] by blast
  have "1 \<le> k" using slot_taken [OF ok a(2)] k(2) by simp
  with k True a pool_okD(7) [OF ok, of p] show ?thesis
    by (intro pool_okI [OF ok, of _ p TLeaving]) (auto simp: release_def)
next
  case False
  then have "pl_sem s = None" using pool_okD(4) [OF ok, of p] by simp
  with False show ?thesis
    by (intro pool_okI [OF ok, of _ p TLeaving])
       (use assms(2) pool_okD(7) [OF ok, of p] in \<open>auto simp: release_def\<close>)
qed

lemma run_task_ok:
  assumes ok: "pool_ok s" and "pl_pc s p \<in> {THeld, TFree}"
  shows "pool_ok (run_task p s)"
proof (cases "pl_limit s > 0")
  case True
  then have h: "pl_pc s p = THeld" using assms(2) pool_okD(3) [OF ok, of p] by auto
  obtain k where k: "pl_sem s = Some k" "int k = int (card (tasks in_slot s))" "int k \<le> pl_limit s"
    using pool_sem [OF ok _ True, of p] h by auto
  with True h pool_okD(8) [OF ok, of p] show ?thesis
    by (intro pool_okI [OF ok, of _ p TRunning]) (auto simp: run_task_def)
next
  case False
  then have "pl_sem s = None" "pl_pc s p = TFree" using pool_okD(4) [OF ok, of p] assms(2) by auto
  with False pool_okD(8) [OF ok, of p] show ?thesis
    by (intro pool_okI [OF ok, of _ p TRunning]) (auto simp: run_task_def)
qed

lemma leaving_ok:
  assumes ok: "pool_ok s" and "pl_pc s p = TQueued"
  shows "pool_ok (pgoto p TLeaving s)"
proof -
  have k: "pl_sem s = None \<Longrightarrow> pl_limit s > 0 \<Longrightarrow> False" using pool_sem [OF ok, of p] assms(2) by force
  show ?thesis
    by (rule pool_okI [OF ok, of _ p TLeaving])
       (use assms(2) k pool_okD(6) [OF ok] pool_okD(4,7) [OF ok, of p] in auto)
qed

lemma task_done_ok:
  assumes ok: "pool_ok s" and "pl_pc s p = TLeaving"
  shows "pool_ok (task_done p s)"
proof -
  have k: "pl_sem s = None \<Longrightarrow> pl_limit s > 0 \<Longrightarrow> False" using pool_sem [OF ok, of p] assms(2) by force
  have "pl_wg s \<noteq> 0" using active_wg [OF ok, of p] assms(2) by simp
  then show ?thesis
    by (intro pool_okI [OF ok, of _ p TDone])
       (use assms(2) k pool_okD(6) [OF ok] pool_okD(4,7) [OF ok, of p] in \<open>auto simp: task_done_def\<close>)
qed

lemma drain_ok:
  assumes ok: "pool_ok s" and pc: "pl_pc s p = old" "(old, c) \<in> {(TNew, WBlocked), (WBlocked, WTimedOut), (WBlocked, WNil)}"
    and s': "s' = pgoto p c (s\<lparr>pl_closed := True\<rparr>)" and "c = WNil \<Longrightarrow> pl_wg s = 0"
  shows "pool_ok s'"
  unfolding s'
  by (rule pool_okI [OF ok, of _ p c])
     (use assms(5) pc pool_okD(6) [OF ok] pool_okD(4,7) [OF ok, of p] in auto)

lemma drain_ok2:
  assumes ok: "pool_ok s" and "pl_pc s p = WBlocked" "c = WTimedOut \<or> c = WNil \<and> pl_wg s = 0"
  shows "pool_ok (pgoto p c s)"
proof (rule drain_ok [OF ok assms(2)])
  have "pl_closed s" using pool_okD(9) [OF ok, of p] assms(2) by simp
  then show "pgoto p c s = pgoto p c (s\<lparr>pl_closed := True\<rparr>)" by simp
qed (use assms(3) in auto)

lemma pool_act_ok:
  assumes ok: "pool_ok s" and a: "pool_act p a s = Some s'"
  shows "pool_ok s'"
proof (cases "pl_pc s p")
  case TNew
  with a show ?thesis using pool_Go_ok [OF ok TNew] drain_ok [OF ok TNew, of WBlocked]
    by (cases a) (auto simp: pool_act_def)
next
  case TQueued
  with a show ?thesis using acquire_ok [OF ok TQueued] leaving_ok [OF ok TQueued]
    by (cases a) (auto simp: pool_act_def)
next
  case THeld
  with a show ?thesis using run_task_ok [OF ok, of p] release_ok [OF ok, of p]
    by (cases a) (auto simp: pool_act_def)
next
  case TFree
  with a show ?thesis using run_task_ok [OF ok, of p] by (cases a) (auto simp: pool_act_def)
next
  case TRunning
  with a show ?thesis using release_ok [OF ok, of p] by (cases a) (auto simp: pool_act_def)
next
  case TLeaving
  with a show ?thesis using task_done_ok [OF ok TLeaving] by (cases a) (auto simp: pool_act_def)
next
  case WBlocked
  with a show ?thesis using drain_ok2 [OF ok WBlocked]
    by (cases a) (auto simp: pool_act_def split: if_splits)
next
  case TRefused
  with a show ?thesis by (cases a) (simp_all add: pool_act_def)
next
  case TDone
  with a show ?thesis by (cases a) (simp_all add: pool_act_def)
next
  case WNil
  with a show ?thesis by (cases a) (simp_all add: pool_act_def)
next
  case WTimedOut
  with a show ?thesis by (cases a) (simp_all add: pool_act_def)
qed

lemma pool_reachable_ok: "pool_reachable limit s \<Longrightarrow> pool_ok s \<and> pl_limit s = limit"
proof (induction rule: pool_reachable.induct)
  case pool_start
  show ?case by (simp add: pool_ok_def new_pool_def tasks_def)
next
  case (pool_step s p a s')
  have "pl_limit s' = pl_limit s"
    using pool_step(2)
    by (cases a; cases "pl_pc s p")
       (auto simp: pool_act_def pool_Go_def acquire_def release_def run_task_def task_done_def Let_def
          split: option.splits if_splits)
  with pool_step pool_act_ok show ?case by metis
qed

section \<open>All\<close>

text \<open>What the call for one item does: a value and a nil error, an error (its own or its timeout), or
  a panic.\<close>

datatype 'r outcome = Answer 'r | Failure | Panic

text \<open>One goroutine: it writes only the two places of its own item.\<close>

definition all_item :: "(nat \<Rightarrow> 'r outcome) \<Rightarrow> nat \<Rightarrow> 'r list \<times> bool list \<Rightarrow> 'r list \<times> bool list" where
  "all_item out i st =
     (case out i of
        Answer r \<Rightarrow> ((fst st)[i := r], (snd st)[i := True])
      | Failure \<Rightarrow> st
      | Panic \<Rightarrow> st)"

text \<open>\<open>order\<close>: the items in the order their goroutines finish; \<open>zero\<close> is the zero value.\<close>

definition All_items :: "'r \<Rightarrow> (nat \<Rightarrow> 'r outcome) \<Rightarrow> nat \<Rightarrow> nat list \<Rightarrow> 'r list \<times> bool list" where
  "All_items zero out n order = fold (all_item out) order (replicate n zero, replicate n False)"

lemma nth_upd: "xs[j := v] ! x = (if j = x \<and> j < length xs then v else xs ! x)"
  by (cases "j < length xs"; cases "j = x") (simp_all add: list_update_beyond)

lemma all_items_fold:
  "fst (fold (all_item out) order (rs, oks)) =
     map (\<lambda>i. case out i of Answer r \<Rightarrow> if i \<in> set order then r else rs ! i | _ \<Rightarrow> rs ! i) [0..<length rs] \<and>
   snd (fold (all_item out) order (rs, oks)) =
     map (\<lambda>i. case out i of Answer r \<Rightarrow> i \<in> set order \<or> oks ! i | _ \<Rightarrow> oks ! i) [0..<length oks]"
proof (induction order arbitrary: rs oks)
  case Nil
  show ?case by (auto intro!: nth_equalityI split: outcome.split) (metis outcome.exhaust)
next
  case (Cons j order)
  show ?case
  proof (cases "out j")
    case (Answer r)
    then have "all_item out j (rs, oks) = (rs[j := r], oks[j := True])" by (simp add: all_item_def)
    with Answer show ?thesis by (auto simp: Cons nth_upd split: outcome.split if_splits intro!: map_cong)
  next
    case Failure
    then have "all_item out j (rs, oks) = (rs, oks)" by (simp add: all_item_def)
    with Failure show ?thesis by (auto simp: Cons split: outcome.split intro!: map_cong)
  next
    case Panic
    then have "all_item out j (rs, oks) = (rs, oks)" by (simp add: all_item_def)
    with Panic show ?thesis by (auto simp: Cons split: outcome.split intro!: map_cong)
  qed
qed

section \<open>Properties\<close>

text \<open>
  C20: a pool with a limit never runs more tasks at once than the limit, and runs each task at most
  once, whatever panics, context ends and drains are interleaved; once one drain has returned nil,
  no task runs, none is queued, and none is started by anything that happens later.
\<close>

theorem pool_safe:
  assumes "pool_reachable limit s"
  shows "(limit \<le> 0 \<or> int (card {p. pl_pc s p = TRunning}) \<le> limit) \<and> (\<forall>p. pl_runs s p \<le> 1) \<and>
    (\<forall>w t. pl_pc s w \<noteq> WNil \<or> \<not> pool_later s t \<or>
       pl_runs t = pl_runs s \<and> (\<forall>p. \<not> active (pl_pc t p)))"
proof (intro conjI)
  have ok: "pool_ok s" and lim: "pl_limit s = limit" using pool_reachable_ok [OF assms] by simp_all
  show "\<forall>p. pl_runs s p \<le> 1" using pool_okD(7) [OF ok] by blast
  show "limit \<le> 0 \<or> int (card {p. pl_pc s p = TRunning}) \<le> limit"
  proof (cases "limit \<le> 0 \<or> (\<forall>p. pl_pc s p \<noteq> TRunning)")
    case True
    then show ?thesis by auto
  next
    case False
    then obtain p where "pl_pc s p = TRunning" by blast
    with False lim obtain k where "int k = int (card (tasks in_slot s))" "int k \<le> limit"
      using pool_sem [OF ok, of p] by auto
    moreover have "card {p. pl_pc s p = TRunning} \<le> card (tasks in_slot s)"
      by (rule card_mono [OF pool_okD(11) [OF ok]]) (auto simp: tasks_def)
    ultimately show ?thesis by simp
  qed
  have "pool_ok t \<and> pl_pc t w = WNil \<and> pl_runs t = pl_runs s" if "pl_pc s w = WNil" "pool_later s t" for w t
    using that(2)
  proof (induction rule: pool_later.induct)
    case later_refl
    then show ?case using ok that(1) by simp
  next
    case (later_step t p a u)
    then have t: "pool_ok t" "pl_pc t w = WNil" "pl_runs t = pl_runs s" by simp_all
    have "\<not> active (pl_pc t p)" using active_wg [OF t(1), of p] pool_okD(10) [OF t(1,2)] by blast
    moreover have "pl_closed t" using pool_okD(9) [OF t(1), of w] t(2) by simp
    ultimately have "pl_runs u = pl_runs t" "pl_pc u w = WNil"
      using later_step(2) t(2)
      by (cases a; cases "pl_pc t p"; cases "p = w"; auto simp: pool_act_def pool_Go_def split: if_splits)+
    with t later_step(2) pool_act_ok show ?case by metis
  qed
  then show "\<forall>w t. pl_pc s w \<noteq> WNil \<or> \<not> pool_later s t \<or> pl_runs t = pl_runs s \<and> (\<forall>p. \<not> active (pl_pc t p))"
    using active_wg pool_okD(10) by metis
qed

theorem pool_safe_witness:
  "\<exists>s. pool_act 2 PWait (run_task 0 (pool_Go 1 False (the (acquire 0 (pool_Go 0 False (new_pool 1)))))) = Some s \<and>
     int (card {p. pl_pc s p = TRunning}) \<le> 1"
proof -
  let ?a = "pool_Go 0 False (new_pool 1)"
  let ?b = "the (acquire 0 ?a)"
  let ?c = "pool_Go 1 False ?b"
  let ?d = "run_task 0 ?c"
  have "pool_act 0 (PGo False) (new_pool 1) = Some ?a" by (simp add: pool_act_def new_pool_def)
  moreover have "pool_act 0 PStep ?a = Some ?b" by (simp add: pool_act_def pool_Go_def new_pool_def acquire_def Let_def)
  moreover have "pool_act 1 (PGo False) ?b = Some ?c" by (simp add: pool_act_def pool_Go_def new_pool_def acquire_def Let_def)
  moreover have "pool_act 0 PStep ?c = Some ?d" by (simp add: pool_act_def pool_Go_def new_pool_def acquire_def Let_def)
  moreover have "\<exists>s. pool_act 2 PWait ?d = Some s"
    by (simp add: pool_act_def pool_Go_def new_pool_def acquire_def run_task_def Let_def)
  then obtain s where s: "pool_act 2 PWait ?d = Some s" by blast
  ultimately have "pool_reachable 1 s" using pool_start pool_step by metis
  from pool_safe [OF this] s show ?thesis by simp
qed

text \<open>
  \<open>All\<close> answers in item order whatever order its goroutines finish in: place i holds the value
  of item i and true when its call answered, and the zero value and false when it failed or panicked.
\<close>

theorem all_in_order:
  assumes "distinct order" and "set order = {0..<n}"
  shows "All_items zero out n order =
    (map (\<lambda>i. case out i of Answer r \<Rightarrow> r | _ \<Rightarrow> zero) [0..<n],
     map (\<lambda>i. case out i of Answer r \<Rightarrow> True | _ \<Rightarrow> False) [0..<n])"
  unfolding All_items_def
  by (rule prod_eqI)
     (auto simp: all_items_fold assms(2) split: outcome.split intro!: map_cong)

theorem all_in_order_witness:
  "All_items (0 :: int) (\<lambda>i. if i = 1 then Panic else Answer (int i + 5)) 3 [2, 0, 1] = ([5, 0, 7], [True, False, True])"
proof -
  have "set [2, 0, 1 :: nat] = {0..<3}" by auto
  then show ?thesis
    using all_in_order [of "[2, 0, 1]" 3 "0 :: int" "\<lambda>i. if i = 1 then Panic else Answer (int i + 5)"]
    by (simp add: upt_rec)
qed

end
