(* ===== verification/Pubsub.thy ===== *)
theory Pubsub
  imports Prelude
begin

text \<open>
  pubsub/pubsub.go: the topic bus, as a step relation. Channels are numbered in the order they are
  made; each has the topic its unsubscribe function closes over, its queue and its sync.Once.

  One step is what no other goroutine can split: the bodies guarded by the write lock
  (\<open>Subscribe\<close>, the deletion in an unsubscribe) are one step each, and wait until no publisher holds
  the read lock; a \<open>Publish\<close> takes the read lock, offers its value to one channel after the other and
  releases it; an unsubscribe deletes and then, without the lock, closes. A send on a closed channel
  and a second close are the panics of Go. That a second call of an unsubscribe waits for the first
  one to end is left out: it changes nothing.
\<close>

section \<open>The bus\<close>

datatype unsub = UIdle | UDelete nat | UClose nat

record 'v bus =
  bs_buffer :: nat
  bs_subs :: "string \<Rightarrow> nat set option"
  bs_made :: nat
  bs_topic :: "nat \<Rightarrow> string"
  bs_queue :: "nat \<Rightarrow> 'v list"
  bs_once :: "nat set"
  bs_closed :: "nat set"
  bs_pub :: "nat \<Rightarrow> (string \<times> 'v \<times> nat set) option"  \<comment> \<open>publishers: topic, value, channels left\<close>
  bs_un :: "nat \<Rightarrow> unsub"

definition DefaultBuffer :: int where "DefaultBuffer = 16"

definition New_bus :: "int \<Rightarrow> 'v bus" where
  "New_bus buffer =
     \<lparr>bs_buffer = nat (if buffer \<le> 0 then DefaultBuffer else buffer), bs_subs = \<lambda>_. None, bs_made = 0,
      bs_topic = \<lambda>_. [], bs_queue = \<lambda>_. [], bs_once = {}, bs_closed = {}, bs_pub = \<lambda>_. None, bs_un = \<lambda>_. UIdle\<rparr>"

definition unread :: "'v bus \<Rightarrow> bool" where
  "unread s \<longleftrightarrow> (\<forall>p. bs_pub s p = None)"  \<comment> \<open>the write lock is free\<close>

definition members :: "(string \<Rightarrow> nat set option) \<Rightarrow> string \<Rightarrow> nat set" where
  "members m t = (case m t of None \<Rightarrow> {} | Some C \<Rightarrow> C)"

abbreviation topic_subs :: "'v bus \<Rightarrow> string \<Rightarrow> nat set" where
  "topic_subs s t \<equiv> members (bs_subs s) t"

datatype 'v outcome = Disabled | Panicked | Now "'v bus"

definition subscribe :: "string \<Rightarrow> 'v bus \<Rightarrow> 'v outcome" where
  "subscribe t s =
     (if \<not> unread s then Disabled
      else let ch = bs_made s in
        Now (s\<lparr>bs_made := ch + 1, bs_topic := (bs_topic s)(ch := t), bs_queue := (bs_queue s)(ch := []),
               bs_subs := (bs_subs s)(t \<mapsto> insert ch (topic_subs s t))\<rparr>))"

definition publish :: "nat \<Rightarrow> string \<Rightarrow> 'v \<Rightarrow> 'v bus \<Rightarrow> 'v outcome" where
  "publish p t v s =
     (if bs_pub s p \<noteq> None then Disabled else Now (s\<lparr>bs_pub := (bs_pub s)(p \<mapsto> (t, v, topic_subs s t))\<rparr>))"

definition send :: "nat \<Rightarrow> nat \<Rightarrow> 'v bus \<Rightarrow> 'v outcome" where
  "send p ch s =
     (case bs_pub s p of
        None \<Rightarrow> Disabled
      | Some (t, v, left) \<Rightarrow>
          if ch \<notin> left then Disabled
          else if ch \<in> bs_closed s then Panicked
          else
            let s1 = s\<lparr>bs_pub := (bs_pub s)(p \<mapsto> (t, v, left - {ch}))\<rparr>
            in Now (if length (bs_queue s ch) < bs_buffer s
                    then s1\<lparr>bs_queue := (bs_queue s)(ch := bs_queue s ch @ [v])\<rparr>
                    else s1))"

definition published :: "nat \<Rightarrow> 'v bus \<Rightarrow> 'v outcome" where
  "published p s =
     (case bs_pub s p of
        None \<Rightarrow> Disabled
      | Some (t, v, left) \<Rightarrow> if left \<noteq> {} then Disabled else Now (s\<lparr>bs_pub := (bs_pub s)(p := None)\<rparr>))"

text \<open>The unsubscribe function of channel \<open>ch\<close>, called by \<open>q\<close>: the Once, the deletion, the close.\<close>

definition unsubscribe :: "nat \<Rightarrow> nat \<Rightarrow> 'v bus \<Rightarrow> 'v outcome" where
  "unsubscribe q ch s =
     (if bs_un s q \<noteq> UIdle \<or> bs_made s \<le> ch then Disabled
      else if ch \<in> bs_once s then Now s
      else Now (s\<lparr>bs_once := insert ch (bs_once s), bs_un := (bs_un s)(q := UDelete ch)\<rparr>))"

definition un_delete :: "nat \<Rightarrow> 'v bus \<Rightarrow> 'v outcome" where
  "un_delete q s =
     (case bs_un s q of
        UDelete ch \<Rightarrow>
          if \<not> unread s then Disabled
          else let t = bs_topic s ch; C = topic_subs s t - {ch}
            in Now (s\<lparr>bs_subs := (bs_subs s)(t := (if C = {} then None else Some C)), bs_un := (bs_un s)(q := UClose ch)\<rparr>)
      | _ \<Rightarrow> Disabled)"

definition un_close :: "nat \<Rightarrow> 'v bus \<Rightarrow> 'v outcome" where
  "un_close q s =
     (case bs_un s q of
        UClose ch \<Rightarrow>
          if ch \<in> bs_closed s then Panicked
          else Now (s\<lparr>bs_closed := insert ch (bs_closed s), bs_un := (bs_un s)(q := UIdle)\<rparr>)
      | _ \<Rightarrow> Disabled)"

definition receive :: "nat \<Rightarrow> 'v bus \<Rightarrow> 'v outcome" where
  "receive ch s =
     (case bs_queue s ch of
        [] \<Rightarrow> Disabled
      | v # q \<Rightarrow> Now (s\<lparr>bs_queue := (bs_queue s)(ch := q)\<rparr>))"

definition Subscribers :: "'v bus \<Rightarrow> string \<Rightarrow> nat" where
  "Subscribers s t = card (topic_subs s t)"

definition Topics :: "'v bus \<Rightarrow> nat" where
  "Topics s = card (dom (bs_subs s))"

datatype 'v bact =
    Subscribe string | Publish nat string 'v | Send nat nat | Published nat
  | Unsubscribe nat nat | Delete nat | Close nat | Receive nat

fun bus_act :: "'v bact \<Rightarrow> 'v bus \<Rightarrow> 'v outcome" where
  "bus_act (Subscribe t) s = subscribe t s"
| "bus_act (Publish p t v) s = publish p t v s"
| "bus_act (Send p ch) s = send p ch s"
| "bus_act (Published p) s = published p s"
| "bus_act (Unsubscribe q ch) s = unsubscribe q ch s"
| "bus_act (Delete q) s = un_delete q s"
| "bus_act (Close q) s = un_close q s"
| "bus_act (Receive ch) s = receive ch s"

text \<open>A history: what was accepted into a channel, with the topic it was published to, and what
  each reader took out, oldest first.\<close>

definition accepted :: "'v bact \<Rightarrow> 'v bus \<Rightarrow> (string \<times> 'v \<times> nat) list" where
  "accepted a s =
     (case a of
        Send p ch \<Rightarrow>
          (case bs_pub s p of
             None \<Rightarrow> []
           | Some (t, v, left) \<Rightarrow> if length (bs_queue s ch) < bs_buffer s then [(t, v, ch)] else [])
      | _ \<Rightarrow> [])"

definition taken :: "'v bact \<Rightarrow> 'v bus \<Rightarrow> nat \<Rightarrow> 'v list" where
  "taken a s ch = (case a of Receive c \<Rightarrow> if c = ch then [hd (bs_queue s ch)] else [] | _ \<Rightarrow> [])"

inductive bus_run :: "int \<Rightarrow> 'v bus \<Rightarrow> (string \<times> 'v \<times> nat) list \<Rightarrow> (nat \<Rightarrow> 'v list) \<Rightarrow> bool" for n where
  bus_new: "bus_run n (New_bus n) [] (\<lambda>_. [])"
| bus_next: "bus_run n s log got \<Longrightarrow> bus_act a s = Now s' \<Longrightarrow>
    bus_run n s' (log @ accepted a s) (\<lambda>ch. got ch @ taken a s ch)"

section \<open>The invariant\<close>

fun victim :: "unsub \<Rightarrow> nat option" where
  "victim UIdle = None"
| "victim (UDelete ch) = Some ch"
| "victim (UClose ch) = Some ch"

definition bus_ok :: "'v bus \<Rightarrow> bool" where
  "bus_ok s \<longleftrightarrow>
     (\<forall>t. bs_subs s t \<noteq> Some {} \<and> finite (topic_subs s t)) \<and>
     (\<forall>t. \<forall>ch\<in>topic_subs s t. ch < bs_made s \<and> bs_topic s ch = t \<and> ch \<notin> bs_closed s) \<and>
     (\<forall>q ch t. bs_un s q = UClose ch \<longrightarrow> ch \<notin> topic_subs s t) \<and>
     (\<forall>p t v left. bs_pub s p = Some (t, v, left) \<longrightarrow> left \<subseteq> topic_subs s t) \<and>
     (\<forall>q ch. victim (bs_un s q) = Some ch \<longrightarrow> ch \<in> bs_once s \<and> ch \<notin> bs_closed s \<and>
        (\<forall>q'. victim (bs_un s q') = Some ch \<longrightarrow> q' = q)) \<and>
     bs_closed s \<subseteq> bs_once s \<and> (\<forall>ch\<in>bs_once s. ch < bs_made s)"

lemma bus_okD:
  assumes "bus_ok s"
  shows "bs_subs s t \<noteq> Some {}" "finite (topic_subs s t)"
    "ch \<in> topic_subs s t \<Longrightarrow> ch < bs_made s" "ch \<in> topic_subs s t \<Longrightarrow> bs_topic s ch = t"
    "ch \<in> topic_subs s t \<Longrightarrow> ch \<notin> bs_closed s"
    "bs_un s q = UClose ch \<Longrightarrow> ch \<notin> topic_subs s t"
    "bs_pub s p = Some (t, v, left) \<Longrightarrow> ch \<in> left \<Longrightarrow> ch \<in> topic_subs s t"
    "victim (bs_un s q) = Some ch \<Longrightarrow> ch \<in> bs_once s" "victim (bs_un s q) = Some ch \<Longrightarrow> ch \<notin> bs_closed s"
    "victim (bs_un s q) = Some ch \<Longrightarrow> victim (bs_un s q') = Some ch \<Longrightarrow> q' = q"
    "ch \<in> bs_closed s \<Longrightarrow> ch \<in> bs_once s" "ch \<in> bs_once s \<Longrightarrow> ch < bs_made s"
  using assms unfolding bus_ok_def by blast+

lemma bus_okI:
  assumes "\<And>t. bs_subs s t \<noteq> Some {}" "\<And>t. finite (topic_subs s t)"
    "\<And>t ch. ch \<in> topic_subs s t \<Longrightarrow> ch < bs_made s \<and> bs_topic s ch = t \<and> ch \<notin> bs_closed s"
    "\<And>q ch t. bs_un s q = UClose ch \<Longrightarrow> ch \<notin> topic_subs s t"
    "\<And>p t v left. bs_pub s p = Some (t, v, left) \<Longrightarrow> left \<subseteq> topic_subs s t"
    "\<And>q ch. victim (bs_un s q) = Some ch \<Longrightarrow> ch \<in> bs_once s \<and> ch \<notin> bs_closed s"
    "\<And>q q' ch. victim (bs_un s q) = Some ch \<Longrightarrow> victim (bs_un s q') = Some ch \<Longrightarrow> q' = q"
    "bs_closed s \<subseteq> bs_once s" "\<And>ch. ch \<in> bs_once s \<Longrightarrow> ch < bs_made s"
  shows "bus_ok s"
  unfolding bus_ok_def using assms by blast

lemma members_upd [simp]:
  "members (m(t \<mapsto> C)) t' = (if t' = t then C else members m t')"
  "members (m(t := None)) t' = (if t' = t then {} else members m t')"
  "members (m(t := (if C = {} then None else Some C))) t' = (if t' = t then C else members m t')"
  by (simp_all add: members_def)

lemma New_bus_ok: "bus_ok (New_bus n)"
  by (rule bus_okI) (simp_all add: New_bus_def members_def)

lemma subscribe_ok:
  assumes "bus_ok s" and "subscribe t s = Now s'"
  shows "bus_ok s'"
proof -
  note ok = bus_okD [OF assms(1)]
  have s': "s' = s\<lparr>bs_made := bs_made s + 1, bs_topic := (bs_topic s)(bs_made s := t), bs_queue := (bs_queue s)(bs_made s := []),
      bs_subs := (bs_subs s)(t \<mapsto> insert (bs_made s) (topic_subs s t))\<rparr>" and free: "unread s"
    using assms(2) by (simp_all add: subscribe_def Let_def split: if_splits)
  have new: "bs_made s \<notin> bs_once s" "bs_made s \<notin> bs_closed s" using ok(11,12) by blast+
  have uc: "bs_un s q \<noteq> UClose (bs_made s)" for q using ok(8) [of q "bs_made s"] new(1) by auto
  show ?thesis
    by (rule bus_okI) (use ok uc new free in \<open>auto simp: s' unread_def less_Suc_eq split: if_splits\<close>)
qed

lemma publish_ok:
  assumes "bus_ok s" and "publish p t v s = Now s'"
  shows "bus_ok s'"
  by (rule bus_okI) (use bus_okD [OF assms(1)] assms(2) in \<open>auto simp: publish_def split: if_splits\<close>)

lemma send_ok:
  assumes "bus_ok s" and "send p ch s = Now s'"
  shows "bus_ok s'"
proof -
  obtain t v left where p: "bs_pub s p = Some (t, v, left)"
    using assms(2) by (auto simp: send_def split: option.splits)
  have "\<exists>q. s' = s\<lparr>bs_pub := (bs_pub s)(p \<mapsto> (t, v, left - {ch})), bs_queue := q\<rparr>"
  proof (cases "length (bs_queue s ch) < bs_buffer s")
    case True
    then show ?thesis using assms(2) p by (intro exI [of _ "(bs_queue s)(ch := bs_queue s ch @ [v])"]) (simp add: send_def Let_def split: if_splits)
  next
    case False
    then show ?thesis using assms(2) p by (intro exI [of _ "bs_queue s"]) (simp add: send_def Let_def split: if_splits)
  qed
  then obtain q where s': "s' = s\<lparr>bs_pub := (bs_pub s)(p \<mapsto> (t, v, left - {ch})), bs_queue := q\<rparr>" by blast
  show ?thesis
    by (rule bus_okI) (use bus_okD [OF assms(1)] bus_okD(7) [OF assms(1) p] in \<open>auto simp: s' split: if_splits\<close>)
qed

lemma published_ok:
  assumes "bus_ok s" and "published p s = Now s'"
  shows "bus_ok s'"
  by (rule bus_okI) (use bus_okD [OF assms(1)] assms(2) in \<open>auto simp: published_def split: option.splits if_splits\<close>)

lemma unsubscribe_ok:
  assumes "bus_ok s" and "unsubscribe q ch s = Now s'"
  shows "bus_ok s'"
proof (cases "ch \<in> bs_once s")
  case True
  then show ?thesis using assms by (simp add: unsubscribe_def split: if_splits)
next
  case False
  then have s': "s' = s\<lparr>bs_once := insert ch (bs_once s), bs_un := (bs_un s)(q := UDelete ch)\<rparr>" and "ch < bs_made s"
    using assms(2) by (simp_all add: unsubscribe_def split: if_splits)
  then show ?thesis
    by (intro bus_okI) (use bus_okD [OF assms(1)] False in \<open>auto simp: split: if_splits\<close>)
qed

lemma un_delete_ok:
  assumes "bus_ok s" and "un_delete q s = Now s'"
  shows "bus_ok s'"
proof -
  note ok = bus_okD [OF assms(1)]
  obtain ch where q: "bs_un s q = UDelete ch" and free: "unread s"
    and s': "s' = s\<lparr>bs_subs := (bs_subs s)(bs_topic s ch := (if topic_subs s (bs_topic s ch) - {ch} = {} then None
        else Some (topic_subs s (bs_topic s ch) - {ch}))), bs_un := (bs_un s)(q := UClose ch)\<rparr>"
    using assms(2) by (auto simp: un_delete_def Let_def split: unsub.splits if_splits)
  let ?t = "bs_topic s ch"
  have subs: "topic_subs s' t = topic_subs s t - {ch}" for t
    using ok(4) [of ch t] by (auto simp: s')
  have other: "ch' \<noteq> ch" if "bs_un s q' = UClose ch'" for q' ch'
    using ok(10) [of q' ch' q] that q by auto
  show ?thesis
  proof (rule bus_okI)
    show "bs_subs s' t \<noteq> Some {}" for t using ok(1) by (simp add: s')
    show "finite (topic_subs s' t)" for t using ok(2) by (simp add: subs)
    show "ch' < bs_made s' \<and> bs_topic s' ch' = t \<and> ch' \<notin> bs_closed s'" if "ch' \<in> topic_subs s' t" for t ch'
      using ok(3-5) [of ch' t] that unfolding subs by (simp add: s')
    show "ch' \<notin> topic_subs s' t" if "bs_un s' q' = UClose ch'" for q' ch' t
      using that ok(6) [of q' ch' t] unfolding subs by (auto simp: s' split: if_splits)
    show "left \<subseteq> topic_subs s' t" if "bs_pub s' p = Some (t, v, left)" for p t v left
      using that free by (simp add: s' unread_def)
    have v: "victim (bs_un s' x) = victim (bs_un s x)" for x using q by (simp add: s')
    show "ch' \<in> bs_once s' \<and> ch' \<notin> bs_closed s'" if "victim (bs_un s' x) = Some ch'" for x ch'
      using ok(8,9) that unfolding v by (simp add: s')
    show "y = x" if "victim (bs_un s' x) = Some ch'" "victim (bs_un s' y) = Some ch'" for x y ch'
      using ok(10) that unfolding v by blast
    show "bs_closed s' \<subseteq> bs_once s'" "\<And>ch. ch \<in> bs_once s' \<Longrightarrow> ch < bs_made s'" using ok(11,12) by (auto simp: s')
  qed
qed

lemma un_close_ok:
  assumes "bus_ok s" and "un_close q s = Now s'"
  shows "bus_ok s'"
proof -
  note ok = bus_okD [OF assms(1)]
  obtain ch where q: "bs_un s q = UClose ch"
    and s': "s' = s\<lparr>bs_closed := insert ch (bs_closed s), bs_un := (bs_un s)(q := UIdle)\<rparr>"
    using assms(2) by (auto simp: un_close_def split: unsub.splits if_splits)
  have only: "ch' \<noteq> ch" if "victim (bs_un s x) = Some ch'" "x \<noteq> q" for x ch'
    using ok(10) [of x ch' q] that q by auto
  have "ch \<in> bs_once s" using ok(8) [of q ch] q by simp
  then show ?thesis
    by (intro bus_okI) (use ok ok(6) [OF q] only in \<open>auto simp: s' split: if_splits\<close>)
qed

lemma bus_ok_queue: "bus_ok (s\<lparr>bs_queue := q\<rparr>) = bus_ok s"
  by (simp add: bus_ok_def)

lemma receive_ok: "bus_ok s \<Longrightarrow> receive ch s = Now s' \<Longrightarrow> bus_ok s'"
  by (auto simp: receive_def bus_ok_queue split: list.splits)

lemma bus_act_ok: "bus_ok s \<Longrightarrow> bus_act a s = Now s' \<Longrightarrow> bus_ok s'"
  by (cases a; simp only: bus_act.simps;
      erule (1) subscribe_ok publish_ok send_ok published_ok unsubscribe_ok un_delete_ok un_close_ok receive_ok)

lemma bus_run_ok: "bus_run n s log got \<Longrightarrow> bus_ok s"
  by (induction rule: bus_run.induct) (auto intro: New_bus_ok bus_act_ok)

section \<open>Publishers\<close>

fun bus_acts :: "'v bact list \<Rightarrow> 'v bus \<Rightarrow> 'v bus option" where
  "bus_acts [] s = Some s"
| "bus_acts (a # as) s = (case bus_act a s of Now s' \<Rightarrow> bus_acts as s' | _ \<Rightarrow> None)"

lemma send_enabled:
  assumes "bus_ok s" and "bs_pub s p = Some (t, v, left)" and "ch \<in> left"
  shows "\<exists>s'. send p ch s = Now s' \<and> bs_pub s' p = Some (t, v, left - {ch})"
  using bus_okD(5) [OF assms(1) bus_okD(7) [OF assms]] assms(2,3) by (simp add: send_def Let_def)

lemma publisher_runs:
  assumes "finite left" and "bus_ok s" and "bs_pub s p = Some (t, v, left)"
  shows "\<exists>as s'. length as = Suc (card left) \<and> set as \<subseteq> insert (Published p) (Send p ` left) \<and>
    bus_acts as s = Some s' \<and> bs_pub s' p = None"
  using assms
proof (induction left arbitrary: s rule: finite_induct)
  case empty
  then show ?case by (intro exI [of _ "[Published p]"] exI [of _ "s\<lparr>bs_pub := (bs_pub s)(p := None)\<rparr>"]) (simp add: published_def)
next
  case (insert ch left)
  obtain s1 where s1: "send p ch s = Now s1" "bs_pub s1 p = Some (t, v, insert ch left - {ch})"
    using send_enabled [OF insert.prems] by blast
  moreover have "insert ch left - {ch} = left" using insert.hyps(2) by simp
  ultimately obtain as s' where "length as = Suc (card left)" "set as \<subseteq> insert (Published p) (Send p ` left)"
      "bus_acts as s1 = Some s'" "bs_pub s' p = None"
    using insert.IH send_ok [OF insert.prems(1) s1(1)] by metis
  with s1(1) insert.hyps show ?case by (intro exI [of _ "Send p ch # as"] exI [of _ s']) auto
qed

section \<open>What readers get\<close>

definition of_chan :: "nat \<Rightarrow> (string \<times> 'v \<times> nat) list \<Rightarrow> 'v list" where
  "of_chan ch log = map (\<lambda>(t, v, c). v) (filter (\<lambda>(t, v, c). c = ch) log)"

lemma of_chan_append [simp]: "of_chan ch (a @ b) = of_chan ch a @ of_chan ch b"
  by (simp add: of_chan_def)

lemma of_chan_simps [simp]: "of_chan ch [] = []" "of_chan ch [(t, v, c)] = (if c = ch then [v] else [])"
  by (simp_all add: of_chan_def)

lemma bus_act_frame:
  "bus_act a s = Now s' \<Longrightarrow> bs_buffer s' = bs_buffer s"
  "bus_act a s = Now s' \<Longrightarrow> ch < bs_made s \<Longrightarrow> ch < bs_made s' \<and> bs_topic s' ch = bs_topic s ch"
  by (cases a; auto simp: subscribe_def publish_def send_def published_def unsubscribe_def un_delete_def un_close_def
      receive_def Let_def split: if_splits option.splits unsub.splits list.splits)+

lemma bus_act_queue:
  assumes "bus_act a s = Now s'" and "\<forall>ch\<ge>bs_made s. bs_queue s ch = []"
  shows "bs_queue s ch @ of_chan ch (accepted a s) = taken a s ch @ bs_queue s' ch"
  using assms
  by (cases a; auto simp: subscribe_def publish_def send_def published_def unsubscribe_def un_delete_def un_close_def
      receive_def accepted_def taken_def Let_def split: if_splits option.splits unsub.splits list.splits)

lemma bus_act_bound:
  assumes "bus_act a s = Now s'" and "length (bs_queue s ch) \<le> bs_buffer s"
  shows "length (bs_queue s' ch) \<le> bs_buffer s"
  using assms
  by (cases a; auto simp: subscribe_def publish_def send_def published_def unsubscribe_def un_delete_def un_close_def
      receive_def Let_def split: if_splits option.splits unsub.splits list.splits)

lemma accepted_topic:
  assumes "bus_ok s" and "bus_act a s = Now s'" and "(t, v, ch) \<in> set (accepted a s)"
  shows "ch < bs_made s \<and> bs_topic s ch = t"
proof -
  obtain p left where a: "a = Send p ch" "bs_pub s p = Some (t, v, left)"
    using assms(3) by (cases a) (auto simp: accepted_def split: option.splits if_splits intro: that [OF _ sym])
  then have "ch \<in> left" using assms(2) by (simp add: send_def split: if_splits)
  then show ?thesis using bus_okD(3,4,7) [OF assms(1)] a(2) by blast
qed

lemma bus_run_queues:
  assumes "bus_run n s log got"
  shows "(\<forall>ch. got ch @ bs_queue s ch = of_chan ch log) \<and> (\<forall>ch. length (bs_queue s ch) \<le> bs_buffer s) \<and>
    (\<forall>(t, v, ch)\<in>set log. ch < bs_made s \<and> bs_topic s ch = t) \<and> bs_buffer s = nat (if n \<le> 0 then 16 else n)"
  using assms
proof (induction rule: bus_run.induct)
  case bus_new
  show ?case by (simp add: New_bus_def DefaultBuffer_def)
next
  case (bus_next s log got a s')
  have ok: "bus_ok s" by (rule bus_run_ok) (rule bus_next)
  have none: "\<forall>ch\<ge>bs_made s. bs_queue s ch = []"
  proof (intro allI impI)
    fix ch assume "bs_made s \<le> ch"
    then have "of_chan ch log = []" using bus_next.IH by (force simp: of_chan_def filter_empty_conv)
    then show "bs_queue s ch = []" using bus_next.IH by (metis append_is_Nil_conv)
  qed
  have "(got ch @ taken a s ch) @ bs_queue s' ch = of_chan ch (log @ accepted a s)" for ch
    using bus_act_queue [OF bus_next(2) none, of ch] bus_next.IH by (metis append_assoc of_chan_append)
  moreover have "length (bs_queue s' ch) \<le> bs_buffer s'" for ch
    using bus_act_bound [OF bus_next(2), of ch] bus_act_frame(1) [OF bus_next(2)] bus_next.IH by metis
  moreover have "ch < bs_made s' \<and> bs_topic s' ch = t" if "(t, v, ch) \<in> set (log @ accepted a s)" for t v ch
    using that bus_next.IH accepted_topic [OF ok bus_next(2)] bus_act_frame(2) [OF bus_next(2), of ch] by fastforce
  ultimately show ?case using bus_act_frame(1) [OF bus_next(2)] bus_next.IH by fastforce
qed

section \<open>What a Publish offers\<close>

text \<open>A channel whose unsubscribe was not called is in the map, under its topic.\<close>

definition subscribed :: "'v bus \<Rightarrow> string \<Rightarrow> nat \<Rightarrow> bool" where
  "subscribed s t ch \<longleftrightarrow> ch < bs_made s \<and> bs_topic s ch = t \<and> ch \<notin> bs_once s"

definition subs_full :: "'v bus \<Rightarrow> bool" where
  "subs_full s \<longleftrightarrow> (\<forall>ch<bs_made s. ch \<notin> bs_once s \<longrightarrow> ch \<in> topic_subs s (bs_topic s ch))"

lemma bus_act_full:
  assumes "bus_ok s" and "subs_full s" and "bus_act a s = Now s'"
  shows "subs_full s'"
proof (cases a)
  case (Delete q)
  with assms(3) obtain ch where q: "bs_un s q = UDelete ch"
    and s': "s' = s\<lparr>bs_subs := (bs_subs s)(bs_topic s ch := (if topic_subs s (bs_topic s ch) - {ch} = {} then None
        else Some (topic_subs s (bs_topic s ch) - {ch}))), bs_un := (bs_un s)(q := UClose ch)\<rparr>"
    by (auto simp: un_delete_def Let_def split: unsub.splits if_splits)
  have "ch \<in> bs_once s" using bus_okD(8) [OF assms(1), of q ch] q by simp
  moreover have "topic_subs s' t = topic_subs s t - {ch}" for t
    using bus_okD(4) [OF assms(1), of ch t] by (auto simp: s')
  ultimately show ?thesis using assms(2) unfolding subs_full_def by (auto simp add: s' simp del: members_upd)
qed (use assms(2,3) in \<open>auto simp: subs_full_def subscribe_def publish_def send_def published_def unsubscribe_def
      un_close_def receive_def Let_def less_Suc_eq split: if_splits option.splits unsub.splits list.splits\<close>)

lemma bus_run_full: "bus_run n s log got \<Longrightarrow> subs_full s"
proof (induction rule: bus_run.induct)
  case bus_new
  show ?case by (simp add: subs_full_def New_bus_def)
next
  case (bus_next s log got a s')
  show ?case by (rule bus_act_full [OF bus_run_ok [OF bus_next(1)] bus_next(3,2)])
qed

text \<open>The channels a publisher has still to offer its value to are those it has not sent on.\<close>

definition to_offer :: "nat \<Rightarrow> string \<Rightarrow> 'v \<Rightarrow> nat set \<Rightarrow> 'v bact list \<Rightarrow> 'v bus \<Rightarrow> bool" where
  "to_offer p t v C as s \<longleftrightarrow> (\<exists>left. bs_pub s p = Some (t, v, left) \<and> left \<subseteq> C \<and>
     (\<forall>ch. count_list as (Send p ch) = (if ch \<in> C \<and> ch \<notin> left then 1 else 0)))"

lemma bus_act_offer:
  assumes "to_offer p t v C as s" and "bus_act a s = Now s'" and "a \<noteq> Published p"
  shows "to_offer p t v C (as @ [a]) s'"
proof -
  obtain left where left: "bs_pub s p = Some (t, v, left)" "left \<subseteq> C"
    and count: "\<And>ch. count_list as (Send p ch) = (if ch \<in> C \<and> ch \<notin> left then 1 else 0)"
    using assms(1) by (auto simp: to_offer_def)
  show ?thesis
  proof (cases "\<exists>ch. a = Send p ch")
    case True
    then obtain ch where a: "a = Send p ch" by blast
    with assms(2) left(1) have "ch \<in> left" "bs_pub s' p = Some (t, v, left - {ch})"
      by (auto simp: send_def Let_def split: if_splits)
    then show ?thesis using left(2) by (auto simp: to_offer_def a count)
  next
    case False
    with assms(2,3) left(1) have "bs_pub s' p = Some (t, v, left)"
      by (cases a) (auto simp: subscribe_def publish_def send_def published_def unsubscribe_def un_delete_def
          un_close_def receive_def Let_def split: if_splits option.splits unsub.splits list.splits)
    with False left(2) show ?thesis by (auto simp: to_offer_def count)
  qed
qed

lemma bus_acts_append:
  "bus_acts (as @ bs) s = (case bus_acts as s of None \<Rightarrow> None | Some s' \<Rightarrow> bus_acts bs s')"
  by (induction as s rule: bus_acts.induct) (auto split: outcome.split)

lemma bus_acts_offer:
  "to_offer p t v C [] s \<Longrightarrow> bus_acts as s = Some s' \<Longrightarrow> Published p \<notin> set as \<Longrightarrow> to_offer p t v C as s'"
proof (induction as arbitrary: s' rule: rev_induct)
  case (snoc a as)
  then obtain s1 where "bus_acts as s = Some s1" "bus_act a s1 = Now s'"
    by (auto simp: bus_acts_append split: option.splits outcome.splits)
  with snoc show ?case by (auto intro: bus_act_offer)
qed simp

lemma bus_acts_frame: "bus_acts as s = Some s' \<Longrightarrow> bs_buffer s' = bs_buffer s"
proof (induction as s rule: bus_acts.induct)
  case (2 a as s)
  then show ?case using bus_act_frame(1) by (fastforce split: outcome.splits)
qed simp

lemma publish_offers:
  assumes "bus_run n s log got" and "publish p t v s = Now s1" and "bus_acts as s1 = Some s2" and "Published p \<notin> set as"
  shows "published p s2 = Now s3 \<Longrightarrow> subscribed s t ch \<Longrightarrow> count_list as (Send p ch) = 1"
    and "count_list as (Send p ch) \<le> 1"
    and "Send p ch \<in> set as \<Longrightarrow> ch < bs_made s" and "Send p ch \<in> set as \<Longrightarrow> bs_topic s ch = t"
    and "as = as1 @ Send p ch # as2 \<Longrightarrow> bus_acts as1 s1 = Some u \<Longrightarrow>
      \<exists>u'. send p ch u = Now u' \<and> bs_queue u' =
        (if length (bs_queue u ch) < bs_buffer s then (bs_queue u)(ch := bs_queue u ch @ [v]) else bs_queue u)"
proof -
  note ok = bus_okD [OF bus_run_ok [OF assms(1)]]
  have first: "to_offer p t v (topic_subs s t) [] s1"
    using assms(2) by (auto simp: to_offer_def publish_def split: if_splits)
  have o: "to_offer p t v (topic_subs s t) as s2" by (rule bus_acts_offer [OF first assms(3,4)])
  then show "count_list as (Send p ch) \<le> 1" by (auto simp: to_offer_def)
  show "count_list as (Send p ch) = 1" if "published p s2 = Now s3" "subscribed s t ch"
    using o that bus_run_full [OF assms(1)]
    by (auto simp: to_offer_def published_def subscribed_def subs_full_def split: if_splits)
  have "count_list as (Send p ch) \<noteq> 0 \<Longrightarrow> ch \<in> topic_subs s t"
    using o by (auto simp: to_offer_def split: if_splits)
  then show "ch < bs_made s" "bs_topic s ch = t" if "Send p ch \<in> set as"
    using that ok(3,4) by (simp_all add: count_list_0_iff)
  show "\<exists>u'. send p ch u = Now u' \<and> bs_queue u' =
      (if length (bs_queue u ch) < bs_buffer s then (bs_queue u)(ch := bs_queue u ch @ [v]) else bs_queue u)"
    if "as = as1 @ Send p ch # as2" "bus_acts as1 s1 = Some u"
  proof -
    have "to_offer p t v (topic_subs s t) as1 u"
      using bus_acts_offer [OF first that(2)] assms(4) that(1) by simp
    moreover have "bs_buffer u = bs_buffer s"
      using bus_acts_frame [OF that(2)] bus_act_frame(1) [of "Publish p t v" s s1] assms(2) by simp
    moreover have "send p ch u \<noteq> Disabled" "send p ch u \<noteq> Panicked"
      using assms(3) that by (auto simp: bus_acts_append)
    ultimately show ?thesis by (auto simp: to_offer_def send_def Let_def split: if_splits)
  qed
qed

section \<open>Properties\<close>

text \<open>
  C24: whatever publishers, subscribers and unsubscribers race, no value is sent on a closed channel
  and none is closed twice, an unsubscribe called again included; a topic that lost its last
  subscriber is gone from the map; and a publisher is never blocked: its own steps alone, one per
  channel left and one more, end the call.
\<close>

theorem bus_safe:
  assumes "bus_run n s log got"
  shows "bus_act a s \<noteq> Panicked \<and> bs_subs s t \<noteq> Some {} \<and>
    (bs_pub s p = Some (u, v, left) \<longrightarrow>
       (\<exists>as s'. length as = Suc (card left) \<and> set as \<subseteq> insert (Published p) (Send p ` left) \<and>
          bus_acts as s = Some s' \<and> bs_pub s' p = None))"
proof (intro conjI impI)
  have ok: "bus_ok s" using assms by (rule bus_run_ok)
  show "bs_subs s t \<noteq> Some {}" by (rule bus_okD(1) [OF ok])
  show "bus_act a s \<noteq> Panicked"
  proof (cases a)
    case (Send p ch)
    have "ch \<notin> bs_closed s" if "bs_pub s p = Some (t, v, left)" "ch \<in> left" for t v left
      using bus_okD(5) [OF ok bus_okD(7) [OF ok that]] .
    with Send show ?thesis by (auto simp: send_def Let_def split: option.split)
  next
    case (Close q)
    have "ch \<notin> bs_closed s" if "bs_un s q = UClose ch" for ch
      using bus_okD(9) [OF ok, of q ch] that by simp
    with Close show ?thesis by (auto simp: un_close_def split: unsub.split)
  qed (auto simp: subscribe_def publish_def published_def unsubscribe_def un_delete_def receive_def Let_def
      split: option.split unsub.split list.split)
  assume p: "bs_pub s p = Some (u, v, left)"
  then have "finite left" using bus_okD(2,7) [OF ok] by (meson finite_subset subsetI)
  then show "\<exists>as s'. length as = Suc (card left) \<and> set as \<subseteq> insert (Published p) (Send p ` left) \<and>
      bus_acts as s = Some s' \<and> bs_pub s' p = None"
    using publisher_runs [OF _ ok p] by blast
qed

text \<open>Two subscribers of one topic, and a publisher between them.\<close>

definition demo_bus :: "int bus" where
  "demo_bus = (case bus_acts [Subscribe ''a'', Subscribe ''a'', Publish 0 ''a'' 7, Send 0 1] (New_bus 1) of Some s \<Rightarrow> s)"

lemma bus_acts_run:
  "bus_acts as s = Some s' \<Longrightarrow> bus_run n s log got \<Longrightarrow> \<exists>log' got'. bus_run n s' log' got'"
proof (induction as arbitrary: s log got)
  case (Cons a as)
  then obtain s1 where "bus_act a s = Now s1" "bus_acts as s1 = Some s'" by (auto split: outcome.splits)
  with Cons show ?case using bus_next by meson
qed auto

lemma demo_bus_run:
  "\<exists>log got. bus_run 1 demo_bus log got" "bs_pub demo_bus 0 = Some (''a'', 7, {0})" "bs_queue demo_bus 1 = [7]"
proof -
  have acts: "bus_acts [Subscribe ''a'', Subscribe ''a'', Publish 0 ''a'' 7, Send 0 1] (New_bus 1) = Some demo_bus"
    "bs_pub demo_bus 0 = Some (''a'', 7, {0})" "bs_queue demo_bus 1 = [7]"
    by (auto simp: demo_bus_def subscribe_def publish_def send_def New_bus_def unread_def members_def Let_def)
  then show "\<exists>log got. bus_run 1 demo_bus log got" "bs_pub demo_bus 0 = Some (''a'', 7, {0})" "bs_queue demo_bus 1 = [7]"
    using bus_acts_run bus_new by blast+
qed

theorem bus_safe_witness:
  "\<exists>as s'. length as = 2 \<and> bus_acts as demo_bus = Some s' \<and> bs_pub s' 0 = None \<and> bus_act (Send 0 0) demo_bus \<noteq> Panicked"
proof -
  obtain log got where r: "bus_run 1 demo_bus log got" using demo_bus_run(1) by blast
  from bus_safe [OF r, of "Send 0 0" "''a''" 0 "''a''" 7 "{0}"] demo_bus_run(2) show ?thesis
    by (auto simp: numeral_2_eq_2)
qed

text \<open>
  C25: what is published is offered, and what is taken was published. A Publish that returns has
  offered its value exactly once to every channel that was subscribed to its topic when it began and
  whose unsubscribe had not been called, and to no channel of another topic; at that moment the value
  is appended to the channel's queue if it holds fewer values than the buffer and changes nothing
  otherwise. A reader gets only values published to its topic, in the order they were accepted and
  each once: what it took out, followed by what is queued, is exactly the accepted values of its
  channel. A queue never exceeds the buffer, 16 when New was given none.
\<close>

theorem bus_delivers:
  assumes "bus_run n s log got"
  shows "got ch @ bs_queue s ch = map (\<lambda>(t, v, c). v) (filter (\<lambda>(t, v, c). c = ch) log) \<and>
    (\<forall>(t, v, c)\<in>set log. t = bs_topic s c) \<and>
    length (bs_queue s ch) \<le> nat (if n \<le> 0 then 16 else n) \<and>
    (\<forall>p t v s1 as s2. publish p t v s = Now s1 \<and> bus_acts as s1 = Some s2 \<and> Published p \<notin> set as \<longrightarrow>
       (\<forall>c s3. published p s2 = Now s3 \<and> subscribed s t c \<longrightarrow> count_list as (Send p c) = 1) \<and>
       (\<forall>c. count_list as (Send p c) \<le> 1) \<and>
       (\<forall>c. Send p c \<in> set as \<longrightarrow> c < bs_made s \<and> bs_topic s c = t) \<and>
       (\<forall>c as1 as2 u. as = as1 @ Send p c # as2 \<and> bus_acts as1 s1 = Some u \<longrightarrow>
          (\<exists>u'. send p c u = Now u' \<and> bs_queue u' =
             (if length (bs_queue u c) < nat (if n \<le> 0 then 16 else n)
              then (bs_queue u)(c := bs_queue u c @ [v]) else bs_queue u))))"
proof -
  note q = bus_run_queues [OF assms]
  have b: "bs_buffer s = nat (if n \<le> 0 then 16 else n)" using q by blast
  have "got ch @ bs_queue s ch = map (\<lambda>(t, v, c). v) (filter (\<lambda>(t, v, c). c = ch) log)"
    using q unfolding of_chan_def [symmetric] by blast
  moreover have "\<forall>(t, v, c)\<in>set log. t = bs_topic s c" using q by blast
  moreover have "length (bs_queue s ch) \<le> nat (if n \<le> 0 then 16 else n)" using q b by metis
  moreover note publish_offers [OF assms, unfolded b]
  ultimately show ?thesis by (intro conjI allI impI; (elim conjE)?) assumption+
qed

theorem bus_delivers_witness:
  "\<exists>s :: int bus. bus_acts [Subscribe ''a'', Subscribe ''a'', Subscribe ''b''] (New_bus 1) = Some s \<and>
     subscribed s ''a'' 0 \<and> subscribed s ''a'' 1 \<and>
     (\<forall>s1 as s2 s3. publish 0 ''a'' 7 s = Now s1 \<and> bus_acts as s1 = Some s2 \<and> Published 0 \<notin> set as \<and>
        published 0 s2 = Now s3 \<longrightarrow> count_list as (Send 0 0) = 1 \<and> count_list as (Send 0 1) = 1) \<and>
     (\<exists>s1 s2 s3. publish 0 ''a'' 7 s = Now s1 \<and> bus_acts [Send 0 1, Send 0 0] s1 = Some s2 \<and> published 0 s2 = Now s3)"
proof -
  define s :: "int bus" where
    "s = (case bus_acts [Subscribe ''a'', Subscribe ''a'', Subscribe ''b''] (New_bus 1) of Some s \<Rightarrow> s)"
  have acts: "bus_acts [Subscribe ''a'', Subscribe ''a'', Subscribe ''b''] (New_bus 1) = Some s"
    and sub: "subscribed s ''a'' 0" "subscribed s ''a'' 1"
    and run: "\<exists>s1 s2 s3. publish 0 ''a'' 7 s = Now s1 \<and> bus_acts [Send 0 1, Send 0 0] s1 = Some s2 \<and> published 0 s2 = Now s3"
    by (auto simp: s_def subscribe_def publish_def send_def published_def New_bus_def unread_def members_def
        subscribed_def Let_def)
  obtain log got where r: "bus_run 1 s log got" using bus_acts_run [OF acts bus_new] by blast
  have "count_list as (Send 0 0) = 1 \<and> count_list as (Send 0 1) = 1"
    if "publish 0 ''a'' 7 s = Now s1" "bus_acts as s1 = Some s2" "Published 0 \<notin> set as" "published 0 s2 = Now s3"
    for s1 as s2 s3
    using bus_delivers [OF r] that sub by blast
  with acts sub run show ?thesis by blast
qed

end
