(* ===== verification/Health.thy ===== *)
theory Health
  imports GoErr
begin

text \<open>
  health/health.go and health/handler.go: readiness. \<open>run\<close>, \<open>runBounded\<close>, \<open>Check\<close>, the handlers and
  the transition log are functions of what the checks do in one sweep. The flag that keeps a check
  from being entered twice is modelled as a step relation over any number of overlapping sweeps of
  one check: each sweep is the waiting side of \<open>runBounded\<close> and, once it has taken the flag, the
  goroutine that calls the check.
\<close>

section \<open>One sweep\<close>

definition DefaultTimeout :: duration where "DefaultTimeout = 3 * second"

record check_result =
  cr_Name :: string
  cr_OK :: bool
  cr_Err :: string
  cr_Took :: duration
  cr_TookMs :: int

record result =
  rs_Ready :: bool
  rs_Checks :: "check_result list"

text \<open>How a check function ends: nil, an error, or a panic with its printed value.\<close>

datatype fn_end = FnOk | FnErr string | FnPanic string

definition notAnswered :: "string \<Rightarrow> string \<Rightarrow> duration \<Rightarrow> check_result" where
  "notAnswered name reason took =
     \<lparr>cr_Name = name, cr_OK = False, cr_Err = reason, cr_Took = took, cr_TookMs = took div 1000000\<rparr>"

definition run_check :: "string \<Rightarrow> fn_end \<Rightarrow> duration \<Rightarrow> check_result" where
  "run_check name out took =
     \<lparr>cr_Name = name,
      cr_OK = (case out of FnOk \<Rightarrow> True | _ \<Rightarrow> False),
      cr_Err = (case out of FnOk \<Rightarrow> [] | FnErr e \<Rightarrow> e | FnPanic v \<Rightarrow> ''check panicked: '' @ v),
      cr_Took = took, cr_TookMs = took div 1000000\<rparr>"

definition still_running :: string where
  "still_running = ''still running from an earlier check''"

text \<open>What \<open>runBounded\<close> meets: the flag held, an answer, or the end of the context.\<close>

datatype bounded = FlagHeld | Answers fn_end | ContextDone string

definition runBounded :: "string \<Rightarrow> bounded \<Rightarrow> duration \<Rightarrow> check_result" where
  "runBounded name b took =
     (case b of
        FlagHeld \<Rightarrow> notAnswered name still_running took
      | Answers out \<Rightarrow> run_check name out took
      | ContextDone reason \<Rightarrow> notAnswered name reason took)"

record registry =
  rg_Timeout :: duration
  rg_checks :: "string list"
  rg_state :: nat  \<comment> \<open>0: not yet observed\<close>

text \<open>\<open>has_fn\<close>: the function is not nil.\<close>

definition Register :: "string \<Rightarrow> bool \<Rightarrow> registry \<Rightarrow> registry" where
  "Register name has_fn r = (if \<not> has_fn then r else r\<lparr>rg_checks := rg_checks r @ [name]\<rparr>)"

definition sweep_timeout :: "registry \<Rightarrow> duration" where
  "sweep_timeout r = (if rg_Timeout r \<le> 0 then DefaultTimeout else rg_Timeout r)"

definition Check :: "registry \<Rightarrow> (nat \<Rightarrow> bounded \<times> duration) \<Rightarrow> result" where
  "Check r out =
     (let results = map (\<lambda>(i, name). case out i of (b, took) \<Rightarrow> runBounded name b took) (List.enumerate 0 (rg_checks r))
      in \<lparr>rs_Ready = fold (\<lambda>res ready. if \<not> cr_OK res then False else ready) results True, rs_Checks = results\<rparr>)"

section \<open>The handlers\<close>

datatype body = LiveBody | Verdict bool | Detail result

record reply =
  rp_status :: int
  rp_no_store :: bool
  rp_body :: body

datatype line = LineReady | LineNotReady string

definition LiveHandler :: reply where
  "LiveHandler = \<lparr>rp_status = 200, rp_no_store = False, rp_body = LiveBody\<rparr>"

definition stateReady :: nat where "stateReady = 1"
definition stateUnready :: nat where "stateUnready = 2"

definition failing :: "result \<Rightarrow> string" where
  "failing res = join_with ''; '' (map (\<lambda>c. cr_Name c @ '': '' @ cr_Err c) (filter (\<lambda>c. \<not> cr_OK c) (rs_Checks res)))"

definition logTransition :: "nat \<Rightarrow> result \<Rightarrow> nat \<times> line list" where
  "logTransition old res =
     (let state = (if rs_Ready res then stateReady else stateUnready)
      in (state, if old = state then [] else if rs_Ready res then [LineReady] else [LineNotReady (failing res)]))"

definition handler :: "bool \<Rightarrow> registry \<Rightarrow> (nat \<Rightarrow> bounded \<times> duration) \<Rightarrow> registry \<times> line list \<times> reply" where
  "handler detailed r out =
     (let res = Check r out;
          (state, lines) = logTransition (rg_state r) res
      in (r\<lparr>rg_state := state\<rparr>, lines,
          \<lparr>rp_status = (if \<not> rs_Ready res then 503 else 200), rp_no_store = True,
           rp_body = (if detailed then Detail res else Verdict (rs_Ready res))\<rparr>))"

definition ReadyHandler :: "registry \<Rightarrow> (nat \<Rightarrow> bounded \<times> duration) \<Rightarrow> registry \<times> line list \<times> reply" where
  "ReadyHandler = handler False"

definition DetailHandler :: "registry \<Rightarrow> (nat \<Rightarrow> bounded \<times> duration) \<Rightarrow> registry \<times> line list \<times> reply" where
  "DetailHandler = handler True"

fun probes :: "registry \<Rightarrow> (nat \<Rightarrow> bounded \<times> duration) list \<Rightarrow> line list \<times> reply list" where
  "probes r [] = ([], [])"
| "probes r (out # outs) =
     (case ReadyHandler r out of
        (r', ls, rp) \<Rightarrow> (case probes r' outs of (ls', rps) \<Rightarrow> (ls @ ls', rp # rps)))"

section \<open>Overlapping sweeps of one check\<close>

datatype waiting = SIdle | SWaiting | SDone check_result
datatype calling = GNone | GRunning | GReleasing check_result | GSending check_result | GSent check_result

record chk =
  ck_name :: string
  ck_running :: bool
  ck_sweep :: "nat \<Rightarrow> waiting"
  ck_go :: "nat \<Rightarrow> calling"

definition new_check :: "string \<Rightarrow> chk" where
  "new_check name = \<lparr>ck_name = name, ck_running = False, ck_sweep = \<lambda>_. SIdle, ck_go = \<lambda>_. GNone\<rparr>"

datatype cact =
    Start nat duration | FnEnds nat fn_end duration | Release nat | SendResult nat | Receive nat
  | Deadline nat string duration

fun chk_act :: "cact \<Rightarrow> chk \<Rightarrow> chk option" where
  "chk_act (Start p took) c =
     (if ck_sweep c p \<noteq> SIdle then None
      else if ck_running c
      then Some (c\<lparr>ck_sweep := (ck_sweep c)(p := SDone (notAnswered (ck_name c) still_running took))\<rparr>)
      else Some (c\<lparr>ck_running := True, ck_sweep := (ck_sweep c)(p := SWaiting), ck_go := (ck_go c)(p := GRunning)\<rparr>))"
| "chk_act (FnEnds p out took) c =
     (if ck_go c p = GRunning
      then Some (c\<lparr>ck_go := (ck_go c)(p := GReleasing (run_check (ck_name c) out took))\<rparr>) else None)"
| "chk_act (Release p) c =
     (case ck_go c p of
        GReleasing res \<Rightarrow> Some (c\<lparr>ck_running := False, ck_go := (ck_go c)(p := GSending res)\<rparr>)
      | _ \<Rightarrow> None)"
| "chk_act (SendResult p) c =
     (case ck_go c p of GSending res \<Rightarrow> Some (c\<lparr>ck_go := (ck_go c)(p := GSent res)\<rparr>) | _ \<Rightarrow> None)"
| "chk_act (Receive p) c =
     (case (ck_sweep c p, ck_go c p) of
        (SWaiting, GSent res) \<Rightarrow> Some (c\<lparr>ck_sweep := (ck_sweep c)(p := SDone res)\<rparr>)
      | _ \<Rightarrow> None)"
| "chk_act (Deadline p reason took) c =
     (if ck_sweep c p = SWaiting
      then Some (c\<lparr>ck_sweep := (ck_sweep c)(p := SDone (notAnswered (ck_name c) reason took))\<rparr>) else None)"

fun chk_acts :: "cact list \<Rightarrow> chk \<Rightarrow> chk option" where
  "chk_acts [] c = Some c"
| "chk_acts (a # as) c = Option.bind (chk_act a c) (chk_acts as)"

inductive chk_reach :: "string \<Rightarrow> chk \<Rightarrow> bool" for name where
  chk_new: "chk_reach name (new_check name)"
| chk_next: "chk_reach name c \<Longrightarrow> chk_act a c = Some c' \<Longrightarrow> chk_reach name c'"

section \<open>Lemmas\<close>

lemma ready_fold: "fold (\<lambda>res ready. if \<not> cr_OK res then False else ready) rs b \<longleftrightarrow> b \<and> (\<forall>r\<in>set rs. cr_OK r)"
  by (induction rs arbitrary: b) auto

lemma Check_ready: "rs_Ready (Check r out) \<longleftrightarrow> (\<forall>c\<in>set (rs_Checks (Check r out)). cr_OK c)"
  by (simp add: Check_def Let_def ready_fold)

lemma runBounded_OK: "cr_OK (runBounded name b took) \<longleftrightarrow> b = Answers FnOk"
  by (simp add: runBounded_def notAnswered_def run_check_def split: bounded.split fn_end.split)

lemma Check_checks: "length (rs_Checks (Check r out)) = length (rg_checks r)"
  "i < length (rg_checks r) \<Longrightarrow>
     rs_Checks (Check r out) ! i = runBounded (rg_checks r ! i) (fst (out i)) (snd (out i))"
  by (simp_all add: Check_def Let_def nth_enumerate_eq split_beta)

definition in_call :: "calling \<Rightarrow> bool" where
  "in_call g \<longleftrightarrow> (case g of GRunning \<Rightarrow> True | GReleasing _ \<Rightarrow> True | _ \<Rightarrow> False)"

lemma in_call_simps [simp]:
  "\<not> in_call GNone" "in_call GRunning" "in_call (GReleasing r)" "\<not> in_call (GSending r)" "\<not> in_call (GSent r)"
  by (simp_all add: in_call_def)

definition chk_ok :: "chk \<Rightarrow> bool" where
  "chk_ok c \<longleftrightarrow> (\<forall>p q. in_call (ck_go c p) \<and> in_call (ck_go c q) \<longrightarrow> p = q) \<and>
     (ck_running c \<longleftrightarrow> (\<exists>p. in_call (ck_go c p))) \<and> (\<forall>p. ck_sweep c p = SIdle \<longrightarrow> ck_go c p = GNone)"

lemma chk_act_ok: "chk_ok c \<Longrightarrow> chk_act a c = Some c' \<Longrightarrow> chk_ok c'"
  unfolding chk_ok_def
  by (cases a) (auto split: if_splits calling.splits waiting.splits; metis in_call_simps)+

lemma chk_act_name: "chk_act a c = Some c' \<Longrightarrow> ck_name c' = ck_name c"
  by (cases a) (auto split: if_splits calling.splits waiting.splits)

lemma chk_reach_ok: "chk_reach name c \<Longrightarrow> chk_ok c \<and> ck_name c = name"
proof (induction rule: chk_reach.induct)
  case chk_new
  show ?case by (simp add: chk_ok_def new_check_def)
next
  case chk_next
  then show ?case using chk_act_ok chk_act_name by metis
qed

lemma chk_acts_reach: "chk_acts as c = Some c' \<Longrightarrow> chk_reach name c \<Longrightarrow> chk_reach name c'"
  by (induction as arbitrary: c) (auto simp: bind_eq_Some_conv intro: chk_next)

fun line_ready :: "line \<Rightarrow> bool" where
  "line_ready LineReady = True"
| "line_ready (LineNotReady _) = False"

definition all_ok :: "registry \<Rightarrow> (nat \<Rightarrow> bounded \<times> duration) \<Rightarrow> bool" where
  "all_ok r out \<longleftrightarrow> (\<forall>i<length (rg_checks r). fst (out i) = Answers FnOk)"

lemma Check_all_ok: "rs_Ready (Check r out) = all_ok r out"
  by (simp add: Check_ready all_ok_def all_set_conv_all_nth Check_checks runBounded_OK)

lemma all_ok_state [simp]: "all_ok (r\<lparr>rg_state := s\<rparr>) = all_ok r"
  by (rule ext) (simp add: all_ok_def)

definition encode_ready :: "bool \<Rightarrow> nat" where
  "encode_ready b = (if b then stateReady else stateUnready)"

lemma ReadyHandler_step:
  "\<exists>ls. ReadyHandler r out = (r\<lparr>rg_state := encode_ready (all_ok r out)\<rparr>, ls,
      \<lparr>rp_status = (if all_ok r out then 200 else 503), rp_no_store = True, rp_body = Verdict (all_ok r out)\<rparr>) \<and>
    map line_ready ls = (if rg_state r = encode_ready (all_ok r out) then [] else [all_ok r out])"
  by (auto simp: ReadyHandler_def handler_def logTransition_def Check_all_ok encode_ready_def Let_def)

lemma encode_ready_inj: "encode_ready a = encode_ready b \<longleftrightarrow> a = b" "encode_ready a \<noteq> 0"
  by (simp_all add: encode_ready_def stateReady_def stateUnready_def)

lemma probes_lines:
  "rg_state r = encode_ready b \<Longrightarrow> b # map line_ready (fst (probes r outs)) = remdups_adj (b # map (all_ok r) outs)"
proof (induction outs arbitrary: r b)
  case (Cons out outs)
  obtain ls where ls: "map line_ready ls = (if b = all_ok r out then [] else [all_ok r out])"
    and h: "ReadyHandler r out = (r\<lparr>rg_state := encode_ready (all_ok r out)\<rparr>, ls,
      \<lparr>rp_status = (if all_ok r out then 200 else 503), rp_no_store = True, rp_body = Verdict (all_ok r out)\<rparr>)"
    using ReadyHandler_step [of r out] Cons.prems by (auto simp: encode_ready_inj)
  have "all_ok r out # map line_ready (fst (probes (r\<lparr>rg_state := encode_ready (all_ok r out)\<rparr>) outs)) =
      remdups_adj (all_ok r out # map (all_ok r) outs)"
    using Cons.IH [of "r\<lparr>rg_state := encode_ready (all_ok r out)\<rparr>" "all_ok r out"]
    by simp
  with ls show ?case by (auto simp: h split: prod.splits)
qed simp

lemma probes_replies:
  "snd (probes r outs) = map (\<lambda>out. \<lparr>rp_status = (if all_ok r out then 200 else 503), rp_no_store = True,
     rp_body = Verdict (all_ok r out)\<rparr>) outs"
proof (induction outs arbitrary: r)
  case (Cons out outs)
  show ?case using ReadyHandler_step [of r out] Cons [of "r\<lparr>rg_state := encode_ready (all_ok r out)\<rparr>"]
    by (auto split: prod.splits)
qed simp

section \<open>Properties\<close>

text \<open>
  C26: each probe of the public endpoint answers 200 exactly when every registered check answered nil
  in its time, 503 otherwise, with the verdict alone and no-store; and over any sequence of probes
  the log has one line for the first and one for every change of the verdict, and no other.
\<close>

theorem health_verdict:
  assumes "rg_state r = 0"
  shows "snd (probes r outs) = map (\<lambda>out. \<lparr>rp_status = (if all_ok r out then 200 else 503), rp_no_store = True,
       rp_body = Verdict (all_ok r out)\<rparr>) outs \<and>
    map line_ready (fst (probes r outs)) = remdups_adj (map (all_ok r) outs)"
proof (intro conjI)
  show "map line_ready (fst (probes r outs)) = remdups_adj (map (all_ok r) outs)"
  proof (cases outs)
    case (Cons out outs')
    let ?r = "r\<lparr>rg_state := encode_ready (all_ok r out)\<rparr>"
    have "map line_ready (fst (probes r outs)) = all_ok r out # map line_ready (fst (probes ?r outs'))"
      using ReadyHandler_step [of r out] assms encode_ready_inj(2) [of "all_ok r out"]
      by (auto simp: Cons split: prod.splits)
    also have "\<dots> = remdups_adj (all_ok r out # map (all_ok ?r) outs')" by (rule probes_lines) simp
    finally show ?thesis by (simp add: Cons)
  qed simp
qed (rule probes_replies)

theorem health_verdict_witness:
  "map line_ready (fst (probes \<lparr>rg_Timeout = 0, rg_checks = [''db''], rg_state = 0\<rparr>
     (map (\<lambda>b _. (b, 5)) [Answers FnOk, Answers FnOk, ContextDone ''context deadline exceeded'', FlagHeld, Answers FnOk]))) =
   [True, False, True]"
  using health_verdict [of "\<lparr>rg_Timeout = 0, rg_checks = [''db''], rg_state = 0\<rparr>"
      "map (\<lambda>b _. (b, 5)) [Answers FnOk, Answers FnOk, ContextDone ''context deadline exceeded'', FlagHeld, Answers FnOk]"]
  by (simp add: all_ok_def)

text \<open>
  C27: however sweeps overlap, at most one call of a check is in flight, its flag is held exactly while
  one is, and a sweep that finds it free enters the check. A waiting sweep can always end at its
  deadline. A sweep that starts while a call is in flight is answered "still running from an earlier
  check" at once, whatever that call will answer.
\<close>

theorem one_call:
  assumes "chk_reach name c"
  shows "(\<forall>p q. ck_go c p = GRunning \<and> ck_go c q = GRunning \<longrightarrow> p = q) \<and>
    (ck_sweep c q = SIdle \<and> (\<forall>p. \<not> in_call (ck_go c p)) \<longrightarrow>
       (\<exists>c'. chk_act (Start q took) c = Some c' \<and> ck_go c' q = GRunning)) \<and>
    (ck_sweep c q = SWaiting \<longrightarrow>
       (\<exists>c'. chk_act (Deadline q reason took) c = Some c' \<and> ck_sweep c' q = SDone (notAnswered name reason took))) \<and>
    (ck_sweep c q = SIdle \<and> ck_go c p = GRunning \<longrightarrow>
       (\<exists>c'. chk_act (Start q took) c = Some c' \<and> ck_go c' = ck_go c \<and>
          ck_sweep c' q = SDone (notAnswered name still_running took)))"
proof -
  have ok: "chk_ok c" and n: "ck_name c = name" using chk_reach_ok [OF assms] by simp_all
  have one: "p = q" if "ck_go c p = GRunning" "ck_go c q = GRunning" for p q
    using ok that unfolding chk_ok_def by (metis in_call_simps(2))
  have flag: "ck_running c \<longleftrightarrow> (\<exists>p. in_call (ck_go c p))" using ok unfolding chk_ok_def by blast
  have "ck_running c" if "ck_go c p = GRunning" using flag that by (metis in_call_simps(2))
  with one flag n show ?thesis by auto
qed

text \<open>Two probes of a healthy check overlap: the first is answered OK, the second not, although no
  deadline has passed.\<close>

theorem one_call_witness:
  "\<exists>c. chk_acts [Start 0 0, Start 1 0, FnEnds 0 FnOk 9, Release 0, SendResult 0, Receive 0] (new_check ''db'') = Some c \<and>
     ck_sweep c 0 = SDone (run_check ''db'' FnOk 9) \<and> ck_sweep c 1 = SDone (notAnswered ''db'' still_running 0)"
proof -
  obtain c where c: "chk_act (Start 0 0) (new_check ''db'') = Some c" "ck_go c 0 = GRunning" "ck_sweep c 1 = SIdle" "ck_sweep c 0 = SWaiting"
    by (simp add: new_check_def)
  have r: "chk_reach ''db'' c" by (rule chk_next [OF chk_new c(1)])
  from one_call [OF r, of 1 0 _ 0] c
  obtain d where d: "chk_act (Start 1 0) c = Some d" "ck_go d = ck_go c" "ck_sweep d 1 = SDone (notAnswered ''db'' still_running 0)"
    by blast
  then have "ck_sweep d 0 = SWaiting" "ck_name d = ''db''"
    using c chk_reach_ok [OF r] by (auto split: if_splits)
  with c d show ?thesis by simp
qed

end
