(* ===== verification/WebPush.thy ===== *)
theory WebPush
  imports Fault Token "HOL-Library.Multiset"
begin

text \<open>
  webpush/vapid.go and webpush/delivery/sender.go: VAPID keys and the fan-out of one message.

  crypto/ecdh, net/mail and url.Parse are parameters; so is the encrypted request of webpush-go, by
  what it answers for each subscription. The fan-out is modelled twice: its result over the
  deliveries in whatever order they run, and the loop, semaphore, wait group and goroutines of SendTo step by step.
\<close>

section \<open>Keys\<close>

record keys =
  ky_Public :: string
  ky_Private :: string

definition publicKeyLen :: nat where "publicKeyLen = 65"
definition privateKeyLen :: nat where "privateKeyLen = 32"

definition ErrInvalidKey :: string where "ErrInvalidKey = ''webpush: invalid VAPID key''"

text \<open>P-256: a scalar drawn at random or an error; the public point of a scalar, None when the bytes
  are not a scalar of the group.\<close>

record p256 =
  pc_generate :: "gerr + string"
  pc_public :: "string \<Rightarrow> string option"

definition GenerateKeys :: "p256 \<Rightarrow> gerr + keys" where
  "GenerateKeys ec =
     (case pc_generate ec of
        Inl e \<Rightarrow> Inl (Wrap ''webpush: generate VAPID keys: '' e [])
      | Inr priv \<Rightarrow>
          Inr \<lparr>ky_Public = b64url (case pc_public ec priv of None \<Rightarrow> [] | Some pub \<Rightarrow> pub), ky_Private = b64url priv\<rparr>)"

definition invalid_key :: "string \<Rightarrow> gerr" where
  "invalid_key why = Wrap [] (Sentinel ErrInvalidKey) ('': '' @ why)"

definition Validate :: "p256 \<Rightarrow> keys \<Rightarrow> gerr option" where
  "Validate ec k =
     (case b64url_decode (ky_Public k) of
        None \<Rightarrow> Some (invalid_key ''public key must be 65 base64url-encoded bytes'')
      | Some pub \<Rightarrow>
          if length pub \<noteq> publicKeyLen then Some (invalid_key ''public key must be 65 base64url-encoded bytes'')
          else
            (case b64url_decode (ky_Private k) of
               None \<Rightarrow> Some (invalid_key ''private key must be 32 base64url-encoded bytes'')
             | Some raw \<Rightarrow>
                 if length raw \<noteq> privateKeyLen then Some (invalid_key ''private key must be 32 base64url-encoded bytes'')
                 else
                   (case pc_public ec raw of
                      None \<Rightarrow> Some (invalid_key ''private key is not a valid P-256 scalar'')
                    | Some p \<Rightarrow>
                        if b64url p \<noteq> ky_Public k
                        then Some (invalid_key ''the public key is not derived from the private key'') else None)))"

section \<open>The subject\<close>

text \<open>\<open>strings.ToLower\<close> on the letters of ASCII: the prefixes looked for have no others.\<close>

definition lower :: "string \<Rightarrow> string" where
  "lower s = map (\<lambda>c. if 65 \<le> byte_of c \<and> byte_of c \<le> 90 then char_of (byte_of c + 32) else c) s"

definition strip_prefix :: "string \<Rightarrow> string \<Rightarrow> string" where
  "strip_prefix p s = (if has_prefix s p then drop (length p) s else s)"

text \<open>\<open>address s\<close> is the address \<open>mail.ParseAddress\<close> finds in \<open>s\<close>; \<open>q\<close> is the verb \<open>%q\<close>.\<close>

definition NormalizeSubject ::
    "(string \<Rightarrow> string option) \<Rightarrow> (string \<Rightarrow> url option) \<Rightarrow> (string \<Rightarrow> string) \<Rightarrow> string \<Rightarrow> gerr + string" where
  "NormalizeSubject address parse q subject =
     (let s = trim_space subject
      in if s = [] then Inl (Text ''webpush: VAPID subject is empty'')
         else if has_prefix (lower s) ''https:''
         then (case parse s of
                 None \<Rightarrow> Inl (Text (''webpush: VAPID subject '' @ q subject @ '' is not a valid https URL''))
               | Some u \<Rightarrow>
                   if u_Host u = [] then Inl (Text (''webpush: VAPID subject '' @ q subject @ '' is not a valid https URL''))
                   else Inr s)
         else if has_prefix (lower s) ''http:''
         then Inl (Text (''webpush: VAPID subject '' @ q subject @ '' must use https, not http''))
         else
           let s1 = trim_space (strip_prefix ''mailto:'' s)
           in case address s1 of
                None \<Rightarrow> Inl (Text (''webpush: VAPID subject '' @ q subject @ '' is neither an https URL nor an email address''))
              | Some _ \<Rightarrow> Inr s1)"

section \<open>Delivery\<close>

record subscription =
  sb_Endpoint :: string
  sb_Auth :: string
  sb_P256DH :: string

definition DefaultTTL :: int where "DefaultTTL = 86400"
definition DefaultConcurrency :: int where "DefaultConcurrency = 8"
definition PushTimeout :: duration where "PushTimeout = 10 * second"

record push_options =
  po_Subject :: string
  po_TTL :: int
  po_Concurrency :: int
  po_Timeout :: duration

record sender =
  sd_keys :: keys
  sd_subject :: string
  sd_ttl :: int
  sd_limit :: int
  sd_timeout :: duration

definition New_sender ::
    "p256 \<Rightarrow> (string \<Rightarrow> string option) \<Rightarrow> (string \<Rightarrow> url option) \<Rightarrow> (string \<Rightarrow> string) \<Rightarrow> keys \<Rightarrow> push_options \<Rightarrow> gerr + sender" where
  "New_sender ec address parse q k opts =
     (case Validate ec k of
        Some e \<Rightarrow> Inl e
      | None \<Rightarrow>
          (case NormalizeSubject address parse q (po_Subject opts) of
             Inl e \<Rightarrow> Inl e
           | Inr subject \<Rightarrow>
               Inr \<lparr>sd_keys = k, sd_subject = subject,
                 sd_ttl = (if po_TTL opts \<le> 0 then DefaultTTL else po_TTL opts),
                 sd_limit = (if po_Concurrency opts \<le> 0 then DefaultConcurrency else po_Concurrency opts),
                 sd_timeout = (if po_Timeout opts \<le> 0 then PushTimeout else po_Timeout opts)\<rparr>))"

definition PublicKey :: "sender \<Rightarrow> string" where "PublicKey s = ky_Public (sd_keys s)"

text \<open>What sending to one subscription does: it is answered, with the bytes one read of the body gives,
  does not get through, or panics.\<close>

datatype push_out = Answered int string | Unreachable gerr | PushPanics

datatype push_line = LineFailed string gerr | LineDropping string int | LineNotRemoved gerr | LineRejected string int string

record 'w push_env =
  pe_send :: "subscription \<Rightarrow> push_out"
  pe_delete :: "string \<Rightarrow> 'w \<Rightarrow> 'w \<times> gerr option"
  pe_parse :: "string \<Rightarrow> url option"

definition maxLoggedBody :: nat where "maxLoggedBody = 1024"

definition endpointHost :: "(string \<Rightarrow> url option) \<Rightarrow> string \<Rightarrow> string" where
  "endpointHost parse endpoint =
     (case parse endpoint of None \<Rightarrow> endpoint | Some u \<Rightarrow> if u_Host u \<noteq> [] then u_Host u else endpoint)"

definition deliver :: "'w push_env \<Rightarrow> subscription \<Rightarrow> 'w \<Rightarrow> 'w \<times> push_line list \<times> bool" where
  "deliver env sub w =
     (let host = endpointHost (pe_parse env) (sb_Endpoint sub) in
      case pe_send env sub of
        PushPanics \<Rightarrow> (w, [], False)
      | Unreachable e \<Rightarrow> (w, [LineFailed host e], False)
      | Answered status body \<Rightarrow>
          if status = 410 \<or> status = 404
          then (case pe_delete env (sb_Endpoint sub) w of
                  (w', None) \<Rightarrow> (w', [LineDropping host status], False)
                | (w', Some e) \<Rightarrow> (w', [LineDropping host status, LineNotRemoved e], False))
          else if status \<ge> 200 \<and> status < 300 then (w, [], True)
          else (w, [LineRejected host status (trim_space (take maxLoggedBody body))], False))"

text \<open>\<open>order\<close>: the subscriptions in the order their deliveries end.\<close>

fun deliver_all :: "'w push_env \<Rightarrow> subscription list \<Rightarrow> 'w \<Rightarrow> nat \<Rightarrow> 'w \<times> nat" where
  "deliver_all env [] w n = (w, n)"
| "deliver_all env (sub # subs) w n =
     (case deliver env sub w of (w', _, ok) \<Rightarrow> deliver_all env subs w' (if ok then n + 1 else n))"

definition SendTo :: "'w push_env \<Rightarrow> subscription list \<Rightarrow> subscription list \<Rightarrow> 'w \<Rightarrow> 'w \<times> nat" where
  "SendTo env subs order w = (if subs = [] then (w, 0) else deliver_all env order w 0)"

definition Send_topic ::
    "'w push_env \<Rightarrow> ('w \<Rightarrow> gerr + subscription list) \<Rightarrow> (subscription list \<Rightarrow> subscription list) \<Rightarrow> 'w \<Rightarrow> 'w \<times> (gerr + nat)" where
  "Send_topic env list_subs order w =
     (case list_subs w of
        Inl e \<Rightarrow> (w, Inl (Wrap ''webpush: list subscriptions: '' e []))
      | Inr subs \<Rightarrow> (case SendTo env subs (order subs) w of (w', n) \<Rightarrow> (w', Inr n)))"

subsection \<open>The goroutines of SendTo\<close>

text \<open>The loop of \<open>SendTo\<close> adds to the wait group, takes a slot of the semaphore (a channel of capacity
  \<open>limit\<close>) and starts a goroutine; the goroutine delivers, counts, and on its way out, after a panic
  too, recovers, gives its slot back and calls \<open>Done\<close>. Taking the slot and starting the goroutine are
  one step: nothing else of the loop is between them.\<close>

datatype go_pc = GStart | GRan bool | GPanicking | GRelease | GDone | GGone

datatype loop_pc = Looping | Slot subscription | Waiting | Returned nat

record 'w fan =
  fn_left :: "subscription list"
  fn_main :: loop_pc
  fn_wg :: nat
  fn_sem :: nat
  fn_goes :: "(subscription \<times> go_pc) list"
  fn_count :: nat
  fn_world :: 'w

definition fan_new :: "subscription list \<Rightarrow> 'w \<Rightarrow> 'w fan" where
  "fan_new subs w = \<lparr>fn_left = subs, fn_main = (if subs = [] then Returned 0 else Looping), fn_wg = 0, fn_sem = 0,
     fn_goes = [], fn_count = 0, fn_world = w\<rparr>"

definition loop_step :: "nat \<Rightarrow> 'w fan \<Rightarrow> 'w fan option" where
  "loop_step limit f =
     (case fn_main f of
        Looping \<Rightarrow>
          (case fn_left f of
             [] \<Rightarrow> Some (f\<lparr>fn_main := Waiting\<rparr>)
           | sub # subs \<Rightarrow> Some (f\<lparr>fn_left := subs, fn_wg := fn_wg f + 1, fn_main := Slot sub\<rparr>))
      | Slot sub \<Rightarrow>
          if fn_sem f < limit
          then Some (f\<lparr>fn_sem := fn_sem f + 1, fn_goes := fn_goes f @ [(sub, GStart)], fn_main := Looping\<rparr>)
          else None
      | Waiting \<Rightarrow> if fn_wg f = 0 then Some (f\<lparr>fn_main := Returned (fn_count f)\<rparr>) else None
      | Returned n \<Rightarrow> None)"

definition go_to :: "nat \<Rightarrow> go_pc \<Rightarrow> 'w fan \<Rightarrow> 'w fan" where
  "go_to i x f = f\<lparr>fn_goes := (fn_goes f)[i := (fst (fn_goes f ! i), x)]\<rparr>"

definition go_step :: "'w push_env \<Rightarrow> nat \<Rightarrow> 'w fan \<Rightarrow> 'w fan option" where
  "go_step env i f =
     (if length (fn_goes f) \<le> i then None
      else let (sub, x) = fn_goes f ! i in
        case x of
          GStart \<Rightarrow>
            (case deliver env sub (fn_world f) of
               (w', _, ok) \<Rightarrow>
                 Some (go_to i (if pe_send env sub = PushPanics then GPanicking else GRan ok) (f\<lparr>fn_world := w'\<rparr>)))
        | GRan ok \<Rightarrow> Some (go_to i GRelease (if ok then f\<lparr>fn_count := fn_count f + 1\<rparr> else f))
        | GPanicking \<Rightarrow> Some (go_to i GRelease f)
        | GRelease \<Rightarrow> if fn_sem f = 0 then None else Some (go_to i GDone (f\<lparr>fn_sem := fn_sem f - 1\<rparr>))
        | GDone \<Rightarrow> if fn_wg f = 0 then None else Some (go_to i GGone (f\<lparr>fn_wg := fn_wg f - 1\<rparr>))
        | GGone \<Rightarrow> None)"

datatype fan_mover = Loop | Deliverer nat

fun fan_act :: "'w push_env \<Rightarrow> nat \<Rightarrow> fan_mover \<Rightarrow> 'w fan \<Rightarrow> 'w fan option" where
  "fan_act env limit Loop f = loop_step limit f"
| "fan_act env limit (Deliverer i) f = go_step env i f"

fun fan_run :: "'w push_env \<Rightarrow> nat \<Rightarrow> fan_mover list \<Rightarrow> 'w fan \<Rightarrow> 'w fan option" where
  "fan_run env limit [] f = Some f"
| "fan_run env limit (a # as) f =
     (case fan_act env limit a f of None \<Rightarrow> None | Some f' \<Rightarrow> fan_run env limit as f')"

text \<open>A delivery is in flight from the moment its goroutine has a slot until it gives it back.\<close>

definition holds_slot :: "subscription \<times> go_pc \<Rightarrow> bool" where
  "holds_slot g \<longleftrightarrow> snd g \<noteq> GDone \<and> snd g \<noteq> GGone"

definition in_flight :: "'w fan \<Rightarrow> nat" where
  "in_flight f = length (filter holds_slot (fn_goes f))"

section \<open>Lemmas\<close>

definition expired :: "push_out \<Rightarrow> bool" where
  "expired r = (case r of Answered st _ \<Rightarrow> st = 410 \<or> st = 404 | _ \<Rightarrow> False)"

definition taken :: "push_out \<Rightarrow> bool" where
  "taken r = (case r of Answered st _ \<Rightarrow> 200 \<le> st \<and> st < 300 | _ \<Rightarrow> False)"

lemma deliver_eq:
  "fst (deliver env sub w) = (if expired (pe_send env sub) then fst (pe_delete env (sb_Endpoint sub) w) else w)"
  "snd (snd (deliver env sub w)) = taken (pe_send env sub)"
  by (auto simp: deliver_def expired_def taken_def Let_def split: push_out.split prod.split option.split)

lemma deliver_all_eq:
  "deliver_all env subs w n =
     (fold (\<lambda>sub w. fst (pe_delete env (sb_Endpoint sub) w)) (filter (\<lambda>sub. expired (pe_send env sub)) subs) w,
      n + length (filter (\<lambda>sub. taken (pe_send env sub)) subs))"
proof (induction subs arbitrary: w n)
  case (Cons sub subs)
  obtain w' ls ok where d: "deliver env sub w = (w', ls, ok)" by (cases "deliver env sub w")
  with deliver_eq [of env sub w] Cons show ?case by simp
qed simp

lemma deliver_all_snoc:
  "deliver_all env (subs @ [sub]) w n =
     (case deliver_all env subs w n of (w', m) \<Rightarrow> case deliver env sub w' of (w'', _, ok) \<Rightarrow> (w'', if ok then m + 1 else m))"
  by (induction env subs w n rule: deliver_all.induct) (auto split: prod.splits)

subsection \<open>The fan-out\<close>

abbreviation out_of_loop :: "loop_pc \<Rightarrow> subscription list" where
  "out_of_loop m \<equiv> (case m of Slot sub \<Rightarrow> [sub] | _ \<Rightarrow> [])"

definition delivered :: "'w push_env \<Rightarrow> 'w \<Rightarrow> 'w fan \<Rightarrow> bool" where
  "delivered env w f \<longleftrightarrow> (\<exists>order. mset order = mset (map fst (filter (\<lambda>g. snd g \<noteq> GStart) (fn_goes f))) \<and>
     deliver_all env order w 0 = (fn_world f, fn_count f + length (filter (\<lambda>g. snd g = GRan True) (fn_goes f))))"

definition fan_ok :: "'w push_env \<Rightarrow> nat \<Rightarrow> subscription list \<Rightarrow> 'w \<Rightarrow> 'w fan \<Rightarrow> bool" where
  "fan_ok env limit subs w f \<longleftrightarrow>
     fn_sem f = in_flight f \<and> in_flight f \<le> limit \<and>
     fn_wg f = length (filter (\<lambda>g. snd g \<noteq> GGone) (fn_goes f)) + length (out_of_loop (fn_main f)) \<and>
     mset (fn_left f) + mset (out_of_loop (fn_main f)) + mset (map fst (fn_goes f)) = mset subs \<and>
     (fn_main f = Waiting \<or> (\<exists>n. fn_main f = Returned n) \<longrightarrow> fn_left f = []) \<and>
     (\<forall>n. fn_main f = Returned n \<longrightarrow> fn_wg f = 0 \<and> n = fn_count f) \<and> delivered env w f"

lemma fan_new_ok: "fan_ok env limit subs w (fan_new subs w)"
  by (simp add: fan_ok_def fan_new_def in_flight_def delivered_def)

lemma loop_step_ok:
  assumes "fan_ok env limit subs w f" and "loop_step limit f = Some f'"
  shows "fan_ok env limit subs w f'"
  using assms
  by (auto simp: fan_ok_def loop_step_def in_flight_def holds_slot_def delivered_def
      split: loop_pc.splits list.splits if_splits)

text \<open>A step of a goroutine changes its own entry.\<close>

lemma go_stepE:
  assumes "go_step env i f = Some f'"
  obtains as sub x bs y where "fn_goes f = as @ (sub, x) # bs" "fn_goes f' = as @ (sub, y) # bs"
    "fn_main f' = fn_main f" "fn_left f' = fn_left f"
    "x = GStart \<and> fn_world f' = fst (deliver env sub (fn_world f)) \<and> fn_count f' = fn_count f \<and> fn_sem f' = fn_sem f \<and>
       fn_wg f' = fn_wg f \<and> y = (if pe_send env sub = PushPanics then GPanicking else GRan (snd (snd (deliver env sub (fn_world f))))) \<or>
     fn_world f' = fn_world f \<and>
       ((\<exists>ok. x = GRan ok \<and> fn_count f' = (if ok then fn_count f + 1 else fn_count f)) \<or> x = GPanicking \<and> fn_count f' = fn_count f) \<and>
       y = GRelease \<and> fn_sem f' = fn_sem f \<and> fn_wg f' = fn_wg f \<or>
     fn_world f' = fn_world f \<and> x = GRelease \<and> y = GDone \<and> fn_sem f = Suc (fn_sem f') \<and> fn_wg f' = fn_wg f \<and> fn_count f' = fn_count f \<or>
     fn_world f' = fn_world f \<and> x = GDone \<and> y = GGone \<and> fn_sem f' = fn_sem f \<and> fn_wg f = Suc (fn_wg f') \<and> fn_count f' = fn_count f"
proof -
  have i: "i < length (fn_goes f)" using assms by (simp add: go_step_def split: if_splits)
  obtain sub x where g: "fn_goes f ! i = (sub, x)" by fastforce
  define as bs where "as = take i (fn_goes f)" and "bs = drop (Suc i) (fn_goes f)"
  have e: "fn_goes f = as @ (sub, x) # bs" using id_take_nth_drop [OF i] g by (simp add: as_def bs_def)
  have u: "(fn_goes f)[i := (sub, y)] = as @ (sub, y) # bs" for y
    using upd_conv_take_nth_drop [OF i] by (simp add: as_def bs_def)
  have goes: "fn_goes (go_to i y f0) = as @ (sub, y) # bs" if "fn_goes f0 = fn_goes f" for y and f0 :: "'a fan"
    using that by (simp add: go_to_def g u)
  have rest: "fn_main (go_to i y f0) = fn_main f0" "fn_left (go_to i y f0) = fn_left f0" "fn_world (go_to i y f0) = fn_world f0"
    "fn_count (go_to i y f0) = fn_count f0" "fn_sem (go_to i y f0) = fn_sem f0" "fn_wg (go_to i y f0) = fn_wg f0" for y and f0 :: "'a fan"
    by (simp_all add: go_to_def)
  show ?thesis
  proof (cases x)
    case GStart
    obtain w1 ls b where dl: "deliver env sub (fn_world f) = (w1, ls, b)" by (cases "deliver env sub (fn_world f)")
    have "f' = go_to i (if pe_send env sub = PushPanics then GPanicking else GRan b) (f\<lparr>fn_world := w1\<rparr>)"
      using assms i g GStart by (simp add: go_step_def dl)
    then show ?thesis
      by (intro that [OF e, of "if pe_send env sub = PushPanics then GPanicking else GRan b"]) (simp_all add: goes rest dl GStart)
  next
    case (GRan ok)
    then have "f' = go_to i GRelease (if ok then f\<lparr>fn_count := fn_count f + 1\<rparr> else f)"
      using assms i g by (simp add: go_step_def)
    then show ?thesis by (intro that [OF e, of GRelease]) (simp_all add: goes rest GRan)
  next
    case GPanicking
    then have "f' = go_to i GRelease f" using assms i g by (simp add: go_step_def)
    then show ?thesis by (intro that [OF e, of GRelease]) (simp_all add: goes rest GPanicking)
  next
    case GRelease
    then have "f' = go_to i GDone (f\<lparr>fn_sem := fn_sem f - 1\<rparr>)" "fn_sem f \<noteq> 0"
      using assms i g by (simp_all add: go_step_def split: if_splits)
    then show ?thesis by (intro that [OF e, of GDone]) (simp_all add: goes rest GRelease)
  next
    case GDone
    then have "f' = go_to i GGone (f\<lparr>fn_wg := fn_wg f - 1\<rparr>)" "fn_wg f \<noteq> 0"
      using assms i g by (simp_all add: go_step_def split: if_splits)
    then show ?thesis by (intro that [OF e, of GGone]) (simp_all add: goes rest GDone)
  next
    case GGone
    with assms i g show ?thesis by (simp add: go_step_def)
  qed
qed

lemma go_step_ok:
  assumes ok: "fan_ok env limit subs w f" and step: "go_step env i f = Some f'"
  shows "fan_ok env limit subs w f'"
  using step
proof (rule go_stepE)
  fix as sub x bs y
  assume g: "fn_goes f = as @ (sub, x) # bs" "fn_goes f' = as @ (sub, y) # bs" "fn_main f' = fn_main f" "fn_left f' = fn_left f"
    and cs: "x = GStart \<and> fn_world f' = fst (deliver env sub (fn_world f)) \<and> fn_count f' = fn_count f \<and> fn_sem f' = fn_sem f \<and>
       fn_wg f' = fn_wg f \<and> y = (if pe_send env sub = PushPanics then GPanicking else GRan (snd (snd (deliver env sub (fn_world f))))) \<or>
     fn_world f' = fn_world f \<and>
       ((\<exists>ok. x = GRan ok \<and> fn_count f' = (if ok then fn_count f + 1 else fn_count f)) \<or> x = GPanicking \<and> fn_count f' = fn_count f) \<and>
       y = GRelease \<and> fn_sem f' = fn_sem f \<and> fn_wg f' = fn_wg f \<or>
     fn_world f' = fn_world f \<and> x = GRelease \<and> y = GDone \<and> fn_sem f = Suc (fn_sem f') \<and> fn_wg f' = fn_wg f \<and> fn_count f' = fn_count f \<or>
     fn_world f' = fn_world f \<and> x = GDone \<and> y = GGone \<and> fn_sem f' = fn_sem f \<and> fn_wg f = Suc (fn_wg f') \<and> fn_count f' = fn_count f"
      (is "?deliver \<or> ?count \<or> ?release \<or> ?done")
  from ok obtain order where order: "mset order = mset (map fst (filter (\<lambda>g. snd g \<noteq> GStart) (fn_goes f)))"
      "deliver_all env order w 0 = (fn_world f, fn_count f + length (filter (\<lambda>g. snd g = GRan True) (fn_goes f)))"
    by (auto simp: fan_ok_def delivered_def)
  have "delivered env w f'"
    using cs
  proof (elim disjE)
    assume d: ?deliver
    obtain w1 ls b where dl: "deliver env sub (fn_world f) = (w1, ls, b)" by (cases "deliver env sub (fn_world f)")
    have "b = False" if "pe_send env sub = PushPanics" using dl that by (simp add: deliver_def Let_def)
    then show ?thesis unfolding delivered_def
      using d order by (intro exI [of _ "order @ [sub]"]) (auto simp: g deliver_all_snoc dl)
  qed (unfold delivered_def, (rule exI [of _ order], use order in \<open>auto simp: g split: if_splits\<close>)+)
  moreover have "y \<noteq> GStart" using cs by (auto split: if_splits)
  ultimately show "fan_ok env limit subs w f'"
    using ok cs by (auto simp: fan_ok_def g in_flight_def holds_slot_def split: if_splits)
qed

lemma fan_act_ok: "fan_ok env limit subs w f \<Longrightarrow> fan_act env limit a f = Some f' \<Longrightarrow> fan_ok env limit subs w f'"
  by (cases a) (auto intro: loop_step_ok go_step_ok)

lemma fan_run_ok: "fan_run env limit as f = Some f' \<Longrightarrow> fan_ok env limit subs w f \<Longrightarrow> fan_ok env limit subs w f'"
  by (induction as arbitrary: f) (auto split: option.splits intro: fan_act_ok)

text \<open>A goroutine that has something left to do can do it, and so can the loop or a goroutine.\<close>

lemma go_enabled:
  assumes "fan_ok env limit subs w f" and "g \<in> set (fn_goes f)" and "snd g \<noteq> GGone"
  shows "\<exists>i f'. go_step env i f = Some f'"
proof -
  obtain i sub x where i: "i < length (fn_goes f)" "fn_goes f ! i = (sub, x)" "x \<noteq> GGone"
    using assms(2,3) by (metis in_set_conv_nth prod.collapse)
  have in_g: "(sub, x) \<in> set (fn_goes f)" using i by (metis nth_mem)
  have "0 < fn_sem f" if "x = GRelease"
  proof -
    have "(sub, x) \<in> set (filter holds_slot (fn_goes f))" using in_g that by (simp add: holds_slot_def)
    from length_pos_if_in_set [OF this] assms(1) show ?thesis by (simp add: fan_ok_def in_flight_def)
  qed
  moreover have "0 < fn_wg f"
  proof -
    have "(sub, x) \<in> set (filter (\<lambda>g. snd g \<noteq> GGone) (fn_goes f))" using in_g i(3) by simp
    from length_pos_if_in_set [OF this] assms(1) show ?thesis by (simp add: fan_ok_def)
  qed
  ultimately have "go_step env i f \<noteq> None"
    using i by (cases x) (auto simp: go_step_def split: prod.split)
  then show ?thesis by auto
qed

lemma fan_progress:
  assumes ok: "fan_ok env limit subs w f" and "0 < limit" and "\<And>n. fn_main f \<noteq> Returned n"
  shows "\<exists>a f'. fan_act env limit a f = Some f'"
proof (cases "loop_step limit f")
  case None
  then have "fn_main f = Waiting \<and> fn_wg f \<noteq> 0 \<or> (\<exists>sub. fn_main f = Slot sub) \<and> limit \<le> fn_sem f"
    using assms(3) by (auto simp: loop_step_def split: loop_pc.splits list.splits if_splits)
  then have "\<exists>g\<in>set (fn_goes f). snd g \<noteq> GGone"
  proof (elim disjE conjE)
    assume "fn_main f = Waiting" "fn_wg f \<noteq> 0"
    with ok have "filter (\<lambda>g. snd g \<noteq> GGone) (fn_goes f) \<noteq> []" by (auto simp: fan_ok_def)
    then show ?thesis by (simp add: filter_empty_conv)
  next
    assume "limit \<le> fn_sem f"
    with ok assms(2) have "filter holds_slot (fn_goes f) \<noteq> []" by (auto simp: fan_ok_def in_flight_def)
    then show ?thesis by (auto simp: filter_empty_conv holds_slot_def)
  qed
  then obtain i f' where "go_step env i f = Some f'" using go_enabled [OF ok] by blast
  then show ?thesis by (intro exI [of _ "Deliverer i"] exI [of _ f']) simp
next
  case (Some f')
  then show ?thesis by (intro exI [of _ Loop] exI [of _ f']) simp
qed

text \<open>Every step lowers what is left to do by one.\<close>

fun go_todo :: "go_pc \<Rightarrow> nat" where
  "go_todo GStart = 4" | "go_todo (GRan ok) = 3" | "go_todo GPanicking = 3"
| "go_todo GRelease = 2" | "go_todo GDone = 1" | "go_todo GGone = 0"

fun loop_todo :: "loop_pc \<Rightarrow> nat" where
  "loop_todo Looping = 2" | "loop_todo (Slot sub) = 7" | "loop_todo Waiting = 1" | "loop_todo (Returned n) = 0"

definition fan_todo :: "'w fan \<Rightarrow> nat" where
  "fan_todo f = 6 * length (fn_left f) + loop_todo (fn_main f) + sum_list (map (go_todo \<circ> snd) (fn_goes f))"

lemma fan_act_todo: "fan_act env limit a f = Some f' \<Longrightarrow> fan_todo f = Suc (fan_todo f')"
proof (cases a)
  case Loop
  assume "fan_act env limit a f = Some f'"
  with Loop show ?thesis by (auto simp: loop_step_def fan_todo_def split: loop_pc.splits list.splits if_splits)
next
  case (Deliverer i)
  assume "fan_act env limit a f = Some f'"
  with Deliverer have "go_step env i f = Some f'" by simp
  then show ?thesis by (rule go_stepE) (auto simp: fan_todo_def split: if_splits)
qed

lemma fan_run_todo: "fan_run env limit as f = Some f' \<Longrightarrow> fan_todo f = length as + fan_todo f'"
proof (induction as arbitrary: f)
  case (Cons a as)
  then obtain f1 where "fan_act env limit a f = Some f1" "fan_run env limit as f1 = Some f'" by (auto split: option.splits)
  with Cons.IH fan_act_todo show ?case by fastforce
qed simp

lemma fan_returned:
  assumes "fan_ok env limit subs w f" and "fn_main f = Returned n"
  shows "(\<forall>g\<in>set (fn_goes f). snd g = GGone) \<and>
    (\<exists>order. mset order = mset subs \<and> SendTo env subs order w = (fn_world f, n))"
proof -
  have "fn_wg f = length (filter (\<lambda>g. snd g \<noteq> GGone) (fn_goes f)) + length (out_of_loop (fn_main f))"
    using assms(1) unfolding fan_ok_def by blast
  moreover have "fn_wg f = 0" using assms unfolding fan_ok_def by blast
  ultimately have "length (filter (\<lambda>g. snd g \<noteq> GGone) (fn_goes f)) = 0" by linarith
  then have gone: "\<forall>g\<in>set (fn_goes f). snd g = GGone" by (simp add: filter_empty_conv)
  obtain order where order: "mset order = mset (map fst (filter (\<lambda>g. snd g \<noteq> GStart) (fn_goes f)))"
      "deliver_all env order w 0 = (fn_world f, fn_count f + length (filter (\<lambda>g. snd g = GRan True) (fn_goes f)))"
    using assms(1) by (auto simp: fan_ok_def delivered_def)
  have "filter (\<lambda>g. snd g \<noteq> GStart) (fn_goes f) = fn_goes f" "filter (\<lambda>g. snd g = GRan True) (fn_goes f) = []"
    using gone by (auto simp: filter_id_conv filter_empty_conv)
  with order assms have "mset order = mset subs" "deliver_all env order w 0 = (fn_world f, n)"
    by (auto simp: fan_ok_def)
  then have "SendTo env subs order w = (fn_world f, n)" by (auto simp: SendTo_def)
  with gone \<open>mset order = mset subs\<close> show ?thesis by blast
qed

text \<open>A subject that is an address with a display name is accepted and kept whole, where the library
  then prepends "mailto:" to it.\<close>

lemma subject_display_name:
  "NormalizeSubject (\<lambda>s. if s = ''Ops <ops@example.com>'' then Some ''ops@example.com'' else None) (\<lambda>_. None) (\<lambda>s. s)
     ''mailto:Ops <ops@example.com>'' = Inr ''Ops <ops@example.com>''"
  by code_simp

section \<open>Properties\<close>

text \<open>
  A pair of keys is accepted exactly when both halves decode to 65 and 32 bytes and the public one
  is the encoding of the point of the private one, so a generated pair always is, and a pair with
  another public key never.
\<close>

theorem keys_valid:
  assumes "pc_generate ec = Inr priv" and "length priv = 32" and "pc_public ec priv = Some pub" and "length pub = 65"
  shows "(\<exists>k. GenerateKeys ec = Inr k \<and> Validate ec k = None \<and> b64url_decode (ky_Private k) = Some priv) \<and>
    (Validate ec k = None \<longleftrightarrow>
       (\<exists>raw point. b64url_decode (ky_Private k) = Some raw \<and> length raw = 32 \<and> pc_public ec raw = Some point \<and>
          ky_Public k = b64url point \<and> length point = 65))"
proof -
  have "Validate ec k = None \<longleftrightarrow>
       (\<exists>raw point. b64url_decode (ky_Private k) = Some raw \<and> length raw = 32 \<and> pc_public ec raw = Some point \<and>
          ky_Public k = b64url point \<and> length point = 65)"
  proof -
    have dec: "b64url_decode (ky_Public k) = Some point" if "b64url point = ky_Public k" for point
      unfolding that [symmetric] by (rule b64url_decode_encode)
    show ?thesis
      by (auto simp: Validate_def publicKeyLen_def privateKeyLen_def split: option.splits dest: dec dec [OF sym])
  qed
  then show ?thesis
    using assms by (auto simp: GenerateKeys_def Validate_def publicKeyLen_def privateKeyLen_def b64url_decode_encode)
qed

theorem keys_valid_witness:
  "\<exists>k. GenerateKeys \<lparr>pc_generate = Inr (replicate 32 CHR ''k''), pc_public = \<lambda>raw. Some (CHR 0x04 # raw @ raw)\<rparr> = Inr k \<and>
     Validate \<lparr>pc_generate = Inr (replicate 32 CHR ''k''), pc_public = \<lambda>raw. Some (CHR 0x04 # raw @ raw)\<rparr> k = None"
  using keys_valid [of "\<lparr>pc_generate = Inr (replicate 32 CHR ''k''), pc_public = \<lambda>raw. Some (CHR 0x04 # raw @ raw)\<rparr>"
      "replicate 32 CHR ''k''" "CHR 0x04 # replicate 32 CHR ''k'' @ replicate 32 CHR ''k''"]
  by (simp del: ex_simps) blast

text \<open>
  C32: in whatever order the deliveries end, the count is the number of subscriptions whose push
  service answered 2xx, exactly those answered 404 or 410 are deleted, each once, and no other
  failure, panics included, deletes one, stops the rest or becomes an error of the call.
\<close>

theorem send_exact:
  assumes "list_subs w = Inr subs" and "mset (order subs) = mset subs"
  shows "Send_topic env list_subs order w =
    (fold (\<lambda>sub w. fst (pe_delete env (sb_Endpoint sub) w)) (filter (\<lambda>sub. expired (pe_send env sub)) (order subs)) w,
     Inr (length (filter (\<lambda>sub. taken (pe_send env sub)) subs)))"
proof -
  have "length (filter P (order subs)) = length (filter P subs)" for P
    using assms(2) by (metis mset_filter size_mset)
  moreover have "subs = [] \<Longrightarrow> order subs = []" using assms(2) by simp
  ultimately show ?thesis using assms(1) by (simp add: Send_topic_def SendTo_def deliver_all_eq)
qed

theorem send_exact_witness:
  "let sub = (\<lambda>e. \<lparr>sb_Endpoint = e, sb_Auth = [], sb_P256DH = []\<rparr>);
       env = \<lparr>pe_send = (\<lambda>s. if sb_Endpoint s = ''gone'' then Answered 410 [] else if sb_Endpoint s = ''busy'' then Answered 403 []
                else if sb_Endpoint s = ''bad'' then PushPanics else Answered 201 []),
              pe_delete = (\<lambda>e w. (filter (\<lambda>x. x \<noteq> e) w, None)), pe_parse = (\<lambda>_. None)\<rparr>
   in Send_topic env (\<lambda>w. Inr (map sub w)) rev [''ok'', ''gone'', ''busy'', ''bad''] = ([''ok'', ''busy'', ''bad''], Inr 1)"
proof -
  let ?sub = "\<lambda>e. \<lparr>sb_Endpoint = e, sb_Auth = [], sb_P256DH = []\<rparr>"
  let ?env = "\<lparr>pe_send = (\<lambda>s. if sb_Endpoint s = ''gone'' then Answered 410 [] else if sb_Endpoint s = ''busy'' then Answered 403 []
                else if sb_Endpoint s = ''bad'' then PushPanics else Answered 201 []),
              pe_delete = (\<lambda>e w. (filter (\<lambda>x. x \<noteq> e) w, None)), pe_parse = (\<lambda>_. None)\<rparr>"
  show ?thesis
    using send_exact [of "\<lambda>w. Inr (map ?sub w)" "[''ok'', ''gone'', ''busy'', ''bad'']" "map ?sub [''ok'', ''gone'', ''busy'', ''bad'']" rev ?env]
    by (simp add: Let_def expired_def taken_def)
qed

text \<open>
  C33: the fan-out of a Sender made by New, whichever way its loop, its goroutines and their panics
  interleave. Never are more deliveries in flight than the Concurrency given, 8 when none was; it
  cannot deadlock: until SendTo has returned some goroutine of it can take a step; it takes at most
  six steps per subscription and two more; and when it returns every goroutine it started is gone and
  the count and what was deleted are those of \<open>SendTo\<close> for the order in which the deliveries ran.
\<close>

theorem fan_out_ends:
  assumes "New_sender ec address parse q k opts = Inr s"
    and "fan_run env (nat (sd_limit s)) as (fan_new subs w) = Some f"
  shows "int (in_flight f) \<le> (if po_Concurrency opts \<le> 0 then 8 else po_Concurrency opts) \<and>
    (\<forall>n. fn_main f = Returned n \<longrightarrow> (\<forall>g\<in>set (fn_goes f). snd g = GGone) \<and>
       (\<exists>order. mset order = mset subs \<and> SendTo env subs order w = (fn_world f, n))) \<and>
    ((\<exists>n. fn_main f = Returned n) \<or> (\<exists>a f'. fan_act env (nat (sd_limit s)) a f = Some f')) \<and>
    length as \<le> 6 * length subs + 2"
proof -
  have lim: "sd_limit s = (if po_Concurrency opts \<le> 0 then 8 else po_Concurrency opts)"
    using assms(1) by (auto simp: New_sender_def DefaultConcurrency_def split: option.splits sum.splits)
  note ok = fan_run_ok [OF assms(2) fan_new_ok]
  have "int (in_flight f) \<le> sd_limit s" using ok lim by (auto simp: fan_ok_def split: if_splits)
  moreover have "0 < nat (sd_limit s)" using lim by simp
  moreover have "fan_todo (fan_new subs w) \<le> 6 * length subs + 2" by (simp add: fan_todo_def fan_new_def)
  with fan_run_todo [OF assms(2)] have "length as \<le> 6 * length subs + 2" by simp
  moreover have "(\<exists>n. fn_main f = Returned n) \<or> (\<exists>a f'. fan_act env (nat (sd_limit s)) a f = Some f')"
    using fan_progress [OF ok calculation(2)] by blast
  ultimately show ?thesis using fan_returned [OF ok] unfolding lim [symmetric] by blast
qed

definition demo_push :: "string list push_env" where
  "demo_push = \<lparr>pe_send = (\<lambda>s. if sb_Endpoint s = ''bad'' then PushPanics else Answered 201 []),
     pe_delete = (\<lambda>e w. (filter (\<lambda>x. x \<noteq> e) w, None)), pe_parse = (\<lambda>_. None)\<rparr>"

definition demo_subs :: "subscription list" where
  "demo_subs = map (\<lambda>e. \<lparr>sb_Endpoint = e, sb_Auth = [], sb_P256DH = []\<rparr>) [''bad'', ''ok'']"

text \<open>With one slot the second delivery waits until the panicking one has given it back.\<close>

definition demo_ec :: p256 where
  "demo_ec = \<lparr>pc_generate = Inr (replicate 32 CHR ''k''), pc_public = \<lambda>raw. Some (CHR 0x04 # raw @ raw)\<rparr>"

definition demo_options :: push_options where
  "demo_options = \<lparr>po_Subject = ''ops@x.org'', po_TTL = 0, po_Concurrency = 1, po_Timeout = 0\<rparr>"

definition demo_acts :: "fan_mover list" where
  "demo_acts = [Loop, Loop, Loop, Deliverer 0, Deliverer 0, Deliverer 0, Loop]"

lemma demo_sender: "\<exists>k s. New_sender demo_ec Some (\<lambda>_. None) (\<lambda>s. s) k demo_options = Inr s \<and> sd_limit s = 1"
proof -
  have "\<exists>k. Validate demo_ec k = None"
    using keys_valid [of demo_ec "replicate 32 CHR ''k''" "CHR 0x04 # replicate 32 CHR ''k'' @ replicate 32 CHR ''k''"]
    by (simp add: demo_ec_def del: ex_simps) blast
  then obtain k where k: "Validate demo_ec k = None" by blast
  have "NormalizeSubject Some (\<lambda>_. None) (\<lambda>s. s) ''ops@x.org'' = Inr ''ops@x.org''" by code_simp
  with k show ?thesis by (intro exI [of _ k]) (simp add: New_sender_def demo_options_def)
qed

lemma demo_fan:
  "map_option fn_main (fan_run demo_push 1 demo_acts (fan_new demo_subs [])) = Some Looping"
  by (simp add: demo_acts_def demo_push_def demo_subs_def fan_new_def loop_step_def go_step_def go_to_def deliver_def Let_def)

theorem fan_out_ends_witness:
  "\<exists>k s f. New_sender demo_ec Some (\<lambda>_. None) (\<lambda>s. s) k demo_options = Inr s \<and>
     fan_run demo_push (nat (sd_limit s)) demo_acts (fan_new demo_subs []) = Some f \<and>
     int (in_flight f) \<le> 1 \<and> (\<exists>a f'. fan_act demo_push (nat (sd_limit s)) a f = Some f')"
proof -
  obtain k s where s: "New_sender demo_ec Some (\<lambda>_. None) (\<lambda>s. s) k demo_options = Inr s" and l: "sd_limit s = 1"
    using demo_sender by blast
  obtain f where f: "fan_run demo_push (nat (sd_limit s)) demo_acts (fan_new demo_subs []) = Some f" and m: "fn_main f = Looping"
    using demo_fan by (auto simp: l)
  note fan_out_ends [OF s f]
  then have "int (in_flight f) \<le> 1" "\<exists>a f'. fan_act demo_push (nat (sd_limit s)) a f = Some f'"
    using m by (simp_all add: demo_options_def)
  with s f show ?thesis by blast
qed

end
