(* ===== verification/SessionTable.thy ===== *)
theory SessionTable
  imports Session
begin

text \<open>
  The table of session/sqlite.go against two descriptions of it: the type of its rows, and the
  abstract store of session/session.go, a map from token hashes to sessions. Sequences of operations
  are those of the interpretation \<open>sqlite\<close>, errors of the driver included.
\<close>

section \<open>The type of the table\<close>

text \<open>A row that is the image of a session, and operations whose instants RFC 3339 can hold.\<close>

definition row_typed :: "(string list \<Rightarrow> string) \<Rightarrow> (string \<Rightarrow> string list option) \<Rightarrow> row \<Rightarrow> bool" where
  "row_typed enc dec r \<longleftrightarrow> (\<exists>s. good_session enc dec s \<and> r = row_of enc s (r_token_hash r))"

fun op_storable :: "(string list \<Rightarrow> string) \<Rightarrow> (string \<Rightarrow> string list option) \<Rightarrow> store_op \<Rightarrow> bool" where
  "op_storable enc dec (OpCreate f s h) \<longleftrightarrow> good_session enc dec s"
| "op_storable enc dec (OpTouch f i a b) \<longleftrightarrow> storable a \<and> storable b"
| "op_storable enc dec (OpSweep f now) \<longleftrightarrow> storable now"
| "op_storable enc dec op \<longleftrightarrow> True"

lemma touch_row_typed:
  assumes "row_typed enc dec r" "storable a" "storable b"
  shows "row_typed enc dec (touch_row i a b r)"
proof -
  obtain s where s: "good_session enc dec s" "r = row_of enc s (r_token_hash r)"
    using assms(1) by (auto simp: row_typed_def)
  let ?s = "s\<lparr>s_LastSeenAt := a, s_ExpiresAt := b\<rparr>"
  have "good_session enc dec ?s" using s(1) assms(2,3) by (simp add: good_session_def session_storable_def)
  moreover have "r\<lparr>r_last_seen_at := stamp a, r_expires_at := stamp b\<rparr> = row_of enc ?s (r_token_hash r)"
    by (subst s(2)) (simp add: row_of_def)
  ultimately have "row_typed enc dec (r\<lparr>r_last_seen_at := stamp a, r_expires_at := stamp b\<rparr>)"
    by (auto simp: row_typed_def)
  with assms(1) show ?thesis by (simp add: touch_row_def)
qed

lemma run_typed:
  assumes "op_storable enc dec op" "\<forall>r\<in>set rows. row_typed enc dec r"
  shows "\<forall>r\<in>set (sqlite.run enc uniq op rows). row_typed enc dec r"
proof (cases op)
  case (OpCreate f s h)
  then have "row_typed enc dec (row_of enc s h)" using assms(1) by (auto simp: row_typed_def)
  with assms(2) show ?thesis unfolding OpCreate sqlite.run.simps by (simp add: CreateSession_rows)
next
  case (OpTouch f i a b)
  then have "storable a" "storable b" using assms(1) by simp_all
  with assms(2) show ?thesis unfolding OpTouch sqlite.run.simps
    by (auto simp: TouchSession_rows intro: touch_row_typed)
next
  case (OpDelete f i)
  with assms(2) show ?thesis unfolding OpDelete sqlite.run.simps by (simp add: DeleteSession_rows)
next
  case (OpDeleteToken f h)
  with assms(2) show ?thesis unfolding OpDeleteToken sqlite.run.simps by (simp add: DeleteSessionByToken_rows)
next
  case (OpSweep f now)
  with assms(2) show ?thesis unfolding OpSweep sqlite.run.simps by (simp add: DeleteExpiredSessions_rows)
qed

lemma run_keys: "keys_ok rows \<Longrightarrow> keys_ok (sqlite.run enc uniq op rows)"
  by (cases op; simp only: sqlite.run.simps)
    (simp_all add: CreateSession_keys TouchSession_keys DeleteSession_rows DeleteSessionByToken_rows
      DeleteExpiredSessions_rows keys_ok_filter)

lemma runs_typed:
  assumes "list_all (op_storable enc dec) ops" "keys_ok rows" "\<forall>r\<in>set rows. row_typed enc dec r"
  shows "keys_ok (fold (sqlite.run enc uniq) ops rows) \<and>
    (\<forall>r\<in>set (fold (sqlite.run enc uniq) ops rows). row_typed enc dec r)"
  using assms
proof (induction ops arbitrary: rows)
  case (Cons op ops)
  have "keys_ok (sqlite.run enc uniq op rows)" by (rule run_keys [OF Cons.prems(2)])
  moreover have "\<forall>r\<in>set (sqlite.run enc uniq op rows). row_typed enc dec r"
    by (rule run_typed [OF _ Cons.prems(3)]) (use Cons.prems(1) in simp)
  ultimately show ?case using Cons.IH Cons.prems(1) by simp
qed simp

lemma row_typed_reads:
  assumes "row_typed enc dec r"
  obtains s where "session_storable s" "r = row_of enc s (r_token_hash r)" "scan dec r = stored s"
proof -
  obtain s where s: "good_session enc dec s" "r = row_of enc s (r_token_hash r)"
    using assms by (auto simp: row_typed_def)
  moreover have "scan dec (row_of enc s (r_token_hash r)) = stored s"
    by (rule scan_row_of) (use s(1) in \<open>simp_all add: good_session_def\<close>)
  ultimately show ?thesis using that [of s] by (simp add: good_session_def)
qed

lemma row_typed_wf:
  assumes "row_typed enc dec r"
  shows "row_wf r"
proof -
  obtain s where s: "session_storable s" "r = row_of enc s (r_token_hash r)"
    using row_typed_reads [OF assms] .
  have "r_expires_at r = stamp (s_ExpiresAt s)" by (subst s(2)) (simp add: row_of_def)
  with s(1) show ?thesis by (auto simp: row_wf_def session_storable_def)
qed

text \<open>
  C39: The type of the session table. Whatever sequence of operations has run on a table that was
  created empty, failing ones included, as long as the instants written fit RFC 3339 text and the
  groups written survive their codec: no two rows share an id or a token hash, every row is what one
  session is written as, and it reads back as that session, its instants cut to whole seconds. The
  fallback of the reader for a corrupt instant is never taken, and the table is one on which the
  sweep, which compares text, is exact.\<close>

theorem table_typed:
  assumes "list_all (op_storable enc dec) ops"
  shows "table_wf (fold (sqlite.run enc uniq) ops []) \<and>
    (\<forall>r\<in>set (fold (sqlite.run enc uniq) ops []).
       \<exists>s. session_storable s \<and> r = row_of enc s (r_token_hash r) \<and> scan dec r = stored s)"
proof -
  let ?table = "fold (sqlite.run enc uniq) ops []"
  have ok: "keys_ok ?table \<and> (\<forall>r\<in>set ?table. row_typed enc dec r)"
    by (rule runs_typed [OF assms]) (simp_all add: keys_ok_def)
  moreover have "\<exists>s. session_storable s \<and> r = row_of enc s (r_token_hash r) \<and> scan dec r = stored s"
    if "row_typed enc dec r" for r
    using row_typed_reads [OF that] by metis
  moreover have "row_typed enc dec r \<Longrightarrow> row_wf r" for r by (rule row_typed_wf)
  ultimately show ?thesis unfolding table_wf_def by blast
qed

theorem table_typed_witness:
  "table_wf (fold (sqlite.run (\<lambda>_. ''[]'') (Text ''unique''))
     [OpCreate None demo_session ''h'', OpTouch None ''1'' 5 (90 * second), OpDelete (Some (Text ''locked'')) ''1''] [])"
  using table_typed [of "\<lambda>_. ''[]''" "\<lambda>_. Some []"
      "[OpCreate None demo_session ''h'', OpTouch None ''1'' 5 (90 * second), OpDelete (Some (Text ''locked'')) ''1'']"
      "Text ''unique''"] demo_storable demo_now
  by (simp add: good_session_def demo_session_def storable_def year_10000_def second_def day_secs_def)

section \<open>The abstract store\<close>

type_synonym store = "string \<Rightarrow> session option"

text \<open>What an operation that the driver lets through does to the map; one that it fails does nothing.\<close>

definition touched :: "string \<Rightarrow> instant \<Rightarrow> instant \<Rightarrow> session \<Rightarrow> session" where
  "touched i a b s =
     (if s_ID s = i then s\<lparr>s_LastSeenAt := whole_seconds a, s_ExpiresAt := whole_seconds b\<rparr> else s)"

fun store_spec :: "store_op \<Rightarrow> store \<Rightarrow> store" where
  "store_spec (OpCreate None s h) m =
     (if h \<in> dom m \<or> (\<exists>t\<in>ran m. s_ID t = s_ID s) then m else m(h := Some (stored s)))"
| "store_spec (OpTouch None i a b) m = map_option (touched i a b) \<circ> m"
| "store_spec (OpDelete None i) m = (\<lambda>h. Option.bind (m h) (\<lambda>s. if s_ID s \<noteq> i then Some s else None))"
| "store_spec (OpDeleteToken None h) m = m(h := None)"
| "store_spec (OpSweep None now) m = (\<lambda>h. Option.bind (m h) (\<lambda>s. if now < s_ExpiresAt s then Some s else None))"
| "store_spec _ m = m"

text \<open>The map a table stands for.\<close>

definition abs_store :: "(string \<Rightarrow> string list option) \<Rightarrow> row list \<Rightarrow> store" where
  "abs_store dec rows h = lookup_row dec h rows"

lemma abs_store_find: "abs_store dec rows h = map_option (scan dec) (find (\<lambda>r. r_token_hash r = h) rows)"
  by (simp add: abs_store_def lookup_row_def)

lemma find_by_key:
  "distinct (map f xs) \<Longrightarrow> find (\<lambda>x. f x = k) xs = Some y \<longleftrightarrow> y \<in> set xs \<and> f y = k"
  by (induction xs) auto

lemma find_key_None: "find (\<lambda>x. f x = k) xs = None \<longleftrightarrow> k \<notin> f ` set xs"
  by (auto simp: find_None_iff)

lemma find_key_filter:
  assumes "distinct (map f xs)"
  shows "find (\<lambda>x. f x = k) (filter P xs) = Option.bind (find (\<lambda>x. f x = k) xs) (\<lambda>x. if P x then Some x else None)"
  using assms
proof (induction xs)
  case (Cons x xs)
  have "find (\<lambda>y. f y = k) xs = None" if "f x = k"
    using Cons.prems that by (auto simp: find_key_None)
  with Cons show ?case by auto
qed simp

lemma find_key_map:
  "(\<And>x. f (g x) = f x) \<Longrightarrow> find (\<lambda>x. f x = k) (map g xs) = map_option g (find (\<lambda>x. f x = k) xs)"
  by (rule find_map_same) simp

lemma dom_abs: "h \<in> dom (abs_store dec rows) \<longleftrightarrow> h \<in> r_token_hash ` set rows"
  by (simp add: dom_def abs_store_find) (metis find_key_None not_None_eq)

lemma ran_abs: "keys_ok rows \<Longrightarrow> ran (abs_store dec rows) = scan dec ` set rows"
  by (auto simp: ran_def abs_store_find keys_ok_def find_by_key)

lemma abs_filter:
  assumes "keys_ok rows" "\<And>r. r \<in> set rows \<Longrightarrow> P r = Q (scan dec r)"
  shows "abs_store dec (filter P rows) = (\<lambda>h. Option.bind (abs_store dec rows h) (\<lambda>s. if Q s then Some s else None))"
proof
  fix h
  have key: "distinct (map r_token_hash rows)" using assms(1) by (simp add: keys_ok_def)
  show "abs_store dec (filter P rows) h = Option.bind (abs_store dec rows h) (\<lambda>s. if Q s then Some s else None)"
  proof (cases "find (\<lambda>r. r_token_hash r = h) rows")
    case None
    then show ?thesis by (simp add: abs_store_find find_key_filter [OF key])
  next
    case (Some r)
    then have "P r = Q (scan dec r)" using assms(2) find_by_key [OF key] by blast
    with Some show ?thesis by (simp add: abs_store_find find_key_filter [OF key])
  qed
qed

lemma scan_touch_row:
  "storable a \<Longrightarrow> storable b \<Longrightarrow> scan dec (touch_row i a b r) = touched i a b (scan dec r)"
  by (simp add: touch_row_def touched_def scan_def)

lemma ids_abs: "keys_ok rows \<Longrightarrow> (\<exists>t\<in>ran (abs_store dec rows). s_ID t = i) \<longleftrightarrow> i \<in> r_id ` set rows"
  by (auto simp: ran_abs)

section \<open>Refinement\<close>

lemma run_refines:
  assumes "op_storable enc dec op" "keys_ok rows" "\<forall>r\<in>set rows. row_typed enc dec r"
  shows "abs_store dec (sqlite.run enc uniq op rows) = store_spec op (abs_store dec rows)"
proof (cases op)
  case (OpCreate f s h)
  have new: "abs_store dec (rows @ [row_of enc s h]) = (abs_store dec rows)(h := Some (stored s))"
    if "\<forall>r\<in>set rows. r_id r \<noteq> s_ID s \<and> r_token_hash r \<noteq> h"
  proof
    fix h'
    have "scan dec (row_of enc s h) = stored s"
      by (rule scan_row_of) (use assms(1) OpCreate in \<open>simp_all add: good_session_def\<close>)
    then show "abs_store dec (rows @ [row_of enc s h]) h' = ((abs_store dec rows)(h := Some (stored s))) h'"
      using that find_key_None [of r_token_hash h rows]
      by (auto simp: abs_store_find find_append image_iff split: option.split)
  qed
  have "(h \<in> dom (abs_store dec rows) \<or> (\<exists>t\<in>ran (abs_store dec rows). s_ID t = s_ID s)) \<longleftrightarrow>
      (\<exists>r\<in>set rows. r_id r = s_ID s \<or> r_token_hash r = h)"
    unfolding ids_abs [OF assms(2)] dom_abs image_iff by metis
  then show ?thesis unfolding OpCreate sqlite.run.simps
    by (cases f) (auto simp: CreateSession_rows new)
next
  case (OpTouch f i a b)
  have "abs_store dec (map (touch_row i a b) rows) = map_option (touched i a b) \<circ> abs_store dec rows"
    using assms(1) OpTouch
    by (simp add: fun_eq_iff abs_store_find find_key_map option.map_comp comp_def scan_touch_row)
  then show ?thesis unfolding OpTouch sqlite.run.simps by (cases f) (simp_all add: TouchSession_rows)
next
  case (OpDelete f i)
  have "abs_store dec (filter (\<lambda>r. r_id r \<noteq> i) rows) =
      (\<lambda>h. Option.bind (abs_store dec rows h) (\<lambda>s. if s_ID s \<noteq> i then Some s else None))"
    by (rule abs_filter [OF assms(2)]) simp
  then show ?thesis unfolding OpDelete sqlite.run.simps
    by (cases f) (simp_all add: DeleteSession_rows)
next
  case (OpDeleteToken f h)
  have key: "distinct (map r_token_hash rows)" using assms(2) by (simp add: keys_ok_def)
  have "abs_store dec (filter (\<lambda>r. r_token_hash r \<noteq> h) rows) = (abs_store dec rows)(h := None)"
  proof
    fix h'
    show "abs_store dec (filter (\<lambda>r. r_token_hash r \<noteq> h) rows) h' = ((abs_store dec rows)(h := None)) h'"
    proof (cases "find (\<lambda>r. r_token_hash r = h') rows")
      case None
      then show ?thesis by (simp add: abs_store_find find_key_filter [OF key])
    next
      case (Some r)
      then have "r_token_hash r = h'" using find_by_key [OF key] by blast
      with Some show ?thesis by (simp add: abs_store_find find_key_filter [OF key])
    qed
  qed
  then show ?thesis unfolding OpDeleteToken sqlite.run.simps by (cases f) (simp_all add: DeleteSessionByToken_rows)
next
  case (OpSweep f now)
  have "abs_store dec (filter (\<lambda>r. \<not> r_expires_at r \<le> stamp now) rows) =
      (\<lambda>h. Option.bind (abs_store dec rows h) (\<lambda>s. if now < s_ExpiresAt s then Some s else None))"
  proof (rule abs_filter [OF assms(2)])
    fix r assume "r \<in> set rows"
    then have "row_wf r" using assms(3) row_typed_wf by blast
    then show "(\<not> r_expires_at r \<le> stamp now) = (now < s_ExpiresAt (scan dec r))"
      using row_expired assms(1) OpSweep by (simp add: not_le [symmetric])
  qed
  then show ?thesis unfolding OpSweep sqlite.run.simps
    by (cases f) (simp_all add: DeleteExpiredSessions_rows)
qed

text \<open>
  C40: The store keeps what it promises. The table, with its columns of text, its comparisons of
  text and its driver that may fail any statement, implements the abstract store operation by
  operation: after any sequence from the empty table, as long as the instants fit RFC 3339 text and
  the groups written survive their codec, a token hash resolves to exactly the session the map of
  the specification has for it. There a creation adds the session unless its hash or its id is taken,
  a touch moves the two instants of one session, a deletion removes one, a sweep removes those that
  have expired, and a statement the driver fails does nothing.\<close>

theorem store_refines:
  assumes "list_all (op_storable enc dec) ops"
  shows "SessionByToken dec None h (fold (sqlite.run enc uniq) ops []) = Inr (fold store_spec ops (\<lambda>_. None) h)"
proof -
  have "abs_store dec (fold (sqlite.run enc uniq) ops rows) = fold store_spec ops (abs_store dec rows)"
    if "list_all (op_storable enc dec) ops" "keys_ok rows" "\<forall>r\<in>set rows. row_typed enc dec r" for rows
    using that
  proof (induction ops arbitrary: rows)
    case (Cons op ops)
    have "keys_ok (sqlite.run enc uniq op rows)" by (rule run_keys [OF Cons.prems(2)])
    moreover have "\<forall>r\<in>set (sqlite.run enc uniq op rows). row_typed enc dec r"
      by (rule run_typed [OF _ Cons.prems(3)]) (use Cons.prems(1) in simp)
    moreover have "abs_store dec (sqlite.run enc uniq op rows) = store_spec op (abs_store dec rows)"
      by (rule run_refines [OF _ Cons.prems(2,3)]) (use Cons.prems(1) in simp)
    ultimately show ?case using Cons.IH Cons.prems(1) by simp
  qed simp
  from this [of "[]"] assms have "abs_store dec (fold (sqlite.run enc uniq) ops []) h = fold store_spec ops (abs_store dec []) h"
    by (simp add: keys_ok_def)
  moreover have "abs_store dec [] = (\<lambda>_. None)" by (simp add: fun_eq_iff abs_store_def lookup_row_def)
  ultimately show ?thesis by (simp add: SessionByToken_lookup abs_store_def)
qed

theorem store_refines_witness:
  "SessionByToken (\<lambda>_. Some []) None ''h'' (fold (sqlite.run (\<lambda>_. ''[]'') (Text ''unique''))
     [OpCreate None demo_session ''h'', OpCreate None demo_session ''other'', OpDelete (Some (Text ''locked'')) ''1''] []) =
   Inr (Some (stored demo_session))"
  using store_refines [of "\<lambda>_. ''[]''" "\<lambda>_. Some []"
      "[OpCreate None demo_session ''h'', OpCreate None demo_session ''other'', OpDelete (Some (Text ''locked'')) ''1'']"
      "''h''" "Text ''unique''"] demo_storable
  by (simp add: good_session_def demo_session_def)

end
