(* ===== verification/Capset.thy ===== *)
theory Capset
  imports Prelude
begin

text \<open>
  capset/capset.go: a fixed list of components and the memo of which of them implement which
  capability.

  A capability is an interface type; \<open>impl k e\<close> is the type assertion of the component \<open>e\<close>
  to it, and its value is the component itself. The two memos are maps from the capability to
  the list and to the table of its implementors. A call of \<open>All\<close> or \<open>ByName\<close> is three steps,
  the read under the read lock, the scan without a lock and the store under the write lock, and
  any goroutine may run between two of them.
\<close>

record ('k, 'e) cset =
  cs_items :: "'e list"
  cs_name :: "('e \<Rightarrow> string) option"
  cs_lists :: "'k \<Rightarrow> 'e list option"
  cs_tables :: "'k \<Rightarrow> (string \<Rightarrow> 'e option) option"

definition New_set :: "'e list \<Rightarrow> ('e \<Rightarrow> string) option \<Rightarrow> ('k, 'e) cset" where
  "New_set items name =
     \<lparr>cs_items = items, cs_name = name, cs_lists = (\<lambda>_. None), cs_tables = (\<lambda>_. None)\<rparr>"

definition Items :: "('k, 'e) cset \<Rightarrow> 'e list" where
  "Items s = cs_items s"

definition Len_set :: "('k, 'e) cset \<Rightarrow> nat" where
  "Len_set s = length (cs_items s)"

section \<open>The three steps of a call\<close>

definition scan_list :: "('k \<Rightarrow> 'e \<Rightarrow> bool) \<Rightarrow> ('k, 'e) cset \<Rightarrow> 'k \<Rightarrow> 'e list" where
  "scan_list impl s k = foldl (\<lambda>out it. if impl k it then out @ [it] else out) [] (cs_items s)"

definition store_list :: "'k \<Rightarrow> 'e list \<Rightarrow> ('k, 'e) cset \<Rightarrow> ('k, 'e) cset" where
  "store_list k out s = s\<lparr>cs_lists := (cs_lists s)(k := Some out)\<rparr>"

definition scan_table ::
    "('k \<Rightarrow> 'e \<Rightarrow> bool) \<Rightarrow> ('k, 'e) cset \<Rightarrow> 'k \<Rightarrow> (string \<Rightarrow> 'e option) option" where
  "scan_table impl s k =
     (case cs_name s of
        None \<Rightarrow> None  \<comment> \<open>the panic\<close>
      | Some name \<Rightarrow>
          Some (foldl (\<lambda>out it. if impl k it then out(name it := Some it) else out)
                  (\<lambda>_. None) (cs_items s)))"

definition store_table ::
    "'k \<Rightarrow> (string \<Rightarrow> 'e option) \<Rightarrow> ('k, 'e) cset \<Rightarrow> ('k, 'e) cset" where
  "store_table k out s = s\<lparr>cs_tables := (cs_tables s)(k := Some out)\<rparr>"

section \<open>The calls\<close>

definition All_caps :: "('k \<Rightarrow> 'e \<Rightarrow> bool) \<Rightarrow> 'k \<Rightarrow> ('k, 'e) cset \<Rightarrow> ('k, 'e) cset \<times> 'e list" where
  "All_caps impl k s =
     (case cs_lists s k of
        Some cached \<Rightarrow> (s, cached)
      | None \<Rightarrow> (store_list k (scan_list impl s k) s, scan_list impl s k))"

text \<open>None is the panic of a set that has no name function.\<close>

definition ByName ::
    "('k \<Rightarrow> 'e \<Rightarrow> bool) \<Rightarrow> 'k \<Rightarrow> ('k, 'e) cset \<Rightarrow>
     (('k, 'e) cset \<times> (string \<Rightarrow> 'e option)) option" where
  "ByName impl k s =
     (case cs_tables s k of
        Some cached \<Rightarrow> Some (s, cached)
      | None \<Rightarrow>
          (case scan_table impl s k of
             None \<Rightarrow> None
           | Some out \<Rightarrow> Some (store_table k out s, out)))"

definition Of ::
    "('k \<Rightarrow> 'e \<Rightarrow> bool) \<Rightarrow> 'k \<Rightarrow> string \<Rightarrow> ('k, 'e) cset \<Rightarrow> (('k, 'e) cset \<times> 'e option) option" where
  "Of impl k name s = (case ByName impl k s of None \<Rightarrow> None | Some (s', t) \<Rightarrow> Some (s', t name))"

definition First :: "('k \<Rightarrow> 'e \<Rightarrow> bool) \<Rightarrow> 'k \<Rightarrow> ('k, 'e) cset \<Rightarrow> ('k, 'e) cset \<times> 'e option" where
  "First impl k s =
     (case All_caps impl k s of (s', list) \<Rightarrow> (s', if 0 < length list then Some (list ! 0) else None))"

definition Both :: "('k \<Rightarrow> 'e \<Rightarrow> bool) \<Rightarrow> 'k \<Rightarrow> 'k \<Rightarrow> ('k, 'e) cset \<Rightarrow> ('k, 'e) cset \<times> 'e list" where
  "Both impl c d s =
     (case All_caps impl c s of (s', list) \<Rightarrow>
        (s', foldl (\<lambda>out it. if impl d it then out @ [it] else out) [] list))"

definition Any :: "('k \<Rightarrow> 'e \<Rightarrow> bool) \<Rightarrow> 'k \<Rightarrow> ('k, 'e) cset \<Rightarrow> ('k, 'e) cset \<times> bool" where
  "Any impl k s = (case All_caps impl k s of (s', list) \<Rightarrow> (s', 0 < length list))"

section \<open>Many goroutines\<close>

datatype ('k, 'e) pc =
    Idle
  | ScanL 'k | StoreL 'k "'e list" | RetL 'k "'e list"
  | ScanT 'k | StoreT 'k "string \<Rightarrow> 'e option" | RetT 'k "string \<Rightarrow> 'e option" | PanicT 'k

inductive reachable ::
    "('k \<Rightarrow> 'e \<Rightarrow> bool) \<Rightarrow> 'e list \<Rightarrow> ('e \<Rightarrow> string) option \<Rightarrow>
     ('k, 'e) cset \<Rightarrow> (nat \<Rightarrow> ('k, 'e) pc) \<Rightarrow> bool"
  for impl items name where
  start: "reachable impl items name (New_set items name) (\<lambda>_. Idle)"
| list_hit: "reachable impl items name s p \<Longrightarrow> cs_lists s k = Some l \<Longrightarrow>
    reachable impl items name s (p(i := RetL k l))"
| list_miss: "reachable impl items name s p \<Longrightarrow> cs_lists s k = None \<Longrightarrow>
    reachable impl items name s (p(i := ScanL k))"
| list_scan: "reachable impl items name s p \<Longrightarrow> p i = ScanL k \<Longrightarrow>
    reachable impl items name s (p(i := StoreL k (scan_list impl s k)))"
| list_store: "reachable impl items name s p \<Longrightarrow> p i = StoreL k l \<Longrightarrow>
    reachable impl items name (store_list k l s) (p(i := RetL k l))"
| table_hit: "reachable impl items name s p \<Longrightarrow> cs_tables s k = Some t \<Longrightarrow>
    reachable impl items name s (p(i := RetT k t))"
| table_miss: "reachable impl items name s p \<Longrightarrow> cs_tables s k = None \<Longrightarrow>
    reachable impl items name s (p(i := ScanT k))"
| table_scan: "reachable impl items name s p \<Longrightarrow> p i = ScanT k \<Longrightarrow>
    reachable impl items name s
      (p(i := (case scan_table impl s k of None \<Rightarrow> PanicT k | Some t \<Rightarrow> StoreT k t)))"
| table_store: "reachable impl items name s p \<Longrightarrow> p i = StoreT k t \<Longrightarrow>
    reachable impl items name (store_table k t s) (p(i := RetT k t))"

lemma scan_list_cong: "cs_items s = cs_items s' \<Longrightarrow> scan_list impl s k = scan_list impl s' k"
  by (simp add: scan_list_def)

lemma scan_table_cong:
  "cs_items s = cs_items s' \<Longrightarrow> cs_name s = cs_name s' \<Longrightarrow> scan_table impl s k = scan_table impl s' k"
  by (cases "cs_name s'") (simp_all add: scan_table_def)

section \<open>A memo\<close>

text \<open>What both memos rely on: a store is read back, touches no other key and does not change
  what a scan would find.\<close>

locale memo =
  fixes read :: "'s \<Rightarrow> 'k \<Rightarrow> 'v option"
    and store :: "'k \<Rightarrow> 'v \<Rightarrow> 's \<Rightarrow> 's"
    and scan :: "'s \<Rightarrow> 'k \<Rightarrow> 'v option"
  assumes read_store: "read (store k v s) j = (if j = k then Some v else read s j)"
    and scan_store: "scan (store k v s) j = scan s j"
begin

lemma store_keeps:
  assumes "\<And>j v. read s j = Some v \<Longrightarrow> scan s j = Some v" "scan s k = Some out"
    and "read (store k out s) j = Some v"
  shows "scan (store k out s) j = Some v"
  using assms by (auto simp: read_store scan_store split: if_splits)

end

interpretation list_memo: memo cs_lists store_list "\<lambda>s k. Some (scan_list impl s k)"
  for impl :: "'k \<Rightarrow> 'e \<Rightarrow> bool"
  by unfold_locales (simp_all add: store_list_def scan_list_def)

interpretation table_memo: memo cs_tables store_table "scan_table impl"
  for impl :: "'k \<Rightarrow> 'e \<Rightarrow> bool"
  by unfold_locales (auto simp: store_table_def intro: scan_table_cong)

section \<open>What a scan finds\<close>

lemma append_loop: "foldl (\<lambda>out it. if P it then out @ [it] else out) acc xs = acc @ filter P xs"
  by (induction xs arbitrary: acc) auto

lemma scan_list_filter: "scan_list impl s k = filter (impl k) (cs_items s)"
  by (simp add: scan_list_def append_loop)

lemma table_loop:
  "foldl (\<lambda>out it. if P it then out(f it := Some it) else out) acc xs n =
     (case find (\<lambda>e. P e \<and> f e = n) (rev xs) of None \<Rightarrow> acc n | Some e \<Rightarrow> Some e)"
  by (induction xs arbitrary: acc) (auto simp: find_append split: option.split)

lemma case_option_Some [simp]: "(case x of None \<Rightarrow> None | Some y \<Rightarrow> Some y) = x"
  by (cases x) simp_all

lemma scan_table_find:
  "scan_table impl s k = Some t \<longleftrightarrow>
     (\<exists>f. cs_name s = Some f \<and> t = (\<lambda>n. find (\<lambda>e. impl k e \<and> f e = n) (rev (cs_items s))))"
  by (cases "cs_name s") (auto simp: scan_table_def table_loop [abs_def])

section \<open>The invariant\<close>

definition memo_ok ::
    "('k \<Rightarrow> 'e \<Rightarrow> bool) \<Rightarrow> 'e list \<Rightarrow> ('e \<Rightarrow> string) option \<Rightarrow> ('k, 'e) cset \<Rightarrow> bool" where
  "memo_ok impl items name s \<longleftrightarrow>
     cs_items s = items \<and> cs_name s = name \<and>
     (\<forall>k l. cs_lists s k = Some l \<longrightarrow> Some (scan_list impl s k) = Some l) \<and>
     (\<forall>k t. cs_tables s k = Some t \<longrightarrow> scan_table impl s k = Some t)"

fun pc_ok :: "('k \<Rightarrow> 'e \<Rightarrow> bool) \<Rightarrow> ('k, 'e) cset \<Rightarrow> ('k, 'e) pc \<Rightarrow> bool" where
  "pc_ok impl s (StoreL k l) \<longleftrightarrow> Some (scan_list impl s k) = Some l"
| "pc_ok impl s (RetL k l) \<longleftrightarrow> Some (scan_list impl s k) = Some l"
| "pc_ok impl s (StoreT k t) \<longleftrightarrow> scan_table impl s k = Some t"
| "pc_ok impl s (RetT k t) \<longleftrightarrow> scan_table impl s k = Some t"
| "pc_ok impl s (PanicT k) \<longleftrightarrow> scan_table impl s k = None"
| "pc_ok impl s _ \<longleftrightarrow> True"

lemma memo_ok_scans:
  assumes "memo_ok impl items name s"
  shows "scan_list impl s k = scan_list impl (New_set items name) k"
    and "scan_table impl s k = scan_table impl (New_set items name) k"
  using assms by (auto simp: memo_ok_def New_set_def intro: scan_list_cong scan_table_cong)

lemma memo_ok_list:
  assumes "memo_ok impl items name s" "scan_list impl s k = l"
  shows "memo_ok impl items name (store_list k l s)"
proof -
  have "Some (scan_list impl (store_list k l s) j) = Some m"
    if "cs_lists (store_list k l s) j = Some m" for j m
    by (rule list_memo.store_keeps [OF _ _ that]) (use assms in \<open>simp_all add: memo_ok_def\<close>)
  moreover have "scan_table impl (store_list k l s) j = scan_table impl s j" for j
    by (rule scan_table_cong) (simp_all add: store_list_def)
  ultimately show ?thesis using assms(1) by (simp add: memo_ok_def) (simp add: store_list_def)
qed

lemma memo_ok_table:
  assumes "memo_ok impl items name s" "scan_table impl s k = Some t"
  shows "memo_ok impl items name (store_table k t s)"
proof -
  have "scan_table impl (store_table k t s) j = Some m"
    if "cs_tables (store_table k t s) j = Some m" for j m
    by (rule table_memo.store_keeps [OF _ assms(2) that]) (use assms(1) in \<open>simp add: memo_ok_def\<close>)
  moreover have "scan_list impl (store_table k t s) j = scan_list impl s j" for j
    by (rule scan_list_cong) (simp add: store_table_def)
  ultimately show ?thesis using assms(1) by (simp add: memo_ok_def) (simp add: store_table_def)
qed

lemma cset_reachable_ok:
  assumes "reachable impl items name s p"
  shows "memo_ok impl items name s \<and> (\<forall>i. pc_ok impl (New_set items name) (p i))"
  using assms
proof induction
  case start
  show ?case by (simp add: memo_ok_def New_set_def)
next
  case (list_store s p i k l)
  then have "pc_ok impl (New_set items name) (StoreL k l)" by metis
  with list_store.IH show ?case by (auto intro: memo_ok_list simp: memo_ok_scans)
next
  case (table_store s p i k t)
  then have "pc_ok impl (New_set items name) (StoreT k t)" by metis
  with table_store.IH show ?case by (auto intro: memo_ok_table simp: memo_ok_scans)
next
  case (list_hit s p k l i)
  then have "scan_list impl s k = l" by (simp add: memo_ok_def)
  with list_hit.IH show ?case by (auto simp: memo_ok_scans)
next
  case (table_hit s p k t i)
  then have "scan_table impl s k = Some t" by (simp add: memo_ok_def)
  with table_hit.IH show ?case by (auto simp: memo_ok_scans)
qed (auto simp: memo_ok_scans split: option.split)

lemma reachable_memo_ok: "reachable impl items name s p \<Longrightarrow> memo_ok impl items name s"
  by (simp add: cset_reachable_ok)

section \<open>The answers\<close>

lemma All_caps_exact: "memo_ok impl items name s \<Longrightarrow> snd (All_caps impl k s) = filter (impl k) items"
  by (auto simp: All_caps_def memo_ok_def scan_list_filter split: option.split)

lemma ByName_exact:
  assumes "memo_ok impl items name s"
  shows "map_option snd (ByName impl k s) =
    map_option (\<lambda>f n. find (\<lambda>e. impl k e \<and> f e = n) (rev items)) name"
proof (cases "scan_table impl s k")
  case None
  with assms have "cs_tables s k = None" by (cases "cs_tables s k") (auto simp: memo_ok_def)
  with None assms show ?thesis by (auto simp: ByName_def memo_ok_def scan_table_def split: option.splits)
next
  case (Some t)
  then obtain f where "cs_name s = Some f"
    and "t = (\<lambda>n. find (\<lambda>e. impl k e \<and> f e = n) (rev (cs_items s)))"
    by (auto simp: scan_table_find)
  moreover from this assms have "name = Some f" "items = cs_items s" by (simp_all add: memo_ok_def)
  moreover have "cs_tables s k = Some u \<Longrightarrow> u = t" for u
    using Some assms by (simp add: memo_ok_def)
  ultimately show ?thesis
    using Some by (cases "cs_tables s k") (simp_all add: ByName_def)
qed

lemma find_filter: "find P xs = (if filter P xs = [] then None else Some (hd (filter P xs)))"
  by (induction xs) auto

lemma First_exact: "memo_ok impl items name s \<Longrightarrow> snd (First impl k s) = find (impl k) items"
  using All_caps_exact [of impl items name s k]
  by (auto simp: First_def find_filter hd_conv_nth split: prod.splits)

lemma Both_exact:
  "memo_ok impl items name s \<Longrightarrow> snd (Both impl c d s) = filter (\<lambda>e. impl c e \<and> impl d e) items"
  using All_caps_exact [of impl items name s c]
  by (simp add: Both_def append_loop split_beta)

lemma Any_exact: "memo_ok impl items name s \<Longrightarrow> snd (Any impl k s) = (\<exists>e\<in>set items. impl k e)"
  using All_caps_exact [of impl items name s k]
  by (simp add: Any_def split_beta filter_empty_conv)

lemma Of_exact:
  assumes "memo_ok impl items name s"
  shows "map_option snd (Of impl k n s) =
    map_option (\<lambda>f. find (\<lambda>e. impl k e \<and> f e = n) (rev items)) name"
  using ByName_exact [OF assms, of k]
  by (cases "ByName impl k s"; cases name) (auto simp: Of_def split: prod.splits)

lemma reachable_pc_answers:
  assumes "reachable impl items name s p"
  shows "p i = RetL k l \<Longrightarrow> l = filter (impl k) items"
    and "p i = RetT k t \<Longrightarrow>
      \<exists>f. name = Some f \<and> (\<forall>n. t n = find (\<lambda>e. impl k e \<and> f e = n) (rev items))"
    and "p i = PanicT k \<Longrightarrow> name = None"
proof -
  have pc: "pc_ok impl (New_set items name) (p i)" using cset_reachable_ok [OF assms] by simp
  show "p i = RetL k l \<Longrightarrow> l = filter (impl k) items"
    using pc by (auto simp: scan_list_filter New_set_def)
  show "\<exists>f. name = Some f \<and> (\<forall>n. t n = find (\<lambda>e. impl k e \<and> f e = n) (rev items))"
    if "p i = RetT k t"
    using pc that by (auto simp: scan_table_find New_set_def)
  show "p i = PanicT k \<Longrightarrow> name = None"
    using pc by (auto simp: scan_table_def New_set_def split: option.splits)
qed

text \<open>
  C34: Whatever goroutines have called before and however their calls are interleaved, every
  answer of a set is the one a fresh scan of its components gives. \<open>All\<close> lists the
  implementors in registration order and \<open>First\<close> is its head; \<open>Both\<close> lists those of both
  capabilities; a name resolves to the last component registered under it that implements the
  capability, whether through the table or through \<open>Of\<close>, and to nothing when there is none;
  a call by name panics exactly when the set was built without a name function.\<close>

theorem capset_answers:
  fixes impl :: "'k \<Rightarrow> 'e \<Rightarrow> bool"
  assumes "reachable impl items name s p"
  shows "(\<forall>l. p i = RetL k l \<longrightarrow> l = filter (impl k) items) \<and>
    (\<forall>t. p i = RetT k t \<longrightarrow>
      (\<exists>f. name = Some f \<and> (\<forall>n. t n = find (\<lambda>e. impl k e \<and> f e = n) (rev items)))) \<and>
    (p i = PanicT k \<longrightarrow> name = None) \<and>
    snd (All_caps impl k s) = filter (impl k) items \<and>
    snd (First impl k s) = find (impl k) items \<and>
    snd (Both impl k d s) = filter (\<lambda>e. impl k e \<and> impl d e) items \<and>
    snd (Any impl k s) = (\<exists>e\<in>set items. impl k e) \<and>
    map_option snd (Of impl k n s) =
      map_option (\<lambda>f. find (\<lambda>e. impl k e \<and> f e = n) (rev items)) name"
proof -
  note pcs = reachable_pc_answers [OF assms, of i k]
  note ok = reachable_memo_ok [OF assms]
  have "\<forall>l. p i = RetL k l \<longrightarrow> l = filter (impl k) items" using pcs(1) by simp
  moreover have "\<forall>t. p i = RetT k t \<longrightarrow>
      (\<exists>f. name = Some f \<and> (\<forall>n. t n = find (\<lambda>e. impl k e \<and> f e = n) (rev items)))"
    using pcs(2) by (intro allI impI)
  ultimately show ?thesis
    using pcs(3) All_caps_exact [OF ok] First_exact [OF ok] Both_exact [OF ok] Any_exact [OF ok]
      Of_exact [OF ok] by (intro conjI) simp_all
qed

text \<open>Two capabilities, the even components and the large ones, with the number as the name. Two
  goroutines scan at once; the second stores last.\<close>

definition demo_impl :: "bool \<Rightarrow> nat \<Rightarrow> bool" where
  "demo_impl k e = (if k then even e else 3 < e)"

definition demo_name :: "nat \<Rightarrow> string" where
  "demo_name e = (if e < 3 then ''low'' else ''high'')"

lemma demo_race:
  "\<exists>s p. reachable demo_impl [1, 2, 4, 6] (Some demo_name) s p \<and>
     p 0 = RetL True [2, 4, 6] \<and> p 1 = RetL True [2, 4, 6]"
proof -
  let ?R = "reachable demo_impl [1, 2, 4, 6] (Some demo_name)"
  let ?s = "New_set [1, 2, 4, 6] (Some demo_name) :: (bool, nat) cset"
  let ?l = "scan_list demo_impl ?s True"
  let ?p = "((((\<lambda>_. Idle)(0 := ScanL True))(1 := ScanL True))(0 := StoreL True ?l))(1 := StoreL True ?l)"
  have "?R ?s ((\<lambda>_. Idle)(0 := ScanL True))"
    by (rule list_miss [OF start]) (simp add: New_set_def)
  then have "?R ?s (((\<lambda>_. Idle)(0 := ScanL True))(1 := ScanL True))"
    by (rule list_miss) (simp add: New_set_def)
  then have "?R ?s ((((\<lambda>_. Idle)(0 := ScanL True))(1 := ScanL True))(0 := StoreL True ?l))"
    by (rule list_scan) simp
  then have "?R ?s ?p" by (rule list_scan) simp
  then have "?R (store_list True ?l ?s) (?p(0 := RetL True ?l))" by (rule list_store) simp
  then have "?R (store_list True ?l (store_list True ?l ?s)) ((?p(0 := RetL True ?l))(1 := RetL True ?l))"
    by (rule list_store) simp
  moreover have "?l = [2, 4, 6]"
    by (simp add: scan_list_def New_set_def demo_impl_def)
  ultimately show ?thesis by (intro exI conjI) (assumption, simp_all)
qed

lemma capset_answers_witness:
  "\<exists>s p. reachable demo_impl [1, 2, 4, 6] (Some demo_name) s p \<and> p 1 = RetL True [2, 4, 6] \<and>
     snd (First demo_impl True s) = Some 2 \<and> snd (Both demo_impl True False s) = [4, 6] \<and>
     map_option snd (Of demo_impl True ''high'' s) = Some (Some 6) \<and>
     map_option snd (Of demo_impl False ''low'' s) = Some None"
proof -
  obtain s p where r: "reachable demo_impl [1, 2, 4, 6] (Some demo_name) s p"
    and p: "p 1 = RetL True [2, 4, 6]"
    using demo_race by blast
  show ?thesis
    using r p capset_answers [OF r, of 1 True False "''high''"] capset_answers [OF r, of 1 False True "''low''"]
    by (intro exI [of _ s] exI [of _ p]) (simp add: demo_impl_def demo_name_def)
qed

end
