(* ===== verification/Host.thy ===== *)
theory Host
  imports Sqlitex "HOL-Library.Word"
begin

text \<open>
  What a service reads from the machine it runs on: the environment (config/config.go), the clock
  (clock/clock.go), the disk (disk/*.go), and the rest of a response body (httpc/drain.go).

  godotenv and env are third-party: the first is a function on the environment, the second one from
  the environment to the parsed configuration. The system calls of package disk are functions from
  the directory to their answer, whose fields are 64-bit words as in the code.
\<close>

section \<open>config.go\<close>

type_synonym environ = "string \<Rightarrow> string option"

definition fs_ErrNotExist :: string where
  "fs_ErrNotExist = ''file does not exist''"

fun load_files ::
    "(string \<Rightarrow> environ \<Rightarrow> environ \<times> gerr option) \<Rightarrow> string list \<Rightarrow> environ \<Rightarrow> environ \<times> gerr option" where
  "load_files dotenv [] e = (e, None)"
| "load_files dotenv (f # fs) e =
     (case dotenv f e of
        (e', Some err) \<Rightarrow>
          if errors_is err fs_ErrNotExist then load_files dotenv fs e'
          else (e', Some (Wrap (''load '' @ f @ '': '') err []))
      | (e', None) \<Rightarrow> load_files dotenv fs e')"

definition Load ::
    "(string \<Rightarrow> environ \<Rightarrow> environ \<times> gerr option) \<Rightarrow> (environ \<Rightarrow> gerr + 'c) \<Rightarrow> string list \<Rightarrow>
     environ \<Rightarrow> environ \<times> (gerr + 'c)" where
  "Load dotenv parse files e =
     (case load_files dotenv files e of
        (e', Some err) \<Rightarrow> (e', Inl err)
      | (e', None) \<Rightarrow>
          (e', case parse e' of
                 Inl err \<Rightarrow> Inl (Wrap ''parse environment: '' err [])
               | Inr cfg \<Rightarrow> Inr cfg))"

section \<open>clock.go\<close>

record fake = fk_now :: instant

definition NewFake :: "instant \<Rightarrow> fake" where
  "NewFake t = \<lparr>fk_now = t\<rparr>"

definition Now :: "fake \<Rightarrow> instant" where
  "Now f = fk_now f"

definition Advance :: "duration \<Rightarrow> fake \<Rightarrow> fake" where
  "Advance d f = f\<lparr>fk_now := fk_now f + d\<rparr>"

definition Set_now :: "instant \<Rightarrow> fake \<Rightarrow> fake" where
  "Set_now t f = f\<lparr>fk_now := t\<rparr>"

section \<open>disk\<close>

definition ErrUnsupported :: string where
  "ErrUnsupported = ''disk: filesystem statistics are unsupported on this platform''"

definition ErrNotOnDisk :: string where
  "ErrNotOnDisk = ''disk: path does not name a filesystem location''"

definition isMeasurable :: "string \<Rightarrow> bool" where
  "isMeasurable path \<longleftrightarrow> path \<noteq> [] \<and> path \<noteq> '':memory:''"

text \<open>\<open>filepath.Clean\<close> and \<open>filepath.Dir\<close> on a Unix path.\<close>

definition clean_step :: "bool \<Rightarrow> string \<Rightarrow> string list \<Rightarrow> string list" where
  "clean_step rooted c out =
     (if c = [] \<or> c = ''.'' then out
      else if c = ''..'' then
        (if out \<noteq> [] \<and> last out \<noteq> ''..'' then butlast out
         else if rooted then out else out @ [c])
      else out @ [c])"

definition Clean :: "string \<Rightarrow> string" where
  "Clean p =
     (let rooted = has_prefix p ''/'';
          out = fold (clean_step rooted) (split_on CHR ''/'' p) []
      in if rooted then CHR ''/'' # join_with ''/'' out
         else if out = [] then ''.'' else join_with ''/'' out)"

definition Dir :: "string \<Rightarrow> string" where
  "Dir p = Clean (rev (dropWhile (\<lambda>c. c \<noteq> CHR ''/'') (rev p)))"

record statfs =
  st_Bavail :: "64 word"
  st_Blocks :: "64 word"
  st_Bsize :: "64 word"

definition not_on_disk :: "string \<Rightarrow> int \<times> int \<times> gerr option" where
  "not_on_disk path = (0, 0, Some (Wrap [] (Sentinel ErrNotOnDisk) ('': '' @ quoted path)))"

definition Usage_statfs :: "(string \<Rightarrow> gerr + statfs) \<Rightarrow> string \<Rightarrow> int \<times> int \<times> gerr option" where
  "Usage_statfs stat path =
     (if \<not> isMeasurable path then not_on_disk path
      else case stat (Dir path) of
             Inl err \<Rightarrow> (0, 0, Some (Wrap (''disk: statfs '' @ quoted (Dir path) @ '': '') err []))
           | Inr st \<Rightarrow>
               (let bsize = st_Bsize st
                in (sint (st_Bavail st * bsize), sint (st_Blocks st * bsize), None)))"

definition Usage_stub :: "string \<Rightarrow> int \<times> int \<times> gerr option" where
  "Usage_stub path = (0, 0, Some (Sentinel ErrUnsupported))"

text \<open>Windows: the encoding of the directory may fail; its \<open>filepath.Dir\<close> is a parameter. The call
  gives the free bytes of the caller and the total.\<close>

definition Usage_windows ::
    "(string \<Rightarrow> string) \<Rightarrow> (string \<Rightarrow> gerr + 'p) \<Rightarrow> ('p \<Rightarrow> gerr + (64 word \<times> 64 word)) \<Rightarrow> string \<Rightarrow>
     int \<times> int \<times> gerr option" where
  "Usage_windows dir utf16 space path =
     (if \<not> isMeasurable path then not_on_disk path
      else case utf16 (dir path) of
             Inl err \<Rightarrow> (0, 0, Some (Wrap (''disk: encode path '' @ quoted (dir path) @ '': '') err []))
           | Inr p \<Rightarrow>
               (case space p of
                  Inl err \<Rightarrow> (0, 0, Some (Wrap (''disk: GetDiskFreeSpaceEx '' @ quoted (dir path) @ '': '') err []))
                | Inr (freeToCaller, totalBytes) \<Rightarrow> (sint freeToCaller, sint totalBytes, None)))"

section \<open>drain.go\<close>

definition drainLimit :: nat where
  "drainLimit = 65536"

text \<open>\<open>io.Copy\<close> from a reader limited to \<open>n\<close> bytes: \<open>left\<close> bytes of the body are unread, and a read
  with \<open>left\<close> unread fails (\<open>fails left\<close>) or delivers at least one and at most \<open>chunk left\<close> bytes.
  The answer is what stays unread and whether the body itself answered that it is at its end,
  which is what makes the connection reusable.\<close>

function copy_limited :: "(nat \<Rightarrow> bool) \<Rightarrow> (nat \<Rightarrow> nat) \<Rightarrow> nat \<Rightarrow> nat \<Rightarrow> nat \<times> bool" where
  "copy_limited fails chunk n left =
     (if n = 0 then (left, False)
      else if fails left then (left, False)
      else if left = 0 then (0, True)
      else let k = min (max 1 (chunk left)) (min n left)
           in copy_limited fails chunk (n - k) (left - k))"
  by pat_completeness auto

termination
  by (relation "measure (\<lambda>(fails, chunk, n, left). left)") auto

definition drainClose :: "(nat \<Rightarrow> bool) \<Rightarrow> (nat \<Rightarrow> nat) \<Rightarrow> nat \<Rightarrow> nat \<times> bool" where
  "drainClose fails chunk body = copy_limited fails chunk (drainLimit + 1) body"

section \<open>Lemmas\<close>

declare copy_limited.simps [simp del]

lemma copy_limited_step:
  assumes "n \<noteq> 0" "left \<noteq> 0" "\<not> fails left"
  obtains k where "0 < k" "k \<le> n" "k \<le> left"
    "copy_limited fails chunk n left = copy_limited fails chunk (n - k) (left - k)"
proof
  let ?k = "min (max 1 (chunk left)) (min n left)"
  show "0 < ?k" "?k \<le> n" "?k \<le> left" using assms by simp_all
  show "copy_limited fails chunk n left = copy_limited fails chunk (n - ?k) (left - ?k)"
    using assms by (subst copy_limited.simps) (simp only: Let_def if_False)
qed

lemma copy_limited_exact:
  "copy_limited (\<lambda>_. False) chunk n left = (left - n, left < n)"
proof (induction left arbitrary: n rule: less_induct)
  case (less left)
  show ?case
  proof (cases "n = 0 \<or> left = 0")
    case True
    then show ?thesis by (auto simp: copy_limited.simps [of _ chunk n left])
  next
    case False
    then obtain k where k: "0 < k" "k \<le> n" "k \<le> left"
      and step: "copy_limited (\<lambda>_. False) chunk n left = copy_limited (\<lambda>_. False) chunk (n - k) (left - k)"
      using copy_limited_step [of n left "\<lambda>_. False" chunk] by auto
    with less [of "left - k" "n - k"] show ?thesis by auto
  qed
qed

lemma copy_limited_bounded: "left - fst (copy_limited fails chunk n left) \<le> n"
proof (induction left arbitrary: n rule: less_induct)
  case (less left)
  show ?case
  proof (cases "n = 0 \<or> left = 0 \<or> fails left")
    case True
    then show ?thesis by (auto simp: copy_limited.simps [of fails chunk n left])
  next
    case False
    then obtain k where k: "0 < k" "k \<le> n" "k \<le> left"
      and step: "copy_limited fails chunk n left = copy_limited fails chunk (n - k) (left - k)"
      using copy_limited_step [of n left fails chunk] by auto
    with less [of "left - k" "n - k"] show ?thesis by auto
  qed
qed

text \<open>
  The rest of a body that nobody reads. However the body is delivered, its connection can be
  used again exactly when it has at most 64 KiB left: the byte past the limit is what lets the
  reader see the end. No more than 64 KiB and that byte are ever read, of an endless body or of one
  whose reads fail as well.\<close>

theorem drain_reuses:
  "drainLimit = 64 * 1024 \<and>
   drainClose (\<lambda>_. False) chunk body = (body - (drainLimit + 1), body \<le> drainLimit) \<and>
   body - fst (drainClose fails chunk body) \<le> drainLimit + 1"
  using copy_limited_bounded [of body fails chunk "drainLimit + 1"]
  by (simp add: drainClose_def copy_limited_exact less_Suc_eq_le) (simp add: drainLimit_def)

text \<open>The bytes are exact while they fit an int64; a total of 2^63 bytes reads as negative.\<close>

lemma Usage_exact:
  assumes "isMeasurable path" "stat (Dir path) = Inr st"
    and "uint (st_Bavail st) * uint (st_Bsize st) < 2 ^ 63" "uint (st_Blocks st) * uint (st_Bsize st) < 2 ^ 63"
  shows "Usage_statfs stat path =
    (uint (st_Bavail st) * uint (st_Bsize st), uint (st_Blocks st) * uint (st_Bsize st), None)"
proof -
  have "sint (x * y) = uint x * uint y" if less: "uint x * uint y < 2 ^ 63" for x y :: "64 word"
  proof -
    have "0 \<le> uint x * uint y" by simp
    with less have "uint (x * y) = uint x * uint y" by (simp add: uint_word_ariths)
    moreover have "signed_take_bit 63 (uint x * uint y) = uint x * uint y"
      using less \<open>0 \<le> uint x * uint y\<close> by (intro signed_take_bit_int_eq_self) linarith+
    ultimately show ?thesis by (simp add: sint_uint)
  qed
  with assms show ?thesis by (simp add: Usage_statfs_def Let_def)
qed

lemma Usage_error: "Usage_statfs stat path = (a, b, Some e) \<Longrightarrow> a = 0 \<and> b = 0"
  by (auto simp: Usage_statfs_def not_on_disk_def Let_def split: if_splits sum.splits)

text \<open>Why the name is refused: as a path it would stand for the working directory.\<close>

lemma memory_is_no_path:
  "Dir '':memory:'' = ''.''" "\<not> isMeasurable '':memory:''" "Dir ''/var/lib//app/../x.db'' = ''/var/lib''"
  by code_simp+

text \<open>No variable that is set is changed by a file, so what is set always wins.\<close>

lemma load_files_keeps:
  assumes "\<And>f e k v. e k = Some v \<Longrightarrow> fst (dotenv f e) k = Some v" "e k = Some v"
  shows "fst (load_files dotenv fs e) k = Some v"
  using assms(2)
proof (induction fs arbitrary: e)
  case (Cons f fs)
  then have "fst (dotenv f e) k = Some v" by (intro assms(1))
  with Cons.IH show ?case by (cases "dotenv f e") (auto split: option.split)
qed simp

lemma Load_environment_wins:
  assumes "\<And>f e k v. e k = Some v \<Longrightarrow> fst (dotenv f e) k = Some v"
    and "Load dotenv parse files e = (e', Inr cfg)" and "e k = Some v"
  shows "parse e' = Inr cfg \<and> e' k = Some v"
  using assms(2) load_files_keeps [of dotenv e k v files, OF assms(1,3)]
  by (auto simp: Load_def split: prod.splits option.splits sum.splits)

text \<open>The fake clock: no advance is lost, in whatever order goroutines make them.\<close>

lemma Advance_all: "Now (fold Advance ds (NewFake t)) = t + sum_list ds"
proof -
  have "fk_now (fold Advance ds f) = fk_now f + sum_list ds" for f
    by (induction ds arbitrary: f) (simp_all add: Advance_def)
  then show ?thesis by (simp add: Now_def NewFake_def)
qed

end
