(* ===== verification/GateSweep.thy ===== *)
theory GateSweep
  imports Gate Jobs
begin

text \<open>
  \<open>Gate.Run\<close> in oidcauth/fiberauth/gate.go: the job of sweep.go under the scheduler of jobs.go, on
  the table of session/sqlite.go. The world of the job is the number of sweeps so far and the
  table; the errors of the driver, of the
  statement and of its count, and the clock of each sweep are parameters.
\<close>

type_synonym sweep_world = "nat \<times> row list"

definition sweep_work ::
    "sweep_job \<Rightarrow> (nat \<Rightarrow> gerr option \<times> gerr option) \<Rightarrow> (nat \<Rightarrow> instant) \<Rightarrow> duration option \<Rightarrow> sweep_world \<Rightarrow>
     sweep_world \<times> do_out" where
  "sweep_work j fault clk timeout w =
     (case jb_Do j (fault (fst w)) (clk (fst w)) (snd w) of
        (rows, err, logged) \<Rightarrow>
          ((Suc (fst w), rows), case err of None \<Rightarrow> DoOk | Some e \<Rightarrow> DoErr e))"

definition the_job :: "sweep_job \<Rightarrow> (nat \<Rightarrow> gerr option \<times> gerr option) \<Rightarrow> (nat \<Rightarrow> instant) \<Rightarrow> sweep_world job" where
  "the_job j fault clk =
     \<lparr>j_Name = jb_Name j, j_Every = jb_Every j, j_Timeout = jb_Timeout j, j_RunAtStart = jb_RunAtStart j,
      j_Do = Some (sweep_work j fault clk), j_OnError = None\<rparr>"

definition Run_gate ::
    "(nat \<Rightarrow> gerr option \<times> gerr option) \<Rightarrow> (nat \<Rightarrow> instant) \<Rightarrow> gate \<Rightarrow> select list \<Rightarrow> sweep_world \<Rightarrow> sweep_world \<times> run_out" where
  "Run_gate fault clk g es w =
     (case g_sweepJob g of
        None \<Rightarrow> (w, RunStopped)
      | Some j \<Rightarrow> job_Run (the_job j fault clk) es w)"

section \<open>Lemmas\<close>

text \<open>The rows a sweep lets stand.\<close>

definition kept :: "(string \<Rightarrow> string list option) \<Rightarrow> (nat \<Rightarrow> gerr option \<times> gerr option) \<Rightarrow> (nat \<Rightarrow> instant) \<Rightarrow> nat \<Rightarrow> row \<Rightarrow> bool" where
  "kept dec fault clk i r \<longleftrightarrow> fst (fault i) = None \<longrightarrow> clk i < s_ExpiresAt (scan dec r)"

lemma table_wf_filter: "table_wf rows \<Longrightarrow> table_wf (filter P rows)"
  by (auto simp: table_wf_def keys_ok_filter)

lemma sweep_work_rows:
  assumes "table_wf rows" "storable (clk i)"
  shows "\<exists>out. sweep_work \<lparr>jb_Name = n, jb_Every = ev, jb_Timeout = lim, jb_RunAtStart = b, jb_Do = sweep_once\<rparr>
      fault clk timeout (i, rows) = ((Suc i, filter (kept dec fault clk i) rows), out) \<and> out \<noteq> DoPanic"
proof (cases "fst (fault i)")
  case None
  have "filter (kept dec fault clk i) rows = filter (\<lambda>r. clk i < s_ExpiresAt (scan dec r)) rows"
    by (simp add: kept_def [abs_def] None)
  with sweep_exact [OF assms, of dec] None show ?thesis
    by (cases "snd (fault i)") (simp_all add: sweep_work_def sweep_once_def DeleteExpiredSessions_def)
next
  case (Some e)
  then show ?thesis
    by (simp add: sweep_work_def sweep_once_def DeleteExpiredSessions_def kept_def [abs_def])
qed

lemma the_job_tick:
  assumes "table_wf rows" "storable (clk i)" "j = \<lparr>jb_Name = n, jb_Every = ev, jb_Timeout = lim, jb_RunAtStart = b, jb_Do = sweep_once\<rparr>"
  shows "job_tick (the_job j fault clk) (sweep_work j fault clk) (i, rows) =
    ((Suc i, filter (kept dec fault clk i) rows), False)"
proof -
  define c where "c = (if j_Timeout (the_job j fault clk) > 0 then Some (j_Timeout (the_job j fault clk)) else None)"
  obtain out where "sweep_work j fault clk c (i, rows) = ((Suc i, filter (kept dec fault clk i) rows), out)"
    and "out \<noteq> DoPanic"
    using sweep_work_rows [where clk = clk and i = i, OF assms(1,2)] assms(3) by blast
  then show ?thesis
    unfolding job_tick_def c_def [symmetric] by (cases out) (simp_all add: the_job_def)
qed

lemma the_job_loop:
  assumes "table_wf rows" "\<And>i. storable (clk i)"
    and j: "j = \<lparr>jb_Name = n, jb_Every = ev, jb_Timeout = lim, jb_RunAtStart = b, jb_Do = sweep_once\<rparr>"
  shows "job_loop (the_job j fault clk) (sweep_work j fault clk) (replicate m Tick @ [CtxDone]) (i, rows) =
    ((i + m, filter (\<lambda>r. \<forall>k\<in>{i..<i + m}. kept dec fault clk k r) rows), RunStopped)"
  using assms(1)
proof (induction m arbitrary: i rows)
  case (Suc m)
  note tick = the_job_tick [where clk = clk and i = i and fault = fault and dec = dec, OF Suc.prems assms(2) j]
  have "{i..<i + Suc m} = insert i {Suc i..<Suc i + m}" by auto
  with Suc.IH [OF table_wf_filter [OF Suc.prems], of "Suc i"] tick show ?case
    by (simp add: conj_commute)
qed simp

text \<open>
  C36: The session sweep of a gate, from its Run through the scheduler down to the table. It never
  panics and ends only with its context, whatever the driver answers: one sweep at the start and
  one for every tick. The rows left, in their order, are exactly those whose session, as it is read
  back, had not expired at any sweep whose statement the database ran, whether or not its count could
  be read: a sweep that fails is made up for by the next, and a session that is still live is never lost. Over a store that cannot sweep
  it returns at once. Login need not be configured for any of this.\<close>

theorem gate_sweeps:
  assumes "table_wf rows" and "\<And>i. storable (clk i)"
    and "fst (New_gate apiBase authBase opts) = g"
  shows "Run_gate fault clk g (replicate n Tick @ [CtxDone]) (0, rows) =
    (if go_Sessions opts \<and> go_sweeps opts
     then ((Suc n, filter (\<lambda>r. \<forall>k\<le>n. fst (fault k) = None \<longrightarrow> clk k < s_ExpiresAt (scan dec r)) rows), RunStopped)
     else ((0, rows), RunStopped))"
proof -
  have job: "g_sweepJob g = SweepJob (go_Sessions opts \<and> go_sweeps opts)"
    using assms(3) by (auto simp: New_gate_def Let_def)
  show ?thesis
  proof (cases "go_Sessions opts \<and> go_sweeps opts")
    case True
    define j where "j = \<lparr>jb_Name = ''oidc-session-sweep'', jb_Every = SweepInterval, jb_Timeout = sweepTimeout,
                 jb_RunAtStart = True, jb_Do = sweep_once\<rparr>"
    have pos: "0 < SweepInterval" by (simp add: SweepInterval_def duration_units)
    have all: "(\<lambda>r. kept dec fault clk 0 r \<and> (\<forall>k\<in>{Suc 0..<Suc 0 + n}. kept dec fault clk k r)) =
        (\<lambda>r. \<forall>k\<le>n. fst (fault k) = None \<longrightarrow> clk k < s_ExpiresAt (scan dec r))"
    proof
      fix r
      have "{..n} = insert 0 {Suc 0..<Suc 0 + n}" by auto
      then show "(kept dec fault clk 0 r \<and> (\<forall>k\<in>{Suc 0..<Suc 0 + n}. kept dec fault clk k r)) =
          (\<forall>k\<le>n. fst (fault k) = None \<longrightarrow> clk k < s_ExpiresAt (scan dec r))"
        by (metis (no_types, lifting) kept_def atMost_iff insert_iff)
    qed
    have "Run_gate fault clk g (replicate n Tick @ [CtxDone]) (0, rows) =
        job_loop (the_job j fault clk) (sweep_work j fault clk) (replicate n Tick @ [CtxDone])
          (Suc 0, filter (kept dec fault clk 0) rows)"
      using True pos the_job_tick [where clk = clk and i = 0 and fault = fault and dec = dec, OF assms(1,2) j_def]
      by (simp add: Run_gate_def job SweepJob_def job_Run_def j_def [symmetric])
        (simp add: the_job_def j_def)
    with True all show ?thesis
      by (simp only: the_job_loop [where clk = clk and fault = fault and dec = dec, OF table_wf_filter [OF assms(1)] assms(2) j_def] filter_filter)
        (simp add: conj_commute)
  next
    case False
    then show ?thesis by (simp add: Run_gate_def job SweepJob_def)
  qed
qed

theorem gate_sweeps_witness:
  "Run_gate (\<lambda>i. (if i = 0 then Some (Text ''busy'') else None, Some (Text ''count''))) (\<lambda>_. 90 * second) demo_gate [Tick, CtxDone] (0, demo_rows) =
     ((2, []), RunStopped)"
proof -
  let ?fault = "\<lambda>i :: nat. (if i = 0 then Some (Text ''busy'') else None, Some (Text ''count''))"
  have expires: "s_ExpiresAt (scan (\<lambda>_. Some []) (row_of (\<lambda>_. ''[]'') demo_session ''h'')) = 90 * second"
    by (simp only: demo_scan demo_expires)
  have "\<not> (\<forall>k\<le>1. fst (?fault k) = None \<longrightarrow> 90 * second < s_ExpiresAt (scan (\<lambda>_. Some []) (row_of (\<lambda>_. ''[]'') demo_session ''h'')))"
    unfolding expires by (intro notI) (drule spec [of _ 1], simp)
  then have "filter (\<lambda>r. \<forall>k\<le>1. fst (?fault k) = None \<longrightarrow> 90 * second < s_ExpiresAt (scan (\<lambda>_. Some []) r)) demo_rows = []"
    unfolding demo_rows_def by (simp only: filter.simps if_False)
  then have "Run_gate ?fault (\<lambda>_. 90 * second) demo_gate (replicate 1 Tick @ [CtxDone]) (0, demo_rows) =
      ((Suc 1, []), RunStopped)"
    using gate_sweeps [where clk = "\<lambda>_. 90 * second" and n = 1 and dec = "\<lambda>_. Some []" and fault = ?fault,
        OF demo_table demo_now demo_gate_def [symmetric]]
    by (simp only: options.simps simp_thms if_True)
  then show ?thesis by (simp add: numeral_2_eq_2)
qed

end
