(* ===== verification/SignedIn.thy ===== *)
theory SignedIn
  imports Gate
begin

text \<open>
  oidcauth/fiberauth and session/sqlite.go together: the life of a signed-in session between the
  sign-in that wrote its cookie and a later request that carries it. In between the table sees the
  operations of the store made for others, the sweeps of the gate's job, and requests, each of which
  goes through \<open>resolveSession\<close> and may renew the session it carries, this one included.
\<close>

section \<open>What happens between two requests\<close>

datatype gate_event = ByStore store_op | ByRequest env provider request

fun access :: "(string list \<Rightarrow> string) \<Rightarrow> gerr \<Rightarrow> gate \<Rightarrow> gate_event \<Rightarrow> row list \<Rightarrow> row list" where
  "access enc uniq g (ByStore op) rows = sqlite.run enc uniq op rows"
| "access enc uniq g (ByRequest e p rq) rows = fst (resolveSession e g p rq rows)"

text \<open>Nobody signs the session \<open>i\<close> of token hash \<open>h\<close> out; sweeps run up to \<open>now\<close>, requests come after
  \<open>created\<close>. Sign-ins, also under its id or hash, are free, and so are calls that fail.\<close>

fun harmless :: "string \<Rightarrow> string \<Rightarrow> instant \<Rightarrow> instant \<Rightarrow> gate_event \<Rightarrow> bool" where
  "harmless h i created now (ByStore (OpCreate f s h')) = True"
| "harmless h i created now (ByStore (OpTouch f j a b)) = (f = None \<longrightarrow> j \<noteq> i)"
| "harmless h i created now (ByStore (OpDelete f j)) = (f = None \<longrightarrow> j \<noteq> i)"
| "harmless h i created now (ByStore (OpDeleteToken f h')) = (f = None \<longrightarrow> h' \<noteq> h)"
| "harmless h i created now (ByStore (OpSweep f t)) = (f = None \<longrightarrow> 0 \<le> t \<and> t \<le> now)"
| "harmless h i created now (ByRequest e p rq) = (created \<le> e_now e)"

section \<open>The row of a session\<close>

definition own :: "string \<Rightarrow> session \<Rightarrow> row \<Rightarrow> bool" where
  "own h s r \<longleftrightarrow> r_id r = s_ID s \<or> r_token_hash r = h"

definition row_at :: "(string list \<Rightarrow> string) \<Rightarrow> session \<Rightarrow> string \<Rightarrow> string \<Rightarrow> instant \<Rightarrow> row" where
  "row_at enc s h seen x = (row_of enc s h)\<lparr>r_last_seen_at := seen, r_expires_at := stamp x\<rparr>"

lemma row_at_keys [simp]: "r_id (row_at enc s h seen x) = s_ID s" "r_token_hash (row_at enc s h seen x) = h"
  "r_expires_at (row_at enc s h seen x) = stamp x" "own h s (row_at enc s h seen x)"
  by (simp_all add: row_at_def own_def)

text \<open>The table has the session in one row, which expires at \<open>lim\<close> or later.\<close>

definition signed_in :: "(string list \<Rightarrow> string) \<Rightarrow> session \<Rightarrow> string \<Rightarrow> instant \<Rightarrow> row list \<Rightarrow> bool" where
  "signed_in enc s h lim rows \<longleftrightarrow>
     (\<exists>seen x. filter (own h s) rows = [row_at enc s h seen x] \<and> storable x \<and> lim \<le> x)"

lemma find_only:
  "filter P rows = [r] \<Longrightarrow> Q r \<Longrightarrow> (\<And>x. Q x \<Longrightarrow> P x) \<Longrightarrow> find Q rows = Some r"
proof (induction rows)
  case (Cons x rows)
  then show ?case by (cases "P x") auto
qed simp

lemma filter_only:
  assumes "filter P rows = [r]" and "Q r"
  shows "filter P (filter Q rows) = [r]"
proof -
  have "filter P (filter Q rows) = filter Q (filter P rows)" by (simp add: conj_commute)
  with assms show ?thesis by simp
qed

lemma filter_map_keep: "(\<And>x. P (f x) = P x) \<Longrightarrow> filter P (map f xs) = map f (filter P xs)"
  by (induction xs) auto

lemma own_touch [simp]: "own h s (touch_row j a b r) = own h s r"
  by (simp add: own_def)

lemma signed_in_touch:
  assumes "signed_in enc s h lim rows" and "j = s_ID s \<Longrightarrow> storable b \<and> lim \<le> b"
  shows "signed_in enc s h lim (fst (TouchSession f j a b rows))"
proof -
  obtain seen x where r: "filter (own h s) rows = [row_at enc s h seen x]" "storable x" "lim \<le> x"
    using assms(1) by (auto simp: signed_in_def)
  show ?thesis
  proof (cases "f = None")
    case True
    then have "filter (own h s) (fst (TouchSession f j a b rows)) = [touch_row j a b (row_at enc s h seen x)]"
      by (simp add: TouchSession_rows filter_map_keep r(1))
    moreover have "touch_row j a b (row_at enc s h seen x) =
        (if j = s_ID s then row_at enc s h (stamp a) b else row_at enc s h seen x)"
      by (simp add: touch_row_def row_at_def)
    ultimately show ?thesis using r(2,3) assms(2) by (auto simp: signed_in_def)
  next
    case False
    with assms(1) show ?thesis by (cases f) (simp_all add: TouchSession_rows)
  qed
qed

lemma signed_in_filter:
  assumes "signed_in enc s h lim rows"
    and "\<And>seen x. storable x \<Longrightarrow> lim \<le> x \<Longrightarrow> Q (row_at enc s h seen x)"
  shows "signed_in enc s h lim (filter Q rows)"
proof -
  obtain seen x where r: "filter (own h s) rows = [row_at enc s h seen x]" "storable x" "lim \<le> x"
    using assms(1) by (auto simp: signed_in_def)
  from assms(2) [OF r(2,3)] have "Q (row_at enc s h seen x)" .
  with r filter_only [of "own h s" rows "row_at enc s h seen x" Q] show ?thesis by (auto simp: signed_in_def)
qed

lemma signed_in_unless:
  assumes "signed_in enc s h lim rows"
    and "\<And>seen x. f = None \<Longrightarrow> storable x \<Longrightarrow> lim \<le> x \<Longrightarrow> Q (row_at enc s h seen x)"
  shows "signed_in enc s h lim (if f = None then filter Q rows else rows)"
  using assms by (auto intro: signed_in_filter)

text \<open>The session as it is read back.\<close>

lemma signed_in_lookup:
  assumes "signed_in enc s h lim rows" and "storable (s_CreatedAt s)"
  obtains seen x where "lookup_row dec h rows = Some (scan dec (row_at enc s h seen x))" "storable x" "lim \<le> x"
    "s_CreatedAt (scan dec (row_at enc s h seen x)) = whole_seconds (s_CreatedAt s)"
    "s_ExpiresAt (scan dec (row_at enc s h seen x)) = whole_seconds x"
proof -
  obtain seen x where r: "filter (own h s) rows = [row_at enc s h seen x]" "storable x" "lim \<le> x"
    using assms(1) by (auto simp: signed_in_def)
  have "find (\<lambda>r. r_token_hash r = h) rows = Some (row_at enc s h seen x)"
    by (rule find_only [OF r(1)]) (simp_all add: own_def)
  then show ?thesis
    using r assms(2) by (intro that [of seen x]) (simp_all add: lookup_row_def scan_def row_at_def row_of_def)
qed

lemma signed_in_other:
  assumes "signed_in enc s h lim rows" and "lookup_row dec h' rows = Some s'" and "h' \<noteq> h"
  shows "s_ID s' \<noteq> s_ID s"
proof
  assume "s_ID s' = s_ID s"
  obtain seen x where r: "filter (own h s) rows = [row_at enc s h seen x]"
    using assms(1) by (auto simp: signed_in_def)
  obtain r' where f: "find (\<lambda>r. r_token_hash r = h') rows = Some r'" and "scan dec r' = s'"
    using assms(2) by (auto simp: lookup_row_def)
  with \<open>s_ID s' = s_ID s\<close> have "r_id r' = s_ID s" by auto
  moreover from f have "r' \<in> set rows" "r_token_hash r' = h'" by (auto simp: find_Some_iff)
  ultimately have r': "r' \<in> set rows" "r_token_hash r' = h'" "r_id r' = s_ID s" by simp_all
  then have "r' \<in> set (filter (own h s) rows)" by (simp add: own_def)
  with r r'(2) assms(3) show False by simp
qed

text \<open>The renewal of the session, by whichever request carries its token.\<close>

definition renewed :: "gate \<Rightarrow> session \<Rightarrow> instant" where
  "renewed g s = ExpiryFor (g_policy g) (whole_seconds (s_CreatedAt s)) (s_CreatedAt s)"

lemma signed_in_request:
  assumes "signed_in enc s h (renewed g s) rows" and "second \<le> s_CreatedAt s" and "storable (s_CreatedAt s)"
    and "storable (s_CreatedAt s + p_MaxLifetime (withDefaults (g_policy g)))" and "s_CreatedAt s \<le> e_now e"
  shows "signed_in enc s h (renewed g s) (fst (resolveSession e g p rq rows))"
  using resolveSession_effect [of e g p rq rows]
proof (elim disjE exE conjE)
  assume "fst (resolveSession e g p rq rows) = rows"
  with assms(1) show ?thesis by simp
next
  let ?h = "HashToken (e_sha e) (hr_cookie rq (sessionCookieName g (CookieSecure (e_idp e) p)))"
  fix s'
  assume l: "lookup_row (e_dec e) ?h rows = Some s'"
    and t: "fst (resolveSession e g p rq rows) =
      fst (TouchSession (e_fault e 1) (s_ID s') (e_now e) (ExpiryFor (g_policy g) (s_CreatedAt s') (e_now e)) rows)"
  have "storable (ExpiryFor (g_policy g) (s_CreatedAt s') (e_now e)) \<and>
      renewed g s \<le> ExpiryFor (g_policy g) (s_CreatedAt s') (e_now e)" if "s_ID s' = s_ID s"
  proof -
    have h: "?h = h" using signed_in_other [OF assms(1) l] that by blast
    have c: "s_CreatedAt s' = whole_seconds (s_CreatedAt s)"
      using signed_in_lookup [OF assms(1,3), of "e_dec e"] l h by (metis option.inject)
    have "whole_seconds (s_CreatedAt s) \<noteq> 0" using whole_seconds_pos [OF assms(2)] by simp
    moreover have "0 \<le> e_now e" using assms(2,5) by (simp add: second_def)
    ultimately show ?thesis
      using assms(4,5) whole_seconds_le [of "s_CreatedAt s"] whole_seconds_pos [OF assms(2)] withDefaults_pos [of "g_policy g"]
      by (auto simp: c renewed_def ExpiryFor_eq storable_def)
  qed
  then show ?thesis unfolding t by (intro signed_in_touch [OF assms(1)]) blast
qed

lemma signed_in_access:
  assumes ok: "signed_in enc s h (renewed g s) rows" and "second \<le> s_CreatedAt s" and "storable (s_CreatedAt s)"
    and "storable (s_CreatedAt s + p_MaxLifetime (withDefaults (g_policy g)))"
    and now: "now + second \<le> renewed g s" and "harmless h (s_ID s) (s_CreatedAt s) now a"
  shows "signed_in enc s h (renewed g s) (access enc uniq g a rows)"
proof (cases a)
  case (ByRequest e p rq)
  with signed_in_request [OF assms(1-4), of e p rq] assms(6) show ?thesis by simp
next
  case (ByStore op)
  show ?thesis
  proof (cases op)
    case (OpCreate f s' h')
    obtain seen x where r: "filter (own h s) rows = [row_at enc s h seen x]" using ok by (auto simp: signed_in_def)
    have "row_at enc s h seen x \<in> set (filter (own h s) rows)" unfolding r by simp
    then have "row_at enc s h seen x \<in> set rows" by simp
    then have "\<not> own h s (row_of enc s' h')" if "\<not> (\<exists>r\<in>set rows. r_id r = s_ID s' \<or> r_token_hash r = h')"
      using that by (auto simp: own_def)
    then have "filter (own h s) (fst (CreateSession enc uniq f s' h' rows)) = filter (own h s) rows"
      by (simp add: CreateSession_rows)
    with ok ByStore OpCreate show ?thesis by (simp add: signed_in_def)
  next
    case (OpTouch f j c b)
    have "signed_in enc s h (renewed g s) (fst (TouchSession f j c b rows))"
    proof (cases f)
      case None
      with assms(6) ByStore OpTouch show ?thesis by (intro signed_in_touch [OF ok]) simp
    next
      case (Some err)
      with ok show ?thesis by (simp add: TouchSession_rows)
    qed
    then show ?thesis by (simp add: ByStore OpTouch)
  next
    case (OpDelete f j)
    have "signed_in enc s h (renewed g s) (fst (DeleteSession f j rows))"
      unfolding DeleteSession_rows by (rule signed_in_unless [OF ok]) (use assms(6) ByStore OpDelete in auto)
    then show ?thesis by (simp add: ByStore OpDelete)
  next
    case (OpDeleteToken f h')
    have "signed_in enc s h (renewed g s) (fst (DeleteSessionByToken f h' rows))"
      unfolding DeleteSessionByToken_rows by (rule signed_in_unless [OF ok]) (use assms(6) ByStore OpDeleteToken in auto)
    then show ?thesis by (simp add: ByStore OpDeleteToken)
  next
    case (OpSweep f t)
    have late: "\<not> stamp x \<le> stamp t" if "0 \<le> t" "t \<le> now" "storable x" "renewed g s \<le> x" for x
    proof -
      have "t < whole_seconds x" using that now whole_seconds_gt [of x] by linarith
      moreover have "storable t" using that now by (simp add: storable_def second_def)
      ultimately show ?thesis using that(3) by (simp add: stamp_le storable_def whole_seconds_le_iff [symmetric])
    qed
    have "signed_in enc s h (renewed g s) (fst (DeleteExpiredSessions f None t rows))"
      unfolding DeleteExpiredSessions_rows by (rule signed_in_unless [OF ok]) (use assms(6) ByStore OpSweep late in auto)
    then show ?thesis by (simp add: ByStore OpSweep)
  qed
qed

lemma signed_in_run:
  assumes "signed_in enc s h (renewed g s) rows" and "second \<le> s_CreatedAt s" and "storable (s_CreatedAt s)"
    and "storable (s_CreatedAt s + p_MaxLifetime (withDefaults (g_policy g)))"
    and "now + second \<le> renewed g s" and "\<forall>a\<in>set as. harmless h (s_ID s) (s_CreatedAt s) now a"
  shows "signed_in enc s h (renewed g s) (fold (access enc uniq g) as rows)"
  using assms(1,6)
proof (induction as arbitrary: rows)
  case (Cons a as)
  with signed_in_access [OF Cons.prems(1) assms(2-5)] show ?case by simp
qed simp

section \<open>Properties\<close>

text \<open>
  C16: signing in lasts. The cookie a sign-in sets resolves, in any later request that carries it,
  to the identity that signed in, with ownership decided by the rule in force then, up to two seconds
  before the expiry written for it: whatever requests this and other browsers made since, each of which
  may have renewed a session, whatever others signed in or out, whatever was swept, and whichever calls
  of the store failed, as long as nobody deleted this session.
\<close>

theorem login_then_access:
  assumes "issueSession e g rq i secure rows = (rows', [ck], None)"
    and "length (e_random e 0 32) = 32" and "e_dec e' (e_enc e (id_Groups i)) = Some (id_Groups i)"
    and "policy_ok (g_policy g)" and "second \<le> e_now e" and "storable (e_now e)"
    and "storable (e_now e + p_MaxLifetime (withDefaults (g_policy g)))"
    and "e_now e' + 2 * second \<le> ExpiryFor (g_policy g) (e_now e) (e_now e)"
    and "\<forall>a\<in>set as. harmless (HashToken (e_sha e) (ck_Value ck)) (e_uuid e) (e_now e) (e_now e') a"
    and "hr_cookie rq' (sessionCookieName g (CookieSecure (e_idp e') p)) = ck_Value ck"
    and "e_sha e' = e_sha e" and "e_fault e' 0 = None"
  shows "snd (resolveSession e' g p rq' (fold (access (e_enc e) (e_uniq e) g) as rows')) =
    Some (i\<lparr>id_Owner := IsOwner (e_idp e') p (id_Groups i)\<rparr>)"
proof (rule issueSession_cases [of e g rq i secure rows])
  fix err assume "issueSession e g rq i secure rows = (rows, [], Some err)"
  with assms(1) show ?thesis by simp
next
  let ?t = "RandomToken (e_random e 0) 32" and ?s = "new_session e g rq i"
  let ?h = "HashToken (e_sha e) ?t" and ?m = "p_MaxLifetime (withDefaults (g_policy g))"
  let ?x = "ExpiryFor (g_policy g) (e_now e) (e_now e)"
  assume iss: "g_sessions g" "e_fault e 2 = None" "\<forall>r\<in>set rows. r_id r \<noteq> e_uuid e \<and> r_token_hash r \<noteq> ?h"
    "issueSession e g rq i secure rows = (rows @ [row_of (e_enc e) ?s ?h], [setSessionCookie g ?t ?x secure], None)"
  have ck: "ck_Value ck = ?t" and rows': "rows' = rows @ [row_of (e_enc e) ?s ?h]"
    using assms(1) iss(4) by (auto simp: setSessionCookie_def)
  have nz: "e_now e \<noteq> 0" "whole_seconds (e_now e) \<noteq> 0"
    using assms(5) whole_seconds_pos [OF assms(5)] by (auto simp: second_def)
  have below: "renewed g ?s \<le> ?x" "?x - second \<le> renewed g ?s" "?x \<le> e_now e + ?m"
    using nz whole_seconds_le [of "e_now e"] whole_seconds_gt [of "e_now e"] by (auto simp: renewed_def ExpiryFor_eq second_def)
  have "0 \<le> ?x" using assms(5) withDefaults_pos [of "g_policy g"] by (simp add: ExpiryFor_eq second_def)
  with below(3) assms(7) have x: "storable ?x" by (simp add: storable_def)
  have "row_of (e_enc e) ?s ?h = row_at (e_enc e) ?s ?h (stamp (e_now e)) ?x"
    by (simp add: row_at_def row_of_def)
  moreover have "filter (own ?h ?s) rows = []" using iss(3) by (auto simp: own_def filter_empty_conv)
  ultimately have "signed_in (e_enc e) ?s ?h (renewed g ?s) rows'"
    using below(1) x by (auto simp: signed_in_def rows')
  then have "signed_in (e_enc e) ?s ?h (renewed g ?s) (fold (access (e_enc e) (e_uniq e) g) as rows')"
    by (rule signed_in_run [where now = "e_now e'"]) (use assms(5-9) below(2) ck in \<open>simp_all\<close>)
  from signed_in_lookup [OF this, of "e_dec e'"] assms(6) obtain seen y where
    l: "lookup_row (e_dec e') ?h (fold (access (e_enc e) (e_uniq e) g) as rows') = Some (scan (e_dec e') (row_at (e_enc e) ?s ?h seen y))"
      "renewed g ?s \<le> y" "s_CreatedAt (scan (e_dec e') (row_at (e_enc e) ?s ?h seen y)) = whole_seconds (e_now e)"
      "s_ExpiresAt (scan (e_dec e') (row_at (e_enc e) ?s ?h seen y)) = whole_seconds y"
    by (metis new_session_sel(2))
  let ?r = "scan (e_dec e') (row_at (e_enc e) ?s ?h seen y)"
  have "e_now e' < whole_seconds y" using l(2) below(2) assms(8) whole_seconds_gt [of y] by linarith
  moreover have "e_now e' < whole_seconds (e_now e) + ?m"
    using below(3) assms(8) whole_seconds_gt [of "e_now e"] by (simp add: second_def)
  ultimately have "Live (g_policy g) ?r (e_now e')" by (simp add: Live_iff [OF assms(4)] l(3,4))
  moreover have "session_Identity ?r = i" "s_Groups ?r = id_Groups i"
    using assms(3) by (simp_all add: scan_def row_at_def row_of_def session_Identity_def new_session_def)
  ultimately show ?thesis
    using resolveSession_found [of rq' g e' p ?t "fold (access (e_enc e) (e_uniq e) g) as rows'" ?r]
      assms(2,10-12) ck RandomToken_nonempty [of "e_random e 0" 32] iss(1) l(1) by simp
qed

text \<open>A month of use: a sweep, a request of the same browser that renews, somebody else's sign-out.\<close>

definition demo_accesses :: "string \<Rightarrow> gate_event list" where
  "demo_accesses token =
     [ByStore (OpSweep None (5000 * second)),
      ByRequest (demo_env\<lparr>e_now := 7200 * second\<rparr>) demo_provider (demo_request\<lparr>hr_cookie := \<lambda>_. token\<rparr>),
      ByStore (OpDelete None ''2'')]"

theorem login_then_access_witness:
  "\<exists>rows' ck. issueSession demo_env demo_gate demo_request demo_identity False [] = (rows', [ck], None) \<and>
     snd (resolveSession (demo_env\<lparr>e_now := 2592000 * second\<rparr>) demo_gate demo_provider
       (demo_request\<lparr>hr_cookie := \<lambda>_. ck_Value ck\<rparr>)
       (fold (access (e_enc demo_env) (e_uniq demo_env) demo_gate) (demo_accesses (ck_Value ck)) rows')) =
     Some (demo_identity\<lparr>id_Owner := IsOwner demo_idp demo_provider [''G'', ''g'']\<rparr>)"
proof -
  have f: "g_sessions demo_gate" "e_fault demo_env 2 = None" by (simp_all add: demo_env_def)
  obtain rows' ck where iss:
    "issueSession demo_env demo_gate demo_request demo_identity False [] = (rows', [ck], None)"
    using f by (simp add: issueSession_def Let_def CreateSession_def)
  have life: "p_MaxLifetime (withDefaults DefaultPolicy) = 2592000000000000"
    by (simp add: withDefaults_def DefaultPolicy_def second_def hour_def minute_def)
  have "snd (resolveSession (demo_env\<lparr>e_now := 2592000 * second\<rparr>) demo_gate demo_provider
       (demo_request\<lparr>hr_cookie := \<lambda>_. ck_Value ck\<rparr>)
       (fold (access (e_enc demo_env) (e_uniq demo_env) demo_gate) (demo_accesses (ck_Value ck)) rows')) =
     Some (demo_identity\<lparr>id_Owner := IsOwner (e_idp (demo_env\<lparr>e_now := 2592000 * second\<rparr>)) demo_provider (id_Groups demo_identity)\<rparr>)"
    by (rule login_then_access [OF iss])
       (simp_all add: demo_session_ok demo_accesses_def life second_def storable_def year_10000_def day_secs_def)
  with iss show ?thesis by auto
qed

end
