(* ===== verification/Spec2Isabelle.thy ===== *)
theory Spec2Isabelle
  imports CacheSystem HttpStack Teardown App Gate Httpc Ssrf Pool Jobs FiberX Pubsub Health Backup Sqlitex Notify WebPush
    SessionTable Capset Observe Host GateSweep SignedIn
begin

text \<open>
  A verification library of neokit, a Go library for small self-hosted services: what a service's
  \<open>main\<close> composes (boot and teardown, supervised goroutines, periodic jobs, HTTP middleware, a
  login over OpenID Connect, a SQLite store with migrations and backups, an HTTP client, caches,
  notifications). This theory imports all others; each opens with a text of its own.

  \<^bold>\<open>The program's parts and how they meet.\<close> \<open>neokit.New\<close> is \<open>app.New\<close>: it installs the telemetry
  (\<open>tracing.Init\<close>, \<open>metrics.Init\<close>), builds the HTTP server with the middleware of \<open>fiberx\<close> and
  \<open>tracing\<close>, and owns a \<open>lifecycle.Stack\<close> of teardown steps. \<open>Database\<close> opens \<open>sqlitex\<close> and
  pushes its close on that stack; \<open>Login\<close> mounts \<open>oidcauth/fiberauth\<close>, which drives the relying
  party \<open>oidcauth\<close> and keeps sessions in \<open>session\<close>, and starts its sweep, a job of \<open>jobs\<close>, as a
  goroutine of \<open>safe\<close>; \<open>Backups\<close> starts the daily job of \<open>backup\<close> the same way. \<open>Run\<close> pushes the
  steps that release the streams, drain the server, cancel the background work and join it, and
  sweeps the stack. Outbound calls go through \<open>httpc\<close>, its retrying transport, and the error
  classes of \<open>errs\<close> and \<open>httpc/fault.go\<close>; \<open>notify\<close> and \<open>webpush\<close> are clients of it.

  \<^bold>\<open>Conventions.\<close> A function of the source is a HOL function of the same name, with a suffix where
  the name is taken (\<open>New_app\<close>, \<open>Close_app\<close>, \<open>job_Run\<close>). A struct is a record, an error of Go a
  value of \<open>gerr\<close> (theory \<open>GoErr\<close>), a result with an error a sum or a pair with an option, a panic
  or a call that does not return a value of its own (None, \<open>Panicked\<close>, \<open>DoPanic\<close>). An instant is an
  integer of nanoseconds since Go's zero time and a duration one of nanoseconds; where the source
  computes with durations that can overflow, the wrap-around of int64 (\<open>i64\<close>) and the saturation of
  \<open>Sub\<close> (\<open>time_sub\<close>) are written out, and disk sizes are 64-bit words. A string is the list of its
  bytes. What is not under src (Fiber, SQLite, OpenTelemetry, go-oidc, net/http's client, encoders,
  parsers and hashes) is an argument of the definitions that use it. Components whose difficulty is
  concurrency are step relations over goroutines at program points, one step per critical section
  or channel operation, in every interleaving.

  \<^bold>\<open>The theories.\<close>

  \<^item> \<open>Prelude\<close>, \<open>GoErr\<close>, \<open>Strconv\<close>, \<open>Calendar\<close>: time, strings, error trees with \<open>errors.Is\<close> and
    \<open>errors.As\<close>, decimal numbers, the calendar and RFC 3339 with their round trips.
  \<^item> \<open>Cache\<close>, \<open>CacheFlight\<close>, \<open>CacheSystem\<close>: cache/cache.go. The table with its eviction and the
    operations on an entry (locale \<open>entry_table\<close>, interpreted on the model's map); goroutines on
    one entry (\<open>estep\<close>); and the whole cache, any calls on any keys (\<open>cache_act\<close>). Single flight
    per entry, and per key as long as nothing is evicted; no value loaded was fetched before the
    last \<open>Invalidate\<close>; a refresh can be claimed and dropped, which leaves the key stale. An action of
    the cache is a step of one entry and leaves the others alone, and a caller reads its own change
    across evictions.
  \<^item> \<open>Lifecycle\<close>, \<open>App\<close>, \<open>Netx\<close>, \<open>Buildinfo\<close>: lifecycle/lifecycle.go, app/app.go, app/run.go, netx,
    buildinfo. The teardown is last in first out, runs every step once and loses no failure: its
    error and its log are those of what the steps answered (\<open>answered\<close>, a trace apart from the
    code's own loop). Close returns though the drain waits for streams and the join for the context.
    Fiber may refuse a configuration or a CORS origin by panicking, and then New panics.
  \<^item> \<open>Supervise\<close>, \<open>Pool\<close>, \<open>Jobs\<close>: safe/supervise.go, safe/pool.go, safe/all.go, jobs. A drain that
    succeeds is truthful and no wake-up is lost; a pool keeps its limit; a job survives errors
    and panics; \<open>Daily.Next\<close> over locations with changing offsets.
  \<^item> \<open>Teardown\<close>: the teardown of a running application with the drain of \<open>Supervise\<close> as one of its
    steps: what the jobs write to closes after they were joined, or Close reports the timeout; for
    the database of \<open>Neokit\<close> and the goroutines \<open>Login\<close> and \<open>Backups\<close> start, also when the
    application is closed before it runs.
  \<^item> \<open>Token\<close>, \<open>Session\<close>, \<open>SessionTable\<close>: session and ids. The policy and the store over SQLite, whose
    laws are the locale \<open>session_store\<close>: what is signed out stays signed out, and a sweep takes
    exactly what has expired. The table is typed, and refines a map from token hashes to sessions.
  \<^item> \<open>Oidc\<close>, \<open>Gate\<close>, \<open>SignedIn\<close>, \<open>GateSweep\<close>: oidcauth and oidcauth/fiberauth. An identity comes from a token
    verified for this client, this code, verifier and nonce; a callback signs in only the browser that
    started; the guards of the routes New registers; the return path stays on the site; a logout
    clears both cookies and ends their sessions. \<open>SignedIn\<close> follows a session through the requests
    that renew it, the sweeps and the sign-ins of others to its expiry. \<open>GateSweep\<close> joins \<open>Gate.Run\<close>, the scheduler and the table.
  \<^item> \<open>Fault\<close>, \<open>Retry\<close>, \<open>Httpc\<close>, \<open>HttpStack\<close>, \<open>DebugRing\<close>, \<open>Ssrf\<close>: errs and httpc. Which requests are issued
    again and how often, the token source (locale \<open>token_source\<close>) with one login per burst of
    rejected requests, the addresses a guarded fetch refuses, the ring of recent calls.
    \<open>HttpStack\<close> puts the client on the transport: how many requests a call puts on the wire.
  \<^item> \<open>FiberX\<close>, \<open>Observe\<close>: fiberx; logx, metrics and tracing. The status recorded for an error is the
    one that is rendered, the counter of active requests is exact, a request that panics is answered
    by recover and not recorded; conditional requests; what a
    logger stamps, what the telemetry installs, and what a span records of its request.
  \<^item> \<open>Pubsub\<close>, \<open>Health\<close>: the topic bus and the readiness registry as step relations. A publisher offers
    its value to every subscriber once, and drops it only for a full queue.
  \<^item> \<open>Sqlitex\<close>, \<open>Backup\<close>: the migration runner refines "the first k steps, applied once", under any
    faults and crashes; result sets cut short are errors; retention keeps exactly the newest backups.
  \<^item> \<open>Notify\<close>, \<open>WebPush\<close>: the requests senders make and what their delivery reports; the VAPID keys
    and the fan-out: its loop, its goroutines, their semaphore and wait group (\<open>loop_step\<close>, \<open>go_step\<close>),
    which ends with the outcome of the sequential \<open>SendTo\<close>.
  \<^item> \<open>Capset\<close>: the memo of capabilities (locale \<open>memo\<close>, interpreted on both of its maps): its answers
    under any interleaving are those of a fresh scan.
  \<^item> \<open>Host\<close>: config, clock, disk and httpc/drain.go.
  \<^item> \<open>Neokit\<close>: neokit.go over all of these: the boot, for every outcome of the telemetry and of Fiber,
    and the goroutines the features start, with the context each is given.

  \<^bold>\<open>Bounds and fuel.\<close> There is no fuel: the loops of the source are structural recursions, functions
  with a measure, or, where the environment decides how long they go on (jobs, supervised
  goroutines), recursions over the list of its events, with theorems for every such list. Loops
  over a retry count recurse on the attempts left. Hypotheses on sizes are only those of Go's own
  types, such as instants before the year 10000 for RFC 3339 text to order as time does.

  \<^bold>\<open>Not modelled.\<close> The examples, which only call the library; \<open>ids.UUIDGenerator\<close>, a call of a
  third-party package; \<open>lifecycle.Signals\<close>, \<open>safe.Recover\<close> and the formatting of log lines, which
  only call the standard library; the choice of a default logger; \<open>config.Base\<close>, a struct of tags
  that package env reads; the dispatch of a request by Fiber (the handlers, and the order in which
  they are registered, are modelled); mutual exclusion itself, which the steps assume of Go's mutexes.
  A caller's own failure handler of a login is only the reply it makes, not the cookies it may write;
  which part of a URL that does not parse its error shows (\<open>url.Parse\<close> cuts the fragment first) is
  left at the whole; the zone of an IPv6 address, which no refused range depends on; a negative
  \<open>user_version\<close>, with which the migration runner would index before its first step; and the
  wrap-around of the cache's 64-bit generation.
  The findings that modelling showed are in the manifest, each beside the theorem or lemma that shows
  it where there is one.
\<close>

end
